(* ===== verification/Prelude.thy ===== *)
theory Prelude
  imports Main "HOL-Library.Word"
begin

text \<open>
  Shared vocabulary of the development: the names of the C integer types the library
  uses, the host byte order as a parameter of the model, and the generic lemmas on
  lists and words the components share.

  A C integer of width w is a \<open>w word\<close>; an \<open>int32_t\<close> is read with \<open>sint\<close>. Arithmetic on
  words wraps, which is what the compiled code does on two's complement hosts.
\<close>

unbundle bit_operations_syntax

type_synonym u8 = "8 word"
type_synonym u16 = "16 word"
type_synonym u32 = "32 word"
type_synonym u64 = "64 word"
type_synonym i32 = "32 word"

text \<open>
  Fault values. \<open>ReturnError\<close> is the documented error return of a routine (\<open>-1\<close> or a
  negative \<open>MS_\<close> code); the other constructors mark executions that leave the
  behaviour the C standard defines, so that they show in the model as values.
\<close>

datatype fault = ReturnError int | NullDeref | OutOfBounds | Overflow

type_synonym 'a result = "fault + 'a"

named_theorems word_fields \<open>reading fields of packed words\<close>
named_theorems loop_unfold \<open>one-step unfoldings of the loops of the code\<close>

subsection \<open>Lists\<close>

lemma take_upt_map [simp]: "map ((!) xs) [0..<n] = take n xs" if "n \<le> length xs"
  using that by (auto intro: nth_equalityI)

lemma concat_map_upt_split:
  "a \<le> b \<Longrightarrow> b \<le> c \<Longrightarrow>
   concat (map f [a..<c]) = concat (map f [a..<b]) @ concat (map f [b..<c])"
  by (metis concat_append le_Suc_ex map_append upt_add_eq_append)

lemma concat_map_upt_Cons:
  "a < c \<Longrightarrow> concat (map f [a..<c]) = f a @ concat (map f [Suc a..<c])"
  by (simp add: upt_conv_Cons)

lemma concat_map_upt_cong:
  "(\<And>i. a \<le> i \<Longrightarrow> i < c \<Longrightarrow> f i = g i) \<Longrightarrow> concat (map f [a..<c]) = concat (map g [a..<c])"
  by (rule arg_cong [of _ _ concat]) auto

lemma take_add_drop: "take a xs @ take b (drop a xs) = take (a + b) xs"
  by (simp add: take_add)

lemma length_concat_map_le:
  "(\<And>x. x \<in> set xs \<Longrightarrow> length (f x) \<le> k) \<Longrightarrow> length (concat (map f xs)) \<le> k * length xs"
  by (induction xs) (auto simp: add_mono)

subsection \<open>Words\<close>

lemma ucast_ucast_u8_u32 [simp]: "ucast (ucast (b :: u8) :: u32) = b"
  by (rule bit_word_eqI) (simp add: bit_simps)

subsection \<open>Sign extension\<close>

text \<open>A value that fits \<open>m + 1\<close> bits repeats its bit \<open>m\<close> above.\<close>

definition fits :: "nat \<Rightarrow> i32 \<Rightarrow> bool" where
  "fits m d \<longleftrightarrow> (\<forall>n < 32. bit d n = bit d (min m n))"

lemma fitsD: "fits m d \<Longrightarrow> n < 32 \<Longrightarrow> bit d (min m n) = bit d n"
  unfolding fits_def by blast

lemma fits_of_range:
  assumes "-(2 ^ m) \<le> sint d" "sint d < 2 ^ m"
  shows "fits m (d :: i32)"
  unfolding fits_def
proof (intro allI impI)
  fix n :: nat assume n: "n < 32"
  have eq: "signed_take_bit m (sint d) = sint d"
    using assms by (simp add: signed_take_bit_int_eq_self)
  have b: "bit (sint d) k = bit d k" if "k < 32" for k
    using that by (simp add: bit_sint_iff min_def)
  have "bit d n = bit (sint d) n" using b n by simp
  also have "\<dots> = bit (signed_take_bit m (sint d)) n" by (simp add: eq)
  also have "\<dots> = bit (sint d) (min m n)" by (simp add: bit_signed_take_bit_iff)
  also have "\<dots> = bit d (min m n)" using n by (intro b) simp
  finally show "bit d n = bit d (min m n)" .
qed

lemma scast_u8_fits: "fits 7 d \<Longrightarrow> scast (ucast d :: u8) = d"
proof (rule bit_word_eqI)
  fix n assume f: "fits 7 d" and "n < LENGTH(32)"
  then have n: "n < 32" by simp
  have "min 7 n < 8" by simp
  with n have "bit (scast (ucast d :: u8) :: i32) n = bit d (min 7 n)"
    by (simp only: bit_signed_iff bit_unsigned_iff possible_bit_word) simp
  then show "bit (scast (ucast d :: u8) :: i32) n = bit d n" using fitsD [OF f n] by simp
qed

lemma scast_u16_fits: "fits 15 d \<Longrightarrow> scast (ucast d :: u16) = d"
proof (rule bit_word_eqI)
  fix n assume f: "fits 15 d" and "n < LENGTH(32)"
  then have n: "n < 32" by simp
  have "min 15 n < 16" by simp
  with n have "bit (scast (ucast d :: u16) :: i32) n = bit d (min 15 n)"
    by (simp only: bit_signed_iff bit_unsigned_iff possible_bit_word) simp
  then show "bit (scast (ucast d :: u16) :: i32) n = bit d n" using fitsD [OF f n] by simp
qed

subsection \<open>Words as integers\<close>

lemma uint_and_mask: "uint (w AND mask k) = uint (w :: 'a::len word) mod 2 ^ k"
proof -
  have "uint (w AND mask k) = take_bit k (uint w)"
    by (simp only: take_bit_eq_mask [symmetric] unsigned_take_bit_eq)
  then show ?thesis by (simp only: take_bit_eq_mod)
qed

lemma uint_drop_div: "uint (drop_bit k (w :: 'a::len word)) = uint w div 2 ^ k"
proof -
  have "uint (drop_bit k w) = drop_bit k (take_bit LENGTH('a) (uint w))"
    by (simp only: unsigned_drop_bit_eq)
  then show ?thesis by (simp only: drop_bit_eq_div bintr_uint order_refl)
qed

lemma sint_small: "-(2 ^ 31) \<le> i \<Longrightarrow> i < 2 ^ 31 \<Longrightarrow> sint (word_of_int i :: i32) = i"
  by (simp add: int_word_sint)

lemma push_of_int: "push_bit k (word_of_int i :: 'a::len word) = word_of_int (i * 2 ^ k)"
  by (simp add: push_bit_eq_mult)

end
