(* ===== verification/Bytes.thy ===== *)
theory Bytes
  imports Prelude
begin

text \<open>
  Byte order. The host byte order is a parameter of every routine that looks at the
  memory layout of a machine integer. A 32-bit memory word is modelled by its value on
  the host; the accessors below are the members \<open>d8\<close> and \<open>d16\<close> of the code's
  \<open>union dword\<close>, and \<open>gswap\<close> is the byte swap of libmseed.h.
\<close>

datatype byteorder = LittleEndian | BigEndian

text \<open>The run time test for the host order: the first byte of the 16-bit word 0x0102.\<close>

definition u16_byte :: "byteorder \<Rightarrow> u16 \<Rightarrow> nat \<Rightarrow> u8" where
  "u16_byte h w i = ucast (drop_bit (case h of LittleEndian \<Rightarrow> 8 * i | BigEndian \<Rightarrow> 8 - 8 * i) w)"

definition ms_bigendianhost :: "byteorder \<Rightarrow> bool" where
  "ms_bigendianhost h \<longleftrightarrow> u16_byte h 0x0102 0 = 0x01"

definition ms_gswap2 :: "u16 \<Rightarrow> u16" where
  "ms_gswap2 dat = (drop_bit 8 (dat AND 0xff00)) OR (push_bit 8 (dat AND 0x00ff))"

definition ms_gswap4 :: "u32 \<Rightarrow> u32" where
  "ms_gswap4 dat =
     (drop_bit 24 (dat AND 0xff000000)) OR (push_bit 24 (dat AND 0x000000ff)) OR
     (drop_bit 8 (dat AND 0x00ff0000)) OR (push_bit 8 (dat AND 0x0000ff00))"

definition ms_gswap8 :: "u64 \<Rightarrow> u64" where
  "ms_gswap8 dat =
     (drop_bit 56 (dat AND 0xff00000000000000)) OR (push_bit 56 (dat AND 0x00000000000000ff)) OR
     (drop_bit 40 (dat AND 0x00ff000000000000)) OR (push_bit 40 (dat AND 0x000000000000ff00)) OR
     (drop_bit 24 (dat AND 0x0000ff0000000000)) OR (push_bit 24 (dat AND 0x0000000000ff0000)) OR
     (drop_bit 8 (dat AND 0x000000ff00000000)) OR (push_bit 8 (dat AND 0x00000000ff000000))"

definition swap2_if :: "bool \<Rightarrow> u16 \<Rightarrow> u16" where
  "swap2_if s w = (if s then ms_gswap2 w else w)"

definition swap4_if :: "bool \<Rightarrow> u32 \<Rightarrow> u32" where
  "swap4_if s w = (if s then ms_gswap4 w else w)"

definition swap8_if :: "bool \<Rightarrow> u64 \<Rightarrow> u64" where
  "swap8_if s w = (if s then ms_gswap8 w else w)"

subsection \<open>Members of the union dword\<close>

definition d8_shift :: "byteorder \<Rightarrow> nat \<Rightarrow> nat" where
  "d8_shift h i = (case h of LittleEndian \<Rightarrow> 8 * i | BigEndian \<Rightarrow> 24 - 8 * i)"

definition d16_shift :: "byteorder \<Rightarrow> nat \<Rightarrow> nat" where
  "d16_shift h i = (case h of LittleEndian \<Rightarrow> 16 * i | BigEndian \<Rightarrow> 16 - 16 * i)"

definition get_d8 :: "byteorder \<Rightarrow> u32 \<Rightarrow> nat \<Rightarrow> u8" where
  "get_d8 h w i = ucast (drop_bit (d8_shift h i) w)"

definition put_d8 :: "byteorder \<Rightarrow> nat \<Rightarrow> u8 \<Rightarrow> u32 \<Rightarrow> u32" where
  "put_d8 h i b w =
     (w AND NOT (push_bit (d8_shift h i) 0xFF)) OR push_bit (d8_shift h i) (ucast b)"

definition get_d16 :: "byteorder \<Rightarrow> u32 \<Rightarrow> nat \<Rightarrow> u16" where
  "get_d16 h w i = ucast (drop_bit (d16_shift h i) w)"

definition put_d16 :: "byteorder \<Rightarrow> nat \<Rightarrow> u16 \<Rightarrow> u32 \<Rightarrow> u32" where
  "put_d16 h i b w =
     (w AND NOT (push_bit (d16_shift h i) 0xFFFF)) OR push_bit (d16_shift h i) (ucast b)"

text \<open>The bytes of a word as they lie in memory, lowest address first.\<close>

definition u32_bytes :: "byteorder \<Rightarrow> u32 \<Rightarrow> u8 list" where
  "u32_bytes h w = [get_d8 h w 0, get_d8 h w 1, get_d8 h w 2, get_d8 h w 3]"

definition words_bytes :: "byteorder \<Rightarrow> u32 list \<Rightarrow> u8 list" where
  "words_bytes h ws = concat (map (u32_bytes h) ws)"

subsection \<open>Lemmas\<close>

text \<open>The bits of a constant that is a run of ones.\<close>

declare bit_numeral_word_iff [simp del]

lemma bit_field_const:
  assumes "(c :: 'a::len word) = push_bit k (mask m)"
  shows "bit c n \<longleftrightarrow> k \<le> n \<and> n < k + m \<and> n < LENGTH('a)"
  unfolding assms by (auto simp add: bit_push_bit_iff bit_mask_iff)

lemma bit_0xFF [word_fields]: "bit (0xFF :: 'a::len word) n \<longleftrightarrow> n < 8 \<and> n < LENGTH('a)"
  by (subst bit_field_const [where k = 0 and m = 8]) (simp_all add: mask_eq_exp_minus_1)

lemma bit_0xFFFF [word_fields]: "bit (0xFFFF :: 'a::len word) n \<longleftrightarrow> n < 16 \<and> n < LENGTH('a)"
  by (subst bit_field_const [where k = 0 and m = 16]) (simp_all add: mask_eq_exp_minus_1)

lemma bit_0xff00 [word_fields]: "bit (0xff00 :: 'a::len word) n \<longleftrightarrow> 8 \<le> n \<and> n < 16 \<and> n < LENGTH('a)"
  by (subst bit_field_const [where k = 8 and m = 8]) (simp_all add: mask_eq_exp_minus_1)

lemma bit_0xff0000 [word_fields]: "bit (0xff0000 :: 'a::len word) n \<longleftrightarrow> 16 \<le> n \<and> n < 24 \<and> n < LENGTH('a)"
  by (subst bit_field_const [where k = 16 and m = 8]) (simp_all add: mask_eq_exp_minus_1)

lemma bit_0xff000000 [word_fields]: "bit (0xff000000 :: 'a::len word) n \<longleftrightarrow> 24 \<le> n \<and> n < 32 \<and> n < LENGTH('a)"
  by (subst bit_field_const [where k = 24 and m = 8]) (simp_all add: mask_eq_exp_minus_1)

lemmas word_bits = bit_and_iff bit_or_iff bit_xor_iff bit_push_bit_iff bit_drop_bit_eq comp_apply
  bit_unsigned_iff possible_bit_word bit_not_iff

lemma ms_bigendianhost_iff: "ms_bigendianhost h \<longleftrightarrow> h = BigEndian"
  by (cases h) (simp_all add: ms_bigendianhost_def u16_byte_def)

lemma less_8_cases: "(n::nat) < 8 \<Longrightarrow> n = 0 \<or> n = 1 \<or> n = 2 \<or> n = 3 \<or> n = 4 \<or> n = 5 \<or> n = 6 \<or> n = 7"
  by arith

lemma less_4_cases: "(i::nat) < 4 \<Longrightarrow> i = 0 \<or> i = 1 \<or> i = 2 \<or> i = 3"
  by arith

lemma ms_gswap2_bit: "bit (ms_gswap2 w) n \<longleftrightarrow> (if n < 8 then bit w (n + 8) else n < 16 \<and> bit w (n - 8))"
  unfolding ms_gswap2_def word_bits word_fields by (auto simp: add.commute dest: bit_imp_le_length)

lemma ms_gswap4_bit:
  "bit (ms_gswap4 w) n \<longleftrightarrow>
     (if n < 8 then bit w (n + 24) else if n < 16 then bit w (n + 8)
      else if n < 24 then bit w (n - 8) else n < 32 \<and> bit w (n - 24))"
  unfolding ms_gswap4_def word_bits word_fields by (auto simp: add.commute dest: bit_imp_le_length)

lemma ms_gswap2_involution [simp]: "ms_gswap2 (ms_gswap2 w) = w"
  by (rule bit_word_eqI) (auto simp: ms_gswap2_bit)

lemma ms_gswap4_involution [simp]: "ms_gswap4 (ms_gswap4 w) = w"
  by (rule bit_word_eqI) (auto simp: ms_gswap4_bit)

text \<open>The byte masks of the upper half of a 64-bit word.\<close>

lemma bit_hi_masks [word_fields]:
  "bit (0xff00000000 :: 'a::len word) n \<longleftrightarrow> 32 \<le> n \<and> n < 40 \<and> n < LENGTH('a)"
  "bit (0xff0000000000 :: 'a::len word) n \<longleftrightarrow> 40 \<le> n \<and> n < 48 \<and> n < LENGTH('a)"
  "bit (0xff000000000000 :: 'a::len word) n \<longleftrightarrow> 48 \<le> n \<and> n < 56 \<and> n < LENGTH('a)"
  "bit (0xff00000000000000 :: 'a::len word) n \<longleftrightarrow> 56 \<le> n \<and> n < 64 \<and> n < LENGTH('a)"
  by (subst bit_field_const [where k = 32 and m = 8], simp_all add: mask_eq_exp_minus_1)
     (subst bit_field_const [where k = 40 and m = 8], simp_all add: mask_eq_exp_minus_1,
      subst bit_field_const [where k = 48 and m = 8], simp_all add: mask_eq_exp_minus_1,
      subst bit_field_const [where k = 56 and m = 8], simp_all add: mask_eq_exp_minus_1)

text \<open>The byte lane a bit position falls into.\<close>

lemma byte_lane: obtains "n < 8" | m where "n = 8 + m" "m < 8" | m where "n = 16 + m" "m < 8"
   | m where "n = 24 + m" "m < 8" | m where "n = 32 + m" "m < 8" | m where "n = 40 + m" "m < 8"
   | m where "n = 48 + m" "m < 8" | m where "n = 56 + m" "m < 8" | m where "n = 64 + (m::nat)"
proof -
  have *: "thesis" if "k \<le> n" "n < k + 8" "\<And>m. n = k + m \<Longrightarrow> m < 8 \<Longrightarrow> thesis" for k thesis
    using that(3) [of "n - k"] that(1,2) by simp
  consider "n < 8" | "8 \<le> n" "n < 8 + 8" | "16 \<le> n" "n < 16 + 8" | "24 \<le> n" "n < 24 + 8" | "32 \<le> n" "n < 32 + 8"
    | "40 \<le> n" "n < 40 + 8" | "48 \<le> n" "n < 48 + 8" | "56 \<le> n" "n < 56 + 8" | "64 \<le> n" by linarith
  then show thesis
    by cases (rule that(1), assumption, (rule *, assumption, assumption, erule (1) that)+, rule that(9) [of "n - 64"], simp)
qed

lemma ms_gswap8_bit:
  "bit (ms_gswap8 w) n \<longleftrightarrow>
     (if n < 8 then bit w (n + 56) else if n < 16 then bit w (n + 40)
      else if n < 24 then bit w (n + 24) else if n < 32 then bit w (n + 8)
      else if n < 40 then bit w (n - 8) else if n < 48 then bit w (n - 24)
      else if n < 56 then bit w (n - 40) else n < 64 \<and> bit w (n - 56))"
  by (cases n rule: byte_lane; unfold ms_gswap8_def word_bits word_fields; simp add: add.commute)

lemma ms_gswap8_involution [simp]: "ms_gswap8 (ms_gswap8 w) = w"
  by (rule bit_word_eqI) (auto simp: ms_gswap8_bit)

lemma swap8_if_involution [simp]: "swap8_if s (swap8_if s w) = w"
  by (simp add: swap8_if_def)

lemma swap2_if_involution [simp]: "swap2_if s (swap2_if s w) = w"
  by (simp add: swap2_if_def)

lemma swap4_if_involution [simp]: "swap4_if s (swap4_if s w) = w"
  by (simp add: swap4_if_def)

lemma ms_gswap4_0 [simp]: "ms_gswap4 0 = 0"
  by (simp add: ms_gswap4_def)

lemma swap4_if_0 [simp]: "swap4_if s 0 = 0"
  by (simp add: swap4_if_def)

lemma d8_shift_le: "i < 4 \<Longrightarrow> d8_shift h i \<le> 24"
  by (cases h) (auto simp: d8_shift_def)

text \<open>Disjoint byte lanes of a word.\<close>

lemma d8_shift_lanes:
  assumes "i < 4" "j < 4" "n < 8"
  shows "d8_shift h i \<le> d8_shift h j + n \<and> d8_shift h j + n < d8_shift h i + 8 \<longleftrightarrow> i = j"
  using assms by (cases h) (auto simp: d8_shift_def)

lemma put_d8_bit:
  "bit (put_d8 h i b w) n \<longleftrightarrow>
     (if d8_shift h i \<le> n \<and> n < d8_shift h i + 8 then n < 32 \<and> bit b (n - d8_shift h i)
      else bit w n)"
  by (auto simp: put_d8_def bit_simps word_fields dest: bit_imp_le_length)

lemma get_d8_bit: "bit (get_d8 h w i) n \<longleftrightarrow> n < 8 \<and> bit w (d8_shift h i + n)"
  by (auto simp: get_d8_def bit_simps)

lemma get_put_d8 [word_fields]:
  assumes "i < 4" "j < 4"
  shows "get_d8 h (put_d8 h i b w) j = (if i = j then b else get_d8 h w j)"
proof (rule bit_word_eqI)
  fix n assume "n < LENGTH(8)"
  then have n: "n < 8" by simp
  have "d8_shift h j + n < 32" using d8_shift_le [OF assms(2), of h] n by simp
  then show "bit (get_d8 h (put_d8 h i b w) j) n = bit (if i = j then b else get_d8 h w j) n"
    using n d8_shift_lanes [OF assms n, of h] by (auto simp: get_d8_bit put_d8_bit)
qed

lemma d16_shift_lanes:
  assumes "i < 2" "j < 2" "n < 16"
  shows "d16_shift h i \<le> d16_shift h j + n \<and> d16_shift h j + n < d16_shift h i + 16 \<longleftrightarrow> i = j"
    and "d16_shift h j + n < 32"
  using assms by (cases h; auto simp: d16_shift_def)+

lemma put_d16_bit:
  "bit (put_d16 h i b w) n \<longleftrightarrow>
     (if d16_shift h i \<le> n \<and> n < d16_shift h i + 16 then n < 32 \<and> bit b (n - d16_shift h i)
      else bit w n)"
  by (auto simp: put_d16_def bit_simps word_fields dest: bit_imp_le_length)

lemma get_d16_bit: "bit (get_d16 h w i) n \<longleftrightarrow> n < 16 \<and> bit w (d16_shift h i + n)"
  by (auto simp: get_d16_def bit_simps)

lemma get_put_d16 [word_fields]:
  assumes "i < 2" "j < 2"
  shows "get_d16 h (put_d16 h i b w) j = (if i = j then b else get_d16 h w j)"
proof (rule bit_word_eqI)
  fix n assume "n < LENGTH(16)"
  then have n: "n < 16" by simp
  show "bit (get_d16 h (put_d16 h i b w) j) n = bit (if i = j then b else get_d16 h w j) n"
    using n d16_shift_lanes [OF assms n, of h] by (auto simp: get_d16_bit put_d16_bit)
qed

lemma get_d8_gswap4 [word_fields]:
  assumes "i < 4"
  shows "get_d8 h (ms_gswap4 w) i = get_d8 h w (3 - i)"
proof (rule bit_word_eqI)
  fix n assume "n < LENGTH(8)"
  then show "bit (get_d8 h (ms_gswap4 w) i) n = bit (get_d8 h w (3 - i)) n"
    using less_4_cases [OF assms]
    by (cases h) (auto simp: get_d8_def d8_shift_def bit_simps ms_gswap4_bit add.commute)
qed

lemma get_d8_other [word_fields]:
  assumes "i < 4"
  shows "get_d8 BigEndian w i = get_d8 LittleEndian w (3 - i)"
  using less_4_cases [OF assms] by (auto simp: get_d8_def d8_shift_def)

lemma length_u32_bytes [simp]: "length (u32_bytes h w) = 4"
  by (simp add: u32_bytes_def)

lemma u32_bytes_big: "u32_bytes BigEndian w = rev (u32_bytes LittleEndian w)"
  by (simp add: u32_bytes_def get_d8_other)

lemma u32_bytes_gswap4: "u32_bytes h (ms_gswap4 w) = rev (u32_bytes h w)"
  by (simp add: u32_bytes_def get_d8_gswap4)

text \<open>A word swapped on a little-endian host lies in memory as the word does on a big-endian one.\<close>

lemma u32_bytes_swap_host: "u32_bytes LittleEndian (ms_gswap4 w) = u32_bytes BigEndian w"
  by (simp add: u32_bytes_big u32_bytes_gswap4)

lemma u32_bytes_inj: "u32_bytes h v = u32_bytes h w \<Longrightarrow> v = w"
proof (rule bit_word_eqI)
  fix n assume eq: "u32_bytes h v = u32_bytes h w" and "n < LENGTH(32)"
  then have n: "n < 32" by simp
  define i where "i = n div 8"
  define j where "j = n mod 8"
  have ij: "i < 4" "j < 8" "n = 8 * i + j" using n by (auto simp: i_def j_def)
  have LE: "get_d8 LittleEndian v i = get_d8 LittleEndian w i"
    using eq less_4_cases [OF ij(1)] by (cases h) (auto simp: u32_bytes_def get_d8_other)
  then have "bit (get_d8 LittleEndian v i) j = bit (get_d8 LittleEndian w i) j" by simp
  then show "bit v n = bit w n"
    using ij by (simp add: get_d8_def d8_shift_def bit_simps)
qed

lemma length_words_bytes [simp]: "length (words_bytes h ws) = 4 * length ws"
  by (induction ws) (simp_all add: words_bytes_def)

subsection \<open>Words read from memory\<close>

text \<open>The 32-bit word that four bytes in memory make.\<close>

definition dword_of_bytes :: "byteorder \<Rightarrow> u8 \<Rightarrow> u8 \<Rightarrow> u8 \<Rightarrow> u8 \<Rightarrow> u32" where
  "dword_of_bytes h b0 b1 b2 b3 = put_d8 h 3 b3 (put_d8 h 2 b2 (put_d8 h 1 b1 (put_d8 h 0 b0 0)))"

lemma dword_of_bytes_int:
  "dword_of_bytes LittleEndian b0 b1 b2 b3 =
     word_of_int (uint b0 + 2 ^ 8 * uint b1 + 2 ^ 16 * uint b2 + 2 ^ 24 * uint b3)"
proof -
  define w0 w1 w2 w3 where "w0 = (ucast b0 :: u32)" and "w1 = push_bit 8 (ucast b1 :: u32)"
    and "w2 = push_bit 16 (ucast b2 :: u32)" and "w3 = push_bit 24 (ucast b3 :: u32)"
  note w = w0_def w1_def w2_def w3_def
  have bits: "bit w0 n \<longleftrightarrow> n < 8 \<and> bit b0 n" "bit w1 n \<longleftrightarrow> 8 \<le> n \<and> n < 16 \<and> bit b1 (n - 8)"
    "bit w2 n \<longleftrightarrow> 16 \<le> n \<and> n < 24 \<and> bit b2 (n - 16)" "bit w3 n \<longleftrightarrow> 24 \<le> n \<and> n < 32 \<and> bit b3 (n - 24)" for n
    unfolding w word_bits by (auto dest: bit_imp_le_length)
  have "dword_of_bytes LittleEndian b0 b1 b2 b3 = w0 OR w1 OR w2 OR w3"
    by (rule bit_word_eqI)
       (auto simp: dword_of_bytes_def put_d8_bit d8_shift_def bit_or_iff bits)
  also have "\<dots> = w0 + (w1 + (w2 + w3))"
  proof -
    have 1: "w2 + w3 = w2 OR w3" by (rule disjunctive_add) (auto simp: bits)
    have 2: "w1 + (w2 OR w3) = w1 OR w2 OR w3" by (rule disjunctive_add) (auto simp: bits bit_or_iff)
    have 3: "w0 + (w1 OR w2 OR w3) = w0 OR w1 OR w2 OR w3" by (rule disjunctive_add) (auto simp: bits bit_or_iff)
    show ?thesis unfolding 1 2 3 ..
  qed
  also have "\<dots> = word_of_int (uint b0 + 2 ^ 8 * uint b1 + 2 ^ 16 * uint b2 + 2 ^ 24 * uint b3)"
    unfolding w ucast_eq push_of_int wi_hom_syms by (simp only: ac_simps)
  finally show ?thesis .
qed

lemma dword_of_bytes_big: "dword_of_bytes BigEndian b0 b1 b2 b3 = dword_of_bytes LittleEndian b3 b2 b1 b0"
  by (rule bit_word_eqI) (auto simp: dword_of_bytes_def put_d8_bit d8_shift_def)

end
