(* ===== verification/SteimEncode.thy ===== *)
theory SteimEncode
  imports Bytes
begin

text \<open>
  The Steim encoders of packdata.c. Both encoders share the loops over frames and words
  and the sliding buffer of differences; they differ in the size of that buffer and in
  how a word is packed, which is the parameter \<open>pack\<close> of the loops here.

  The output is an array of 32-bit host words, 16 per frame. Sample differences are
  32-bit words; the subtraction wraps.
\<close>

subsection \<open>Bit widths\<close>

text \<open>The macro BITWIDTH.\<close>

definition bitwidth_of :: "i32 \<Rightarrow> nat" where
  "bitwidth_of v =
     (if -8 \<le> sint v \<and> sint v \<le> 7 then 4
      else if -16 \<le> sint v \<and> sint v \<le> 15 then 5
      else if -32 \<le> sint v \<and> sint v \<le> 31 then 6
      else if -128 \<le> sint v \<and> sint v \<le> 127 then 8
      else if -512 \<le> sint v \<and> sint v \<le> 511 then 10
      else if -16384 \<le> sint v \<and> sint v \<le> 16383 then 15
      else if -32768 \<le> sint v \<and> sint v \<le> 32767 then 16
      else if -536870912 \<le> sint v \<and> sint v \<le> 536870911 then 30
      else 32)"

subsection \<open>The buffer of differences\<close>

record enc_state =
  inputidx :: nat
  diffs :: "i32 list"
  bitwidth :: "nat list"
  diffcount :: nat
  packedsamples :: nat
  outputsamples :: nat

text \<open>Buffers of \<open>n\<close> entries with \<open>diff0\<close> as their first difference.\<close>

definition enc_init :: "nat \<Rightarrow> i32 \<Rightarrow> enc_state" where
  "enc_init n diff0 =
     \<lparr>inputidx = 0, diffs = (replicate n 0)[0 := diff0],
      bitwidth = (replicate n 0)[0 := bitwidth_of diff0],
      diffcount = 1, packedsamples = 0, outputsamples = 0\<rparr>"

text \<open>The loop \<open>for (idx = 0; idx < count; idx++) a[idx] = a[packed + idx]\<close>.\<close>

function shift_buffer :: "nat \<Rightarrow> nat \<Rightarrow> nat \<Rightarrow> 'a list \<Rightarrow> 'a list" where
  "shift_buffer packed count idx a =
     (if idx < count then shift_buffer packed count (Suc idx) (a[idx := a ! (packed + idx)]) else a)"
  by pat_completeness auto
termination by (relation "measure (\<lambda>(p, c, i, a). c - i)") auto

text \<open>The loop that adds new differences while there is room and input.\<close>

function add_diffs :: "nat \<Rightarrow> i32 list \<Rightarrow> nat \<Rightarrow> nat \<Rightarrow> enc_state \<Rightarrow> enc_state" where
  "add_diffs n input samplecount idx st =
     (if idx < n \<and> inputidx st < samplecount - 1 then
        let d = input ! (inputidx st + 1) - input ! inputidx st in
        add_diffs n input samplecount (Suc idx)
          (st\<lparr>diffs := (diffs st)[idx := d], bitwidth := (bitwidth st)[idx := bitwidth_of d],
              diffcount := Suc (diffcount st), inputidx := Suc (inputidx st)\<rparr>)
      else st)"
  by pat_completeness auto
termination by (relation "measure (\<lambda>(n, i, s, idx, st). n - idx)") (auto simp: Let_def)

definition refill :: "nat \<Rightarrow> i32 list \<Rightarrow> nat \<Rightarrow> enc_state \<Rightarrow> enc_state" where
  "refill n input samplecount st =
     (if diffcount st < n then
        add_diffs n input samplecount (diffcount st)
          (st\<lparr>diffs := shift_buffer (packedsamples st) (diffcount st) 0 (diffs st),
              bitwidth := shift_buffer (packedsamples st) (diffcount st) 0 (bitwidth st)\<rparr>)
      else st)"

subsection \<open>The loops over words and frames\<close>

type_synonym packer = "i32 list \<Rightarrow> nat list \<Rightarrow> nat \<Rightarrow> u32 \<Rightarrow> (u32 \<times> u32 \<times> nat) result"

text \<open>
  A packer gets the buffered differences, their widths, how many there are and the word
  as it stands; it returns the packed word, the 2-bit nibble and the number of
  differences packed.
\<close>

function steim_words ::
  "nat \<Rightarrow> packer \<Rightarrow> i32 list \<Rightarrow> nat \<Rightarrow> nat \<Rightarrow> enc_state \<Rightarrow> u32 list \<Rightarrow> (enc_state \<times> u32 list) result" where
  "steim_words n pack input samplecount widx st frame =
     (if widx < 16 \<and> outputsamples st < samplecount then
        let st1 = refill n input samplecount st in
        (case pack (diffs st1) (bitwidth st1) (diffcount st1) (frame ! widx) of
           Inl e \<Rightarrow> Inl e
         | Inr (w, nibble, packed) \<Rightarrow>
             steim_words n pack input samplecount (Suc widx)
               (st1\<lparr>packedsamples := packed, diffcount := diffcount st1 - packed,
                    outputsamples := outputsamples st1 + packed\<rparr>)
               (frame[widx := w, 0 := frame ! 0 OR push_bit (30 - 2 * widx) nibble]))
      else Inr (st, frame))"
  by pat_completeness auto
termination by (relation "measure (\<lambda>(n, p, i, s, widx, st, f). 16 - widx)") auto

function steim_frames ::
  "nat \<Rightarrow> packer \<Rightarrow> bool \<Rightarrow> i32 list \<Rightarrow> nat \<Rightarrow> nat \<Rightarrow> nat \<Rightarrow> enc_state \<Rightarrow> u32 list
     \<Rightarrow> (nat \<times> enc_state \<times> u32 list) result" where
  "steim_frames n pack swapflag input samplecount maxframes frameidx st out =
     (if frameidx < maxframes \<and> outputsamples st < samplecount then
        let frame = replicate 16 0;
            frame = (if frameidx = 0 then frame[1 := swap4_if swapflag (input ! 0)] else frame);
            startnibble = (if frameidx = 0 then 3 else 1) in
        (case steim_words n pack input samplecount startnibble st frame of
           Inl e \<Rightarrow> Inl e
         | Inr (st', frame') \<Rightarrow>
             steim_frames n pack swapflag input samplecount maxframes (Suc frameidx) st'
               (out @ frame'[0 := swap4_if swapflag (frame' ! 0)]))
      else Inr (frameidx, st, out))"
  by pat_completeness auto
termination by (relation "measure (\<lambda>(n, p, sw, i, s, m, fi, st, out). m - fi)") auto

declare shift_buffer.simps [simp del] add_diffs.simps [simp del]
  steim_words.simps [simp del] steim_frames.simps [simp del]

text \<open>
  What an encoder leaves behind: the number of samples it returns, the output array and
  the value stored through \<open>byteswritten\<close>, if it is stored.
\<close>

record enc_result =
  er_samples :: nat
  er_output :: "u32 list"
  er_byteswritten :: "u32 option"

text \<open>
  The body shared by the two encoders after their input checks. The reverse integration
  constant goes to the third word of the first frame; with no frame its pointer is
  still NULL, and only the assignment is guarded, not the swap.
\<close>

definition steim_encode ::
  "nat \<Rightarrow> packer \<Rightarrow> i32 list \<Rightarrow> nat \<Rightarrow> u32 list \<Rightarrow> nat \<Rightarrow> i32 \<Rightarrow> bool \<Rightarrow> enc_result result" where
  "steim_encode n pack input samplecount output outputlength diff0 swapflag =
     (case steim_frames n pack swapflag input samplecount (outputlength div 64) 0 (enc_init n diff0) [] of
        Inl e \<Rightarrow> Inl e
      | Inr (frameidx, st, out) \<Rightarrow>
          if frameidx = 0 \<and> swapflag then Inl NullDeref
          else
            let out = (if frameidx = 0 then out
                       else out[2 := swap4_if swapflag (input ! (outputsamples st - 1))]) in
            Inr \<lparr>er_samples = outputsamples st, er_output = out @ drop (length out) output,
                 er_byteswritten = Some (of_nat (frameidx * 64))\<rparr>)"

subsection \<open>Steim1\<close>

definition steim1_pack :: "byteorder \<Rightarrow> bool \<Rightarrow> packer" where
  "steim1_pack h swapflag d bw dc word =
     (if dc = 4 \<and> bw ! 0 \<le> 8 \<and> bw ! 1 \<le> 8 \<and> bw ! 2 \<le> 8 \<and> bw ! 3 \<le> 8 then
        let word = put_d8 h 0 (ucast (d ! 0)) word;
            word = put_d8 h 1 (ucast (d ! 1)) word;
            word = put_d8 h 2 (ucast (d ! 2)) word;
            word = put_d8 h 3 (ucast (d ! 3)) word
        in Inr (word, 1, 4)
      else if 2 \<le> dc \<and> bw ! 0 \<le> 16 \<and> bw ! 1 \<le> 16 then
        let word = put_d16 h 0 (ucast (d ! 0)) word;
            word = put_d16 h 1 (ucast (d ! 1)) word;
            word = (if swapflag then put_d16 h 0 (ms_gswap2 (get_d16 h word 0)) word else word);
            word = (if swapflag then put_d16 h 1 (ms_gswap2 (get_d16 h word 1)) word else word)
        in Inr (word, 2, 2)
      else Inr (swap4_if swapflag (d ! 0), 3, 1))"

definition msr_encode_steim1 ::
  "byteorder \<Rightarrow> i32 list option \<Rightarrow> nat \<Rightarrow> u32 list option \<Rightarrow> nat \<Rightarrow> i32 \<Rightarrow> bool \<Rightarrow> enc_result result" where
  "msr_encode_steim1 h input samplecount output outputlength diff0 swapflag =
     (if samplecount = 0 then
        Inr \<lparr>er_samples = 0, er_output = (case output of None \<Rightarrow> [] | Some b \<Rightarrow> b), er_byteswritten = None\<rparr>
      else case (input, output) of
        (Some inp, Some outp) \<Rightarrow>
          if outputlength = 0 then Inl (ReturnError (-1))
          else steim_encode 4 (steim1_pack h swapflag) inp samplecount outp outputlength diff0 swapflag
      | _ \<Rightarrow> Inl (ReturnError (-1)))"

subsection \<open>Steim2\<close>

text \<open>\<open>field d m k\<close> is \<open>((uint32_t)d & m) << k\<close>.\<close>

definition field :: "i32 \<Rightarrow> u32 \<Rightarrow> nat \<Rightarrow> u32" where
  "field d m k = push_bit k (d AND m)"

definition steim2_word :: "byteorder \<Rightarrow> packer" where
  "steim2_word h d bw dc word =
     (if dc = 7 \<and> bw ! 0 \<le> 4 \<and> bw ! 1 \<le> 4 \<and> bw ! 2 \<le> 4 \<and> bw ! 3 \<le> 4 \<and>
         bw ! 4 \<le> 4 \<and> bw ! 5 \<le> 4 \<and> bw ! 6 \<le> 4 then
        Inr (field (d ! 6) 0xF 0 OR field (d ! 5) 0xF 4 OR field (d ! 4) 0xF 8 OR
             field (d ! 3) 0xF 12 OR field (d ! 2) 0xF 16 OR field (d ! 1) 0xF 20 OR
             field (d ! 0) 0xF 24 OR push_bit 30 2, 3, 7)
      else if 6 \<le> dc \<and> bw ! 0 \<le> 5 \<and> bw ! 1 \<le> 5 \<and> bw ! 2 \<le> 5 \<and> bw ! 3 \<le> 5 \<and>
         bw ! 4 \<le> 5 \<and> bw ! 5 \<le> 5 then
        Inr (field (d ! 5) 0x1F 0 OR field (d ! 4) 0x1F 5 OR field (d ! 3) 0x1F 10 OR
             field (d ! 2) 0x1F 15 OR field (d ! 1) 0x1F 20 OR field (d ! 0) 0x1F 25 OR
             push_bit 30 1, 3, 6)
      else if 5 \<le> dc \<and> bw ! 0 \<le> 6 \<and> bw ! 1 \<le> 6 \<and> bw ! 2 \<le> 6 \<and> bw ! 3 \<le> 6 \<and>
         bw ! 4 \<le> 6 then
        Inr (field (d ! 4) 0x3F 0 OR field (d ! 3) 0x3F 6 OR field (d ! 2) 0x3F 12 OR
             field (d ! 1) 0x3F 18 OR field (d ! 0) 0x3F 24, 3, 5)
      else if 4 \<le> dc \<and> bw ! 0 \<le> 8 \<and> bw ! 1 \<le> 8 \<and> bw ! 2 \<le> 8 \<and> bw ! 3 \<le> 8 then
        let word = put_d8 h 0 (ucast (d ! 0)) word;
            word = put_d8 h 1 (ucast (d ! 1)) word;
            word = put_d8 h 2 (ucast (d ! 2)) word;
            word = put_d8 h 3 (ucast (d ! 3)) word
        in Inr (word, 1, 4)
      else if 3 \<le> dc \<and> bw ! 0 \<le> 10 \<and> bw ! 1 \<le> 10 \<and> bw ! 2 \<le> 10 then
        Inr (field (d ! 2) 0x3FF 0 OR field (d ! 1) 0x3FF 10 OR field (d ! 0) 0x3FF 20 OR
             push_bit 30 3, 2, 3)
      else if 2 \<le> dc \<and> bw ! 0 \<le> 15 \<and> bw ! 1 \<le> 15 then
        Inr (field (d ! 1) 0x7FFF 0 OR field (d ! 0) 0x7FFF 15 OR push_bit 30 2, 2, 2)
      else if 1 \<le> dc \<and> bw ! 0 \<le> 30 then
        Inr (field (d ! 0) 0x3FFFFFFF 0 OR push_bit 30 1, 2, 1)
      else Inl (ReturnError (-1)))"

text \<open>The encoded word is swapped except for 4 x 8-bit samples.\<close>

definition steim2_pack :: "byteorder \<Rightarrow> bool \<Rightarrow> packer" where
  "steim2_pack h swapflag d bw dc word =
     (case steim2_word h d bw dc word of
        Inl e \<Rightarrow> Inl e
      | Inr (w, nibble, packed) \<Rightarrow>
          Inr (if swapflag \<and> packed \<noteq> 4 then ms_gswap4 w else w, nibble, packed))"

definition msr_encode_steim2 ::
  "byteorder \<Rightarrow> i32 list option \<Rightarrow> nat \<Rightarrow> u32 list option \<Rightarrow> nat \<Rightarrow> i32 \<Rightarrow> bool \<Rightarrow> enc_result result" where
  "msr_encode_steim2 h input samplecount output outputlength diff0 swapflag =
     (if samplecount = 0 then
        Inr \<lparr>er_samples = 0, er_output = (case output of None \<Rightarrow> [] | Some b \<Rightarrow> b), er_byteswritten = None\<rparr>
      else case (input, output) of
        (Some inp, Some outp) \<Rightarrow>
          if outputlength = 0 then Inl (ReturnError (-1))
          else steim_encode 7 (steim2_pack h swapflag) inp samplecount outp outputlength diff0 swapflag
      | _ \<Rightarrow> Inl (ReturnError (-1)))"

end
