(* ===== verification/SteimDecode.thy ===== *)
theory SteimDecode
  imports Bytes
begin

text \<open>
  The Steim decoders of unpackdata.c. The two share the loop over frames, the
  integration of the differences and the integrity check; they differ in how a 32-bit
  word and its nibble give differences, the parameter \<open>word_diffs\<close> of the loops here.
\<close>

definition EXTRACTBITRANGE :: "u32 \<Rightarrow> nat \<Rightarrow> nat \<Rightarrow> u32" where
  "EXTRACTBITRANGE v startbit len = drop_bit startbit v AND (push_bit len 1 - 1)"

text \<open>The 2-bit nibble of word \<open>widx\<close>.\<close>

definition nibble :: "u32 \<Rightarrow> nat \<Rightarrow> u32" where
  "nibble w0 widx = EXTRACTBITRANGE w0 (30 - 2 * widx) 2"

type_synonym word_decoder = "u32 \<Rightarrow> u32 \<Rightarrow> i32 list result"

text \<open>The differences of the words from \<open>widx\<close> to the end of a frame.\<close>

function frame_diffs :: "word_decoder \<Rightarrow> u32 list \<Rightarrow> nat \<Rightarrow> i32 list result" where
  "frame_diffs word_diffs frame widx =
     (if widx < 16 then
        case word_diffs (nibble (frame ! 0) widx) (frame ! widx) of
          Inl e \<Rightarrow> Inl e
        | Inr ds \<Rightarrow>
            (case frame_diffs word_diffs frame (Suc widx) of
               Inl e \<Rightarrow> Inl e
             | Inr ds' \<Rightarrow> Inr (ds @ ds'))
      else Inr [])"
  by pat_completeness auto
termination by (relation "measure (\<lambda>(d, f, widx). 16 - widx)") auto

text \<open>Integration: each difference gives one more sample while samples are wanted.\<close>

fun apply_diffs :: "nat \<Rightarrow> i32 list \<Rightarrow> i32 list \<Rightarrow> i32 list" where
  "apply_diffs samplecount [] output = output"
| "apply_diffs samplecount (d # ds) output =
     (if length output < samplecount
      then apply_diffs samplecount ds (output @ [last output + d]) else output)"

text \<open>
  The loop over frames; \<open>output\<close> holds the samples decoded so far (its length is the
  code's \<open>outputidx\<close>) and \<open>Xn\<close> the reverse integration constant.
\<close>

function decode_frames ::
  "word_decoder \<Rightarrow> bool \<Rightarrow> u32 list \<Rightarrow> nat \<Rightarrow> nat \<Rightarrow> nat \<Rightarrow> i32 list \<Rightarrow> i32 \<Rightarrow> (i32 list \<times> i32) result" where
  "decode_frames word_diffs swapflag input maxframes samplecount frameidx output Xn =
     (if frameidx < maxframes \<and> length output < samplecount then
        let frame = take 16 (drop (16 * frameidx) input);
            frame = (if frameidx = 0 then frame[1 := swap4_if swapflag (frame ! 1),
                                                2 := swap4_if swapflag (frame ! 2)] else frame);
            output = (if frameidx = 0 then [frame ! 1] else output);
            Xn = (if frameidx = 0 then frame ! 2 else Xn);
            startnibble = (if frameidx = 0 then 3 else 1);
            frame = frame[0 := swap4_if swapflag (frame ! 0)] in
        (case frame_diffs word_diffs frame startnibble of
           Inl e \<Rightarrow> Inl e
         | Inr diff \<Rightarrow>
             decode_frames word_diffs swapflag input maxframes samplecount (Suc frameidx)
               (apply_diffs samplecount (if frameidx = 0 then drop 1 diff else diff) output) Xn)
      else Inr (output, Xn))"
  by pat_completeness auto
termination by (relation "measure (\<lambda>(d, s, i, m, n, fi, out, x). m - fi)") auto

declare frame_diffs.simps [simp del] decode_frames.simps [simp del]

text \<open>
  What a decoder leaves behind: the samples (their number is the value returned) and
  whether the warning of a failed integrity check was logged.
\<close>

record dec_result =
  dr_output :: "i32 list"
  dr_warned :: bool

text \<open>
  The body shared by the decoders. The size of the wanted output is computed in 64 bits.
  The integrity check looks at the sample before \<open>outputidx\<close>, which for a
  \<open>samplecount\<close> of 0 is the one before the start of the buffer.
\<close>

definition steim_decode ::
  "word_decoder \<Rightarrow> u32 list option \<Rightarrow> nat \<Rightarrow> nat \<Rightarrow> bool \<Rightarrow> nat \<Rightarrow> bool \<Rightarrow> dec_result result" where
  "steim_decode word_diffs input inputlength samplecount output_given outputlength swapflag =
     (let maxframes = inputlength div 64 in
      if maxframes = 0 then Inr \<lparr>dr_output = [], dr_warned = False\<rparr>
      else case input of
        None \<Rightarrow> Inl (ReturnError (-1))
      | Some inp \<Rightarrow>
          if \<not> output_given \<or> outputlength = 0 then Inl (ReturnError (-1))
          else if outputlength < samplecount * 4 mod 2 ^ 64 then Inl (ReturnError (-1))
          else (case decode_frames word_diffs swapflag inp maxframes samplecount 0 [] 0 of
            Inl e \<Rightarrow> Inl e
          | Inr (output, Xn) \<Rightarrow>
              if length output = samplecount then
                if samplecount = 0 then Inl OutOfBounds
                else Inr \<lparr>dr_output = output, dr_warned = (last output \<noteq> Xn)\<rparr>
              else Inr \<lparr>dr_output = output, dr_warned = False\<rparr>))"

subsection \<open>Steim1\<close>

definition steim1_word_diffs :: "byteorder \<Rightarrow> bool \<Rightarrow> word_decoder" where
  "steim1_word_diffs h swapflag nib word =
     (if nib = 0 then Inr []
      else if nib = 1 then
        Inr [scast (get_d8 h word 0), scast (get_d8 h word 1), scast (get_d8 h word 2), scast (get_d8 h word 3)]
      else if nib = 2 then
        Inr [scast (swap2_if swapflag (get_d16 h word 0)), scast (swap2_if swapflag (get_d16 h word 1))]
      else Inr [swap4_if swapflag word])"

definition msr_decode_steim1 ::
  "byteorder \<Rightarrow> u32 list option \<Rightarrow> nat \<Rightarrow> nat \<Rightarrow> bool \<Rightarrow> nat \<Rightarrow> bool \<Rightarrow> dec_result result" where
  "msr_decode_steim1 h input inputlength samplecount output_given outputlength swapflag =
     steim_decode (steim1_word_diffs h swapflag) input inputlength samplecount output_given outputlength swapflag"

subsection \<open>Steim2\<close>

text \<open>
  The bit-field assignments \<open>s4.x = v\<close> and so on keep the low bits of the value and
  read them back as a signed number.
\<close>

definition sfield :: "nat \<Rightarrow> u32 \<Rightarrow> i32" where
  "sfield bits v = signed_take_bit (bits - 1) v"

definition steim2_word_diffs :: "byteorder \<Rightarrow> bool \<Rightarrow> word_decoder" where
  "steim2_word_diffs h swapflag nib word =
     (if nib = 0 then Inr []
      else if nib = 1 then
        Inr [scast (get_d8 h word 0), scast (get_d8 h word 1), scast (get_d8 h word 2), scast (get_d8 h word 3)]
      else
        let word = swap4_if swapflag word;
            dnib = EXTRACTBITRANGE word 30 2 in
        if nib = 2 then
          if dnib = 0 then Inl (ReturnError (-1))
          else if dnib = 1 then Inr [sfield 30 (EXTRACTBITRANGE word 0 30)]
          else if dnib = 2 then Inr (map (\<lambda>idx. sfield 15 (EXTRACTBITRANGE word (15 - idx * 15) 15)) [0..<2])
          else Inr (map (\<lambda>idx. sfield 10 (EXTRACTBITRANGE word (20 - idx * 10) 10)) [0..<3])
        else
          if dnib = 0 then Inr (map (\<lambda>idx. sfield 6 (EXTRACTBITRANGE word (24 - idx * 6) 6)) [0..<5])
          else if dnib = 1 then Inr (map (\<lambda>idx. sfield 5 (EXTRACTBITRANGE word (25 - idx * 5) 5)) [0..<6])
          else if dnib = 2 then Inr (map (\<lambda>idx. sfield 4 (EXTRACTBITRANGE word (24 - idx * 4) 4)) [0..<7])
          else Inl (ReturnError (-1)))"

definition msr_decode_steim2 ::
  "byteorder \<Rightarrow> u32 list option \<Rightarrow> nat \<Rightarrow> nat \<Rightarrow> bool \<Rightarrow> nat \<Rightarrow> bool \<Rightarrow> dec_result result" where
  "msr_decode_steim2 h input inputlength samplecount output_given outputlength swapflag =
     steim_decode (steim2_word_diffs h swapflag) input inputlength samplecount output_given outputlength swapflag"

end
