(* ===== verification/SteimPack.thy ===== *)
theory SteimPack
  imports SteimEncode SteimDecode
begin

text \<open>
  Packing and unpacking of a single 32-bit word: what a decoder reads from the word and
  nibble an encoder wrote are the differences the encoder took from its buffer.
\<close>

subsection \<open>Bit ranges\<close>

lemma bitwidth_fits:
  "bitwidth_of d \<le> 4 \<Longrightarrow> fits 3 d" "bitwidth_of d \<le> 5 \<Longrightarrow> fits 4 d"
  "bitwidth_of d \<le> 6 \<Longrightarrow> fits 5 d" "bitwidth_of d \<le> 8 \<Longrightarrow> fits 7 d"
  "bitwidth_of d \<le> 10 \<Longrightarrow> fits 9 d" "bitwidth_of d \<le> 15 \<Longrightarrow> fits 14 d"
  "bitwidth_of d \<le> 16 \<Longrightarrow> fits 15 d" "bitwidth_of d \<le> 30 \<Longrightarrow> fits 29 d"
  by (rule fits_of_range; auto simp: bitwidth_of_def split: if_splits)+

lemma extract_bit:
  assumes "len < 32"
  shows "bit (EXTRACTBITRANGE v s len) n \<longleftrightarrow> n < len \<and> bit v (s + n)"
proof -
  have "push_bit len 1 - (1 :: u32) = mask len" by (simp add: mask_eq_exp_minus_1 push_bit_eq_mult)
  then show ?thesis
    using assms by (auto simp: EXTRACTBITRANGE_def bit_and_iff bit_mask_iff bit_drop_bit_eq)
qed

text \<open>Reading a signed field back.\<close>

lemma sfield_extract:
  assumes "fits m d" "m < 31" "\<And>j. j \<le> m \<Longrightarrow> bit w (s + j) = bit d j"
  shows "sfield (Suc m) (EXTRACTBITRANGE w s (Suc m)) = d"
proof (rule bit_word_eqI)
  fix n assume "n < LENGTH(32)"
  then have n: "n < 32" by simp
  have "min m n < Suc m" by simp
  then have "bit (sfield (Suc m) (EXTRACTBITRANGE w s (Suc m))) n = bit w (s + min m n)"
    using assms(2) n by (simp add: sfield_def bit_signed_take_bit_iff extract_bit)
  also have "\<dots> = bit d (min m n)" by (rule assms(3)) simp
  also have "\<dots> = bit d n" by (rule fitsD [OF assms(1) n])
  finally show "bit (sfield (Suc m) (EXTRACTBITRANGE w s (Suc m))) n = bit d n" .
qed

lemma extract_eqI:
  assumes "len < 32" "\<And>j. j < len \<Longrightarrow> bit w (s + j) = bit v j" "\<And>j. len \<le> j \<Longrightarrow> \<not> bit v j"
  shows "EXTRACTBITRANGE w s len = v"
proof (rule bit_word_eqI)
  fix n :: nat assume "n < LENGTH(32)"
  show "bit (EXTRACTBITRANGE w s len) n = bit v n"
    using assms(2,3) [of n] by (cases "n < len") (simp_all add: extract_bit [OF assms(1)])
qed

lemma field_bit:
  "bit (field d m k) n \<longleftrightarrow> k \<le> n \<and> n < 32 \<and> bit d (n - k) \<and> bit m (n - k)"
  by (auto simp: field_def bit_push_bit_iff bit_and_iff)

lemma bit_masks [word_fields]:
  "bit (0xF :: u32) n \<longleftrightarrow> n < 4" "bit (0x1F :: u32) n \<longleftrightarrow> n < 5" "bit (0x3F :: u32) n \<longleftrightarrow> n < 6"
  "bit (0x3FF :: u32) n \<longleftrightarrow> n < 10" "bit (0x7FFF :: u32) n \<longleftrightarrow> n < 15"
  "bit (0x3FFFFFFF :: u32) n \<longleftrightarrow> n < 30"
proof -
  have c: "bit (c :: u32) n \<longleftrightarrow> n < m" if "c = mask m" "m \<le> 32" for c m
    using that by (auto simp: bit_mask_iff)
  show "bit (0xF :: u32) n \<longleftrightarrow> n < 4" by (rule c) (simp_all add: mask_eq_exp_minus_1)
  show "bit (0x1F :: u32) n \<longleftrightarrow> n < 5" by (rule c) (simp_all add: mask_eq_exp_minus_1)
  show "bit (0x3F :: u32) n \<longleftrightarrow> n < 6" by (rule c) (simp_all add: mask_eq_exp_minus_1)
  show "bit (0x3FF :: u32) n \<longleftrightarrow> n < 10" by (rule c) (simp_all add: mask_eq_exp_minus_1)
  show "bit (0x7FFF :: u32) n \<longleftrightarrow> n < 15" by (rule c) (simp_all add: mask_eq_exp_minus_1)
  show "bit (0x3FFFFFFF :: u32) n \<longleftrightarrow> n < 30" by (rule c) (simp_all add: mask_eq_exp_minus_1)
qed

lemma bit_small_words [word_fields]:
  "bit (1 :: u32) n \<longleftrightarrow> n = 0" "bit (2 :: u32) n \<longleftrightarrow> n = 1" "bit (3 :: u32) n \<longleftrightarrow> n < 2"
proof -
  show "bit (1 :: u32) n \<longleftrightarrow> n = 0" by (simp add: bit_1_iff)
  have "(2 :: u32) = push_bit 1 (mask 1)" "(3 :: u32) = mask 2" by (simp_all add: mask_eq_exp_minus_1)
  then show "bit (2 :: u32) n \<longleftrightarrow> n = 1" "bit (3 :: u32) n \<longleftrightarrow> n < 2"
    by (simp_all only: bit_push_bit_iff bit_mask_iff possible_bit_word) auto
qed

lemma bit_tags [word_fields]:
  "bit (0x80000000 :: u32) n \<longleftrightarrow> n = 31" "bit (0x40000000 :: u32) n \<longleftrightarrow> n = 30"
  "bit (0xC0000000 :: u32) n \<longleftrightarrow> 30 \<le> n \<and> n < 32"
proof -
  have "(0x80000000 :: u32) = push_bit 31 (mask 1)" "(0x40000000 :: u32) = push_bit 30 (mask 1)"
    "(0xC0000000 :: u32) = push_bit 30 (mask 2)"
    by (simp_all add: mask_eq_exp_minus_1)
  then show "bit (0x80000000 :: u32) n \<longleftrightarrow> n = 31" "bit (0x40000000 :: u32) n \<longleftrightarrow> n = 30"
    "bit (0xC0000000 :: u32) n \<longleftrightarrow> 30 \<le> n \<and> n < 32"
    by (simp_all only: bit_push_bit_iff bit_mask_iff possible_bit_word) auto
qed

lemmas packed_bits = bit_or_iff bit_push_bit_iff field_bit word_fields

subsection \<open>One packed word\<close>

lemma take_as_list:
  "1 \<le> length d \<Longrightarrow> take 1 d = [d ! 0]"
  "2 \<le> length d \<Longrightarrow> take 2 d = [d ! 0, d ! 1]"
  "3 \<le> length d \<Longrightarrow> take 3 d = [d ! 0, d ! 1, d ! 2]"
  "4 \<le> length d \<Longrightarrow> take 4 d = [d ! 0, d ! 1, d ! 2, d ! 3]"
  "5 \<le> length d \<Longrightarrow> take 5 d = [d ! 0, d ! 1, d ! 2, d ! 3, d ! 4]"
  "6 \<le> length d \<Longrightarrow> take 6 d = [d ! 0, d ! 1, d ! 2, d ! 3, d ! 4, d ! 5]"
  "7 \<le> length d \<Longrightarrow> take 7 d = [d ! 0, d ! 1, d ! 2, d ! 3, d ! 4, d ! 5, d ! 6]"
  by (simp_all flip: take_upt_map add: upt_rec numeral_eq_Suc)

text \<open>The buffer handed to a packer: differences with their widths.\<close>

definition buffered :: "i32 list \<Rightarrow> nat list \<Rightarrow> nat \<Rightarrow> bool" where
  "buffered d bw dc \<longleftrightarrow> 0 < dc \<and> dc \<le> length d \<and> (\<forall>i < dc. bw ! i = bitwidth_of (d ! i))"

lemma buffered_fits:
  assumes "buffered d bw dc" "i < dc"
  shows "bw ! i \<le> 4 \<Longrightarrow> fits 3 (d ! i)" "bw ! i \<le> 5 \<Longrightarrow> fits 4 (d ! i)"
    "bw ! i \<le> 6 \<Longrightarrow> fits 5 (d ! i)" "bw ! i \<le> 8 \<Longrightarrow> fits 7 (d ! i)"
    "bw ! i \<le> 10 \<Longrightarrow> fits 9 (d ! i)" "bw ! i \<le> 15 \<Longrightarrow> fits 14 (d ! i)"
    "bw ! i \<le> 16 \<Longrightarrow> fits 15 (d ! i)" "bw ! i \<le> 30 \<Longrightarrow> fits 29 (d ! i)"
  using assms by (auto simp: buffered_def intro: bitwidth_fits)

text \<open>Four bytes written through the union, read back with sign extension.\<close>

definition put4_d8 :: "byteorder \<Rightarrow> i32 list \<Rightarrow> u32 \<Rightarrow> u32" where
  "put4_d8 h d w =
     put_d8 h 3 (ucast (d ! 3)) (put_d8 h 2 (ucast (d ! 2)) (put_d8 h 1 (ucast (d ! 1)) (put_d8 h 0 (ucast (d ! 0)) w)))"

lemma put4_d8_read:
  assumes "buffered d bw dc" "4 \<le> dc" "bw ! 0 \<le> 8" "bw ! 1 \<le> 8" "bw ! 2 \<le> 8" "bw ! 3 \<le> 8"
  shows "[scast (get_d8 h (put4_d8 h d w) 0), scast (get_d8 h (put4_d8 h d w) 1),
          scast (get_d8 h (put4_d8 h d w) 2), scast (get_d8 h (put4_d8 h d w) 3)] = take 4 d"
proof -
  have "fits 7 (d ! 0)" "fits 7 (d ! 1)" "fits 7 (d ! 2)" "fits 7 (d ! 3)"
    using assms buffered_fits(4) [OF assms(1)] by simp_all
  moreover have "4 \<le> length d" using assms by (simp add: buffered_def)
  ultimately show ?thesis
    by (simp add: put4_d8_def get_put_d8 take_as_list scast_u8_fits)
qed

theorem steim1_pack_law:
  assumes buf: "buffered d bw dc"
    and pk: "steim1_pack h sw d bw dc w0 = Inr (w, nib, p)"
  shows "0 < p \<and> p \<le> dc \<and> nib \<in> {1, 2, 3} \<and> steim1_word_diffs h sw nib w = Inr (take p d)"
proof -
  have len: "0 < dc" "dc \<le> length d" using buf by (auto simp: buffered_def)
  consider (b8) "dc = 4 \<and> bw ! 0 \<le> 8 \<and> bw ! 1 \<le> 8 \<and> bw ! 2 \<le> 8 \<and> bw ! 3 \<le> 8"
    | (b16) "\<not> (dc = 4 \<and> bw ! 0 \<le> 8 \<and> bw ! 1 \<le> 8 \<and> bw ! 2 \<le> 8 \<and> bw ! 3 \<le> 8)"
        "2 \<le> dc \<and> bw ! 0 \<le> 16 \<and> bw ! 1 \<le> 16"
    | (b32) "\<not> (dc = 4 \<and> bw ! 0 \<le> 8 \<and> bw ! 1 \<le> 8 \<and> bw ! 2 \<le> 8 \<and> bw ! 3 \<le> 8)"
        "\<not> (2 \<le> dc \<and> bw ! 0 \<le> 16 \<and> bw ! 1 \<le> 16)" by blast
  then show ?thesis
  proof cases
    case b8
    then have "w = put4_d8 h d w0" "nib = 1" "p = 4"
      using pk by (auto simp: steim1_pack_def put4_d8_def)
    then show ?thesis
      using put4_d8_read [OF buf, of h w0] b8 by (simp add: steim1_word_diffs_def)
  next
    case b16
    have f: "fits 15 (d ! 0)" "fits 15 (d ! 1)"
      using b16 buffered_fits(7) [OF buf] by simp_all
    have wnp: "nib = 2" "p = 2"
      "w = (let word = put_d16 h 1 (ucast (d ! 1)) (put_d16 h 0 (ucast (d ! 0)) w0);
                word = (if sw then put_d16 h 0 (ms_gswap2 (get_d16 h word 0)) word else word)
            in if sw then put_d16 h 1 (ms_gswap2 (get_d16 h word 1)) word else word)"
      using pk b16 by (auto simp: steim1_pack_def Let_def split: if_splits)
    have "swap2_if sw (get_d16 h w 0) = ucast (d ! 0)" "swap2_if sw (get_d16 h w 1) = ucast (d ! 1)"
      by (simp_all add: wnp Let_def get_put_d16 swap2_if_def)
    then show ?thesis
      using wnp(1,2) b16 len f by (simp add: steim1_word_diffs_def take_as_list scast_u16_fits)
  next
    case b32
    then have "w = swap4_if sw (d ! 0)" "nib = 3" "p = 1"
      using pk by (auto simp: steim1_pack_def split: if_splits)
    then show ?thesis
      using len by (cases d) (simp_all add: steim1_word_diffs_def)
  qed
qed

lemma steim1_pack_total: "\<exists>w nib p. steim1_pack h sw d bw dc w0 = Inr (w, nib, p)"
  by (simp add: steim1_pack_def Let_def)

text \<open>The Steim2 layouts, one lemma each: the tag and the fields.\<close>

lemma word_7x4:
  assumes "w = field d6 0xF 0 OR field d5 0xF 4 OR field d4 0xF 8 OR field d3 0xF 12 OR field d2 0xF 16 OR field d1 0xF 20 OR field d0 0xF 24 OR push_bit 30 2"
    and "fits 3 d0" "fits 3 d1" "fits 3 d2" "fits 3 d3" "fits 3 d4" "fits 3 d5" "fits 3 d6"
  shows "EXTRACTBITRANGE w 30 2 = 2"
    and "map (\<lambda>idx. sfield 4 (EXTRACTBITRANGE w (24 - idx * 4) 4)) [0..<7] = [d0, d1, d2, d3, d4, d5, d6]"
proof -
  have r: "sfield 4 (EXTRACTBITRANGE w s 4) = d"
    if "fits 3 d" "\<And>j. j \<le> 3 \<Longrightarrow> bit w (s + j) = bit d j" for s d
    using sfield_extract [of 3 d w s] that by simp
  show "EXTRACTBITRANGE w 30 2 = 2"
    by (rule extract_eqI) (auto simp: assms(1) packed_bits)
  show "map (\<lambda>idx. sfield 4 (EXTRACTBITRANGE w (24 - idx * 4) 4)) [0..<7] = [d0, d1, d2, d3, d4, d5, d6]"
    by (simp add: upt_rec, intro conjI; rule r; simp add: assms packed_bits)
qed

lemma word_6x5:
  assumes "w = field d5 0x1F 0 OR field d4 0x1F 5 OR field d3 0x1F 10 OR field d2 0x1F 15 OR field d1 0x1F 20 OR field d0 0x1F 25 OR push_bit 30 1"
    and "fits 4 d0" "fits 4 d1" "fits 4 d2" "fits 4 d3" "fits 4 d4" "fits 4 d5"
  shows "EXTRACTBITRANGE w 30 2 = 1"
    and "map (\<lambda>idx. sfield 5 (EXTRACTBITRANGE w (25 - idx * 5) 5)) [0..<6] = [d0, d1, d2, d3, d4, d5]"
proof -
  have r: "sfield 5 (EXTRACTBITRANGE w s 5) = d"
    if "fits 4 d" "\<And>j. j \<le> 4 \<Longrightarrow> bit w (s + j) = bit d j" for s d
    using sfield_extract [of 4 d w s] that by simp
  show "EXTRACTBITRANGE w 30 2 = 1"
    by (rule extract_eqI) (auto simp: assms(1) packed_bits)
  show "map (\<lambda>idx. sfield 5 (EXTRACTBITRANGE w (25 - idx * 5) 5)) [0..<6] = [d0, d1, d2, d3, d4, d5]"
    by (simp add: upt_rec, intro conjI; rule r; simp add: assms packed_bits)
qed

lemma word_5x6:
  assumes "w = field d4 0x3F 0 OR field d3 0x3F 6 OR field d2 0x3F 12 OR field d1 0x3F 18 OR field d0 0x3F 24"
    and "fits 5 d0" "fits 5 d1" "fits 5 d2" "fits 5 d3" "fits 5 d4"
  shows "EXTRACTBITRANGE w 30 2 = 0"
    and "map (\<lambda>idx. sfield 6 (EXTRACTBITRANGE w (24 - idx * 6) 6)) [0..<5] = [d0, d1, d2, d3, d4]"
proof -
  have r: "sfield 6 (EXTRACTBITRANGE w s 6) = d"
    if "fits 5 d" "\<And>j. j \<le> 5 \<Longrightarrow> bit w (s + j) = bit d j" for s d
    using sfield_extract [of 5 d w s] that by simp
  show "EXTRACTBITRANGE w 30 2 = 0"
    by (rule extract_eqI) (auto simp: assms(1) packed_bits)
  show "map (\<lambda>idx. sfield 6 (EXTRACTBITRANGE w (24 - idx * 6) 6)) [0..<5] = [d0, d1, d2, d3, d4]"
    by (simp add: upt_rec, intro conjI; rule r; simp add: assms packed_bits)
qed

lemma word_3x10:
  assumes "w = field d2 0x3FF 0 OR field d1 0x3FF 10 OR field d0 0x3FF 20 OR push_bit 30 3"
    and "fits 9 d0" "fits 9 d1" "fits 9 d2"
  shows "EXTRACTBITRANGE w 30 2 = 3"
    and "map (\<lambda>idx. sfield 10 (EXTRACTBITRANGE w (20 - idx * 10) 10)) [0..<3] = [d0, d1, d2]"
proof -
  have r: "sfield 10 (EXTRACTBITRANGE w s 10) = d"
    if "fits 9 d" "\<And>j. j \<le> 9 \<Longrightarrow> bit w (s + j) = bit d j" for s d
    using sfield_extract [of 9 d w s] that by simp
  show "EXTRACTBITRANGE w 30 2 = 3"
    by (rule extract_eqI) (auto simp: assms(1) packed_bits)
  show "map (\<lambda>idx. sfield 10 (EXTRACTBITRANGE w (20 - idx * 10) 10)) [0..<3] = [d0, d1, d2]"
    by (simp add: upt_rec, intro conjI; rule r; simp add: assms packed_bits)
qed

lemma word_2x15:
  assumes "w = field d1 0x7FFF 0 OR field d0 0x7FFF 15 OR push_bit 30 2"
    and "fits 14 d0" "fits 14 d1"
  shows "EXTRACTBITRANGE w 30 2 = 2"
    and "map (\<lambda>idx. sfield 15 (EXTRACTBITRANGE w (15 - idx * 15) 15)) [0..<2] = [d0, d1]"
proof -
  have r: "sfield 15 (EXTRACTBITRANGE w s 15) = d"
    if "fits 14 d" "\<And>j. j \<le> 14 \<Longrightarrow> bit w (s + j) = bit d j" for s d
    using sfield_extract [of 14 d w s] that by simp
  show "EXTRACTBITRANGE w 30 2 = 2"
    by (rule extract_eqI) (auto simp: assms(1) packed_bits)
  show "map (\<lambda>idx. sfield 15 (EXTRACTBITRANGE w (15 - idx * 15) 15)) [0..<2] = [d0, d1]"
    by (simp add: upt_rec, intro conjI; rule r; simp add: assms packed_bits)
qed

lemma word_1x30:
  assumes "w = field d0 0x3FFFFFFF 0 OR push_bit 30 1"
    and "fits 29 d0"
  shows "EXTRACTBITRANGE w 30 2 = 1"
    and "sfield 30 (EXTRACTBITRANGE w 0 30) = d0"
proof -
  have r: "sfield 30 (EXTRACTBITRANGE w s 30) = d"
    if "fits 29 d" "\<And>j. j \<le> 29 \<Longrightarrow> bit w (s + j) = bit d j" for s d
    using sfield_extract [of 29 d w s] that by simp
  show "EXTRACTBITRANGE w 30 2 = 1"
    by (rule extract_eqI) (auto simp: assms(1) packed_bits)
  show "sfield 30 (EXTRACTBITRANGE w 0 30) = d0"
    by (rule r; simp add: assms packed_bits)
qed

lemma steim2_word_law:
  assumes buf: "buffered d bw dc"
    and wd: "steim2_word h d bw dc w0 = Inr (w, nib, p)"
  shows "0 < p \<and> p \<le> dc \<and> nib \<in> {1, 2, 3} \<and> (p = 4 \<longleftrightarrow> nib = 1) \<and>
         steim2_word_diffs h False nib w = Inr (take p d)"
proof -
  have len: "dc \<le> length d" "0 < dc" using buf by (auto simp: buffered_def)
  note f = buffered_fits [OF buf]
  consider (c7) "dc = 7 \<and> bw ! 0 \<le> 4 \<and> bw ! 1 \<le> 4 \<and> bw ! 2 \<le> 4 \<and> bw ! 3 \<le> 4 \<and> bw ! 4 \<le> 4 \<and> bw ! 5 \<le> 4 \<and> bw ! 6 \<le> 4"
      "nib = 3" "p = 7"
      "w = field (d ! 6) 0xF 0 OR field (d ! 5) 0xF 4 OR field (d ! 4) 0xF 8 OR field (d ! 3) 0xF 12 OR
           field (d ! 2) 0xF 16 OR field (d ! 1) 0xF 20 OR field (d ! 0) 0xF 24 OR push_bit 30 2"
    | (c6) "6 \<le> dc \<and> bw ! 0 \<le> 5 \<and> bw ! 1 \<le> 5 \<and> bw ! 2 \<le> 5 \<and> bw ! 3 \<le> 5 \<and> bw ! 4 \<le> 5 \<and> bw ! 5 \<le> 5"
      "nib = 3" "p = 6"
      "w = field (d ! 5) 0x1F 0 OR field (d ! 4) 0x1F 5 OR field (d ! 3) 0x1F 10 OR field (d ! 2) 0x1F 15 OR
           field (d ! 1) 0x1F 20 OR field (d ! 0) 0x1F 25 OR push_bit 30 1"
    | (c5) "5 \<le> dc \<and> bw ! 0 \<le> 6 \<and> bw ! 1 \<le> 6 \<and> bw ! 2 \<le> 6 \<and> bw ! 3 \<le> 6 \<and> bw ! 4 \<le> 6"
      "nib = 3" "p = 5"
      "w = field (d ! 4) 0x3F 0 OR field (d ! 3) 0x3F 6 OR field (d ! 2) 0x3F 12 OR field (d ! 1) 0x3F 18 OR
           field (d ! 0) 0x3F 24"
    | (c4) "4 \<le> dc \<and> bw ! 0 \<le> 8 \<and> bw ! 1 \<le> 8 \<and> bw ! 2 \<le> 8 \<and> bw ! 3 \<le> 8"
      "nib = 1" "p = 4" "w = put4_d8 h d w0"
    | (c3) "3 \<le> dc \<and> bw ! 0 \<le> 10 \<and> bw ! 1 \<le> 10 \<and> bw ! 2 \<le> 10" "nib = 2" "p = 3"
      "w = field (d ! 2) 0x3FF 0 OR field (d ! 1) 0x3FF 10 OR field (d ! 0) 0x3FF 20 OR push_bit 30 3"
    | (c2) "2 \<le> dc \<and> bw ! 0 \<le> 15 \<and> bw ! 1 \<le> 15" "nib = 2" "p = 2"
      "w = field (d ! 1) 0x7FFF 0 OR field (d ! 0) 0x7FFF 15 OR push_bit 30 2"
    | (c1) "1 \<le> dc \<and> bw ! 0 \<le> 30" "nib = 2" "p = 1"
      "w = field (d ! 0) 0x3FFFFFFF 0 OR push_bit 30 1"
    using wd unfolding steim2_word_def put4_d8_def Let_def
    by (simp del: push_bit_numeral split: if_splits)
  then show ?thesis
  proof cases
    case c7
    then have "fits 3 (d ! 0)" "fits 3 (d ! 1)" "fits 3 (d ! 2)" "fits 3 (d ! 3)" "fits 3 (d ! 4)" "fits 3 (d ! 5)" "fits 3 (d ! 6)"
      by (simp_all add: f)
    from word_7x4 [OF c7(4) this] c7 len show ?thesis
      by (simp add: steim2_word_diffs_def swap4_if_def Let_def take_as_list)
  next
    case c6
    then have "fits 4 (d ! 0)" "fits 4 (d ! 1)" "fits 4 (d ! 2)" "fits 4 (d ! 3)" "fits 4 (d ! 4)" "fits 4 (d ! 5)"
      by (simp_all add: f)
    from word_6x5 [OF c6(4) this] c6 len show ?thesis
      by (simp add: steim2_word_diffs_def swap4_if_def Let_def take_as_list)
  next
    case c5
    then have "fits 5 (d ! 0)" "fits 5 (d ! 1)" "fits 5 (d ! 2)" "fits 5 (d ! 3)" "fits 5 (d ! 4)"
      by (simp_all add: f)
    from word_5x6 [OF c5(4) this] c5 len show ?thesis
      by (simp add: steim2_word_diffs_def swap4_if_def Let_def take_as_list)
  next
    case c4
    with put4_d8_read [OF buf, of h w0] show ?thesis
      by (simp add: steim2_word_diffs_def)
  next
    case c3
    then have "fits 9 (d ! 0)" "fits 9 (d ! 1)" "fits 9 (d ! 2)"
      by (simp_all add: f)
    from word_3x10 [OF c3(4) this] c3 len show ?thesis
      by (simp add: steim2_word_diffs_def swap4_if_def Let_def take_as_list)
  next
    case c2
    then have "fits 14 (d ! 0)" "fits 14 (d ! 1)"
      by (simp_all add: f)
    from word_2x15 [OF c2(4) this] c2 len show ?thesis
      by (simp add: steim2_word_diffs_def swap4_if_def Let_def take_as_list)
  next
    case c1
    then have "fits 29 (d ! 0)"
      by (simp add: f)
    from word_1x30 [OF c1(4) this] c1 len show ?thesis
      by (cases d) (simp_all add: steim2_word_diffs_def swap4_if_def Let_def)
  qed
qed

text \<open>Swapping the word on the way out is undone by the swap on the way in.\<close>

lemma steim2_word_diffs_swap:
  "steim2_word_diffs h True nib w = (if nib = 1 then steim2_word_diffs h False nib w
     else steim2_word_diffs h False nib (ms_gswap4 w))"
  by (simp add: steim2_word_diffs_def swap4_if_def)

lemma steim2_pack_law:
  assumes buf: "buffered d bw dc"
    and pk: "steim2_pack h sw d bw dc w0 = Inr (w, nib, p)"
  shows "0 < p \<and> p \<le> dc \<and> nib \<in> {1, 2, 3} \<and> steim2_word_diffs h sw nib w = Inr (take p d)"
proof -
  obtain w' where w': "steim2_word h d bw dc w0 = Inr (w', nib, p)"
    and w: "w = (if sw \<and> p \<noteq> 4 then ms_gswap4 w' else w')"
    using pk by (auto simp: steim2_pack_def split: sum.splits)
  note law = steim2_word_law [OF buf w']
  then show ?thesis
    by (cases sw) (auto simp: w steim2_word_diffs_swap)
qed

text \<open>Packing fails exactly when the first difference needs more than 30 bits.\<close>

lemma steim2_pack_fails_iff:
  assumes "buffered d bw dc"
  shows "(\<exists>e. steim2_pack h sw d bw dc w0 = Inl e) \<longleftrightarrow> 30 < bw ! 0"
  using assms unfolding steim2_pack_def steim2_word_def Let_def buffered_def
  by (auto split: if_splits sum.splits)

end
