(* ===== verification/SteimRoundtrip.thy ===== *)
theory SteimRoundtrip
  imports SteimPack
begin

text \<open>
  Correctness of the Steim codecs. The sliding buffer of the encoder is related to the
  list of all differences it stands for; the locale \<open>steim_codec\<close> states what the
  loops need of a packer and its word decoder, and proves the encoder and the decoder
  inverse once, for Steim1 and Steim2 alike.
\<close>

subsection \<open>Nibbles and frames\<close>

lemma bit_nibble: "j < 16 \<Longrightarrow> bit (nibble v j) n \<longleftrightarrow> n < 2 \<and> bit v (30 - 2 * j + n)"
  by (simp add: nibble_def extract_bit)

lemma nibble_0 [simp]: "nibble 0 j = 0"
  by (simp add: nibble_def EXTRACTBITRANGE_def)

lemma nibble_or_push:
  assumes "j < 16" "w < 16" "nib \<in> {1, 2, 3}"
  shows "nibble (v OR push_bit (30 - 2 * w) nib) j = (if j = w then nibble v j OR nib else nibble v j)"
proof (rule bit_word_eqI)
  fix n :: nat
  assume n: "n < LENGTH(32)"
  have nb: "bit nib m \<Longrightarrow> m < 2" for m
    using assms(3) by (auto simp: word_fields)
  have "30 - 2 * w \<le> 30 - 2 * j + n \<and> bit nib (30 - 2 * j + n - (30 - 2 * w)) \<and> n < 2 \<longleftrightarrow>
        j = w \<and> bit nib n \<and> n < 2"
  proof (cases "j = w")
    case False
    have "\<not> bit nib (30 - 2 * j + n - (30 - 2 * w))" if "n < 2" "30 - 2 * w \<le> 30 - 2 * j + n"
      using nb [of "30 - 2 * j + n - (30 - 2 * w)"] that assms(1,2) False by linarith
    with False show ?thesis by auto
  qed auto
  moreover have "30 - 2 * j + n < 32" if "n < 2" using that assms(1) by linarith
  ultimately show "bit (nibble (v OR push_bit (30 - 2 * w) nib) j) n =
      bit (if j = w then nibble v j OR nib else nibble v j) n"
    using assms(1) nb [of n] by (auto simp: bit_nibble bit_or_iff bit_push_bit_iff)
qed

lemma frame_diffs_end [simp]: "frame_diffs wd frame 16 = Inr []"
  by (simp add: frame_diffs.simps)

lemma frame_diffs_step:
  "widx < 16 \<Longrightarrow> wd (nibble (frame ! 0) widx) (frame ! widx) = Inr ds \<Longrightarrow>
   frame_diffs wd frame (Suc widx) = Inr ds' \<Longrightarrow> frame_diffs wd frame widx = Inr (ds @ ds')"
  by (subst frame_diffs.simps) simp

lemma frame_diffs_cong:
  "(\<And>j. widx \<le> j \<Longrightarrow> j < 16 \<Longrightarrow> f ! j = g ! j) \<Longrightarrow> f ! 0 = g ! 0 \<Longrightarrow>
   frame_diffs wd f widx = frame_diffs wd g widx"
proof (induction wd f widx rule: frame_diffs.induct)
  case (1 wd f widx)
  show ?case
  proof (cases "widx < 16")
    case True
    have "frame_diffs wd f (Suc widx) = frame_diffs wd g (Suc widx)"
      if "wd (nibble (f ! 0) widx) (f ! widx) = Inr ds" for ds
      using 1 True that by (metis Suc_leD)
    with 1 True show ?thesis
      by (subst (1 2) frame_diffs.simps) (auto split: sum.splits)
  qed (simp add: frame_diffs.simps)
qed

subsection \<open>The sliding buffer stands for the remaining differences\<close>

definition all_diffs :: "i32 \<Rightarrow> i32 list \<Rightarrow> nat \<Rightarrow> i32 list" where
  "all_diffs diff0 input n = diff0 # map (\<lambda>i. input ! Suc i - input ! i) [0..<n - 1]"

lemma length_all_diffs [simp]: "0 < n \<Longrightarrow> length (all_diffs d input n) = n"
  by (simp add: all_diffs_def)

lemma all_diffs_nth: "0 < i \<Longrightarrow> i < n \<Longrightarrow> all_diffs d input n ! i = input ! i - input ! (i - 1)"
  by (cases i) (auto simp: all_diffs_def)

text \<open>Entries \<open>p .. p + c\<close> of the buffers are the differences from \<open>o\<close> on.\<close>

definition holds :: "i32 list \<Rightarrow> enc_state \<Rightarrow> nat \<Rightarrow> nat \<Rightarrow> bool" where
  "holds ds st p c \<longleftrightarrow> (\<forall>i < c. diffs st ! (p + i) = ds ! (outputsamples st + i) \<and>
     bitwidth st ! (p + i) = bitwidth_of (ds ! (outputsamples st + i)))"

definition enc_inv :: "nat \<Rightarrow> i32 list \<Rightarrow> enc_state \<Rightarrow> bool" where
  "enc_inv n ds st \<longleftrightarrow> length (diffs st) = n \<and> length (bitwidth st) = n \<and> diffcount st < n \<and>
     packedsamples st + diffcount st \<le> n \<and> outputsamples st + diffcount st \<le> length ds \<and>
     Suc (inputidx st) = outputsamples st + diffcount st \<and>
     holds ds st (packedsamples st) (diffcount st)"

definition ready :: "nat \<Rightarrow> i32 list \<Rightarrow> enc_state \<Rightarrow> bool" where
  "ready n ds st \<longleftrightarrow> length (diffs st) = n \<and> length (bitwidth st) = n \<and>
     diffcount st = min n (length ds - outputsamples st) \<and>
     Suc (inputidx st) = outputsamples st + diffcount st \<and> holds ds st 0 (diffcount st)"

lemma enc_inv_init: "1 < n \<Longrightarrow> 0 < m \<Longrightarrow> enc_inv n (all_diffs d input m) (enc_init n d)"
  by (auto simp: enc_inv_def enc_init_def holds_def all_diffs_def)

lemma shift_buffer_nth:
  assumes "p + c \<le> length a"
  shows "length (shift_buffer p c k a) = length a"
    and "i < c \<Longrightarrow> shift_buffer p c k a ! i = (if k \<le> i then a ! (p + i) else a ! i)"
  using assms
proof (induction p c k a arbitrary: i rule: shift_buffer.induct)
  case (1 p c k a)
  {
    case 1
    then show ?case using "1.IH"(1) by (subst shift_buffer.simps) simp
  next
    case 2
    show ?case
    proof (cases "k < c")
      case True
      with 2 have "shift_buffer p c k a ! i =
          (if Suc k \<le> i then a[k := a ! (p + k)] ! (p + i) else a[k := a ! (p + k)] ! i)"
        using "1.IH"(2) [OF True] by (subst shift_buffer.simps) simp
      with 2 True show ?thesis by (cases "i = k") (auto simp: nth_list_update)
    next
      case False
      with 2 show ?thesis by (subst shift_buffer.simps) simp
    qed
  }
qed

lemma add_diffs_ready:
  assumes "length (diffs st) = n" "length (bitwidth st) = n" "diffcount st = idx" "idx \<le> n"
    "Suc (inputidx st) = outputsamples st + idx" "outputsamples st + idx \<le> m" "0 < m"
    "holds (all_diffs d input m) st 0 idx"
  shows "ready n (all_diffs d input m) (add_diffs n input m idx st) \<and>
    outputsamples (add_diffs n input m idx st) = outputsamples st"
  using assms
proof (induction n input m idx st rule: add_diffs.induct)
  case (1 n input m idx st)
  show ?case
  proof (cases "idx < n \<and> inputidx st < m - 1")
    case True
    let ?d = "input ! (inputidx st + 1) - input ! inputidx st"
    let ?st = "st\<lparr>diffs := (diffs st)[idx := ?d], bitwidth := (bitwidth st)[idx := bitwidth_of ?d],
              diffcount := Suc (diffcount st), inputidx := Suc (inputidx st)\<rparr>"
    have d: "?d = all_diffs d input m ! (outputsamples st + idx)"
    proof -
      have "inputidx st = outputsamples st + idx - 1" "0 < outputsamples st + idx" "outputsamples st + idx < m"
        using True "1.prems" by auto
      then show ?thesis by (simp add: all_diffs_nth)
    qed
    have "holds (all_diffs d input m) ?st 0 (Suc idx)"
      using "1.prems" True d by (auto simp: holds_def nth_list_update less_Suc_eq)
    then have "ready n (all_diffs d input m) (add_diffs n input m (Suc idx) ?st) \<and>
        outputsamples (add_diffs n input m (Suc idx) ?st) = outputsamples ?st"
      using "1.prems" True by (intro "1.IH") auto
    then show ?thesis using True by (subst (1 2) add_diffs.simps) (simp add: Let_def)
  next
    case False
    then show ?thesis
      using "1.prems" by (subst (1 2) add_diffs.simps) (auto simp: ready_def)
  qed
qed

lemma refill_ready:
  assumes "enc_inv n (all_diffs d input m) st" "0 < m"
  shows "ready n (all_diffs d input m) (refill n input m st)"
    and "outputsamples (refill n input m st) = outputsamples st"
proof -
  let ?st = "st\<lparr>diffs := shift_buffer (packedsamples st) (diffcount st) 0 (diffs st),
                bitwidth := shift_buffer (packedsamples st) (diffcount st) 0 (bitwidth st)\<rparr>"
  have "holds (all_diffs d input m) ?st 0 (diffcount st)"
    using assms by (auto simp: enc_inv_def holds_def shift_buffer_nth)
  then have "ready n (all_diffs d input m) (add_diffs n input m (diffcount st) ?st) \<and>
      outputsamples (add_diffs n input m (diffcount st) ?st) = outputsamples ?st"
    using assms by (intro add_diffs_ready) (auto simp: enc_inv_def shift_buffer_nth)
  then show "ready n (all_diffs d input m) (refill n input m st)"
    and "outputsamples (refill n input m st) = outputsamples st"
    using assms by (auto simp: refill_def enc_inv_def)
qed

text \<open>The buffer of a ready state, as the packer sees it.\<close>

lemma ready_buffered:
  assumes "ready n ds st" "outputsamples st < length ds" "0 < n"
  shows "buffered (diffs st) (bitwidth st) (diffcount st)" "diffcount st \<le> n"
    and "p \<le> diffcount st \<Longrightarrow> take p (diffs st) = take p (drop (outputsamples st) ds)"
proof -
  show "buffered (diffs st) (bitwidth st) (diffcount st)"
    using assms by (auto simp: buffered_def ready_def holds_def)
  show "diffcount st \<le> n" using assms by (simp add: ready_def)
  show "take p (diffs st) = take p (drop (outputsamples st) ds)" if "p \<le> diffcount st"
    using assms that by (intro nth_equalityI) (auto simp: ready_def holds_def)
qed

lemma ready_advance:
  assumes "ready n ds st" "outputsamples st < length ds" "0 < p" "p \<le> diffcount st"
  shows "enc_inv n ds (st\<lparr>packedsamples := p, diffcount := diffcount st - p,
           outputsamples := outputsamples st + p\<rparr>)"
proof -
  have "holds ds (st\<lparr>packedsamples := p, diffcount := diffcount st - p,
      outputsamples := outputsamples st + p\<rparr>) p (diffcount st - p)"
    using assms by (auto simp: ready_def holds_def add.assoc simp del: min_less_iff_conj)
  then show ?thesis using assms by (auto simp: enc_inv_def ready_def)
qed

subsection \<open>The interface between packer and word decoder\<close>

locale steim_codec =
  fixes n :: nat
    and pack :: packer
    and word_diffs :: word_decoder
  assumes window: "1 < n"
    and pack_law: "buffered d bw dc \<Longrightarrow> dc \<le> n \<Longrightarrow> pack d bw dc w0 = Inr (w, nib, p) \<Longrightarrow>
      0 < p \<and> p \<le> dc \<and> nib \<in> {1, 2, 3} \<and> word_diffs nib w = Inr (take p d)"
    and no_diffs: "word_diffs 0 w = Inr []"
begin

lemma frame_diffs_unused:
  "(\<And>j. widx \<le> j \<Longrightarrow> j < 16 \<Longrightarrow> nibble (frame ! 0) j = 0) \<Longrightarrow> frame_diffs word_diffs frame widx = Inr []"
proof (induction "16 - widx" arbitrary: widx)
  case 0
  then show ?case by (simp add: frame_diffs.simps)
next
  case (Suc k)
  then have "frame_diffs word_diffs frame (Suc widx) = Inr []" by simp
  with Suc show ?case by (subst frame_diffs.simps) (simp add: no_diffs)
qed

text \<open>One word: the packer takes the next differences and the invariant moves on.\<close>

lemma packed_word:
  assumes inv: "enc_inv n (all_diffs d input m) st" and m: "0 < m" "outputsamples st < m"
    and st1: "st1 = refill n input m st"
    and pk: "pack (diffs st1) (bitwidth st1) (diffcount st1) w0 = Inr (w, nib, p)"
    and st2: "st2 = st1\<lparr>packedsamples := p, diffcount := diffcount st1 - p,
                      outputsamples := outputsamples st1 + p\<rparr>"
  shows "0 < p" "nib \<in> {1, 2, 3}" "enc_inv n (all_diffs d input m) st2"
    and "outputsamples st2 = outputsamples st + p"
    and "word_diffs nib w = Inr (take p (drop (outputsamples st) (all_diffs d input m)))"
proof -
  note r = refill_ready [OF inv m(1), folded st1]
  have o1: "outputsamples st1 < length (all_diffs d input m)" using r m by simp
  have n0: "0 < n" using window by simp
  note b = ready_buffered [OF r(1) o1 n0]
  have law: "0 < p" "p \<le> diffcount st1" "nib \<in> {1, 2, 3}" "word_diffs nib w = Inr (take p (diffs st1))"
    using pack_law [OF b(1,2) pk] by auto
  show "0 < p" "nib \<in> {1, 2, 3}" by (fact law)+
  show "enc_inv n (all_diffs d input m) st2"
    unfolding st2 by (rule ready_advance [OF r(1) o1 law(1,2)])
  show "outputsamples st2 = outputsamples st + p" by (simp add: st2 r)
  show "word_diffs nib w = Inr (take p (drop (outputsamples st) (all_diffs d input m)))"
    using b(3) [OF law(2)] law(4) r(2) by simp
qed

text \<open>
  One run of the loop over words: it takes some further differences, the frame decodes
  to exactly those, the words before \<open>widx\<close> stay, and unless all samples are packed
  every word took at least one.
\<close>

definition words_done :: "i32 list \<Rightarrow> nat \<Rightarrow> nat \<Rightarrow> enc_state \<Rightarrow> u32 list \<Rightarrow> enc_state \<Rightarrow> u32 list \<Rightarrow> nat \<Rightarrow> bool" where
  "words_done ds m widx st frame st' frame' k \<longleftrightarrow>
     outputsamples st' = outputsamples st + k \<and> enc_inv n ds st' \<and>
     frame_diffs word_diffs frame' widx = Inr (take k (drop (outputsamples st) ds)) \<and>
     length frame' = 16 \<and>
     (\<forall>j. 0 < j \<longrightarrow> j < widx \<longrightarrow> frame' ! j = frame ! j \<and> nibble (frame' ! 0) j = nibble (frame ! 0) j) \<and>
     (outputsamples st' < m \<longrightarrow> 16 - widx \<le> k) \<and> (outputsamples st < m \<longrightarrow> widx < 16 \<longrightarrow> 0 < k)"

lemma words_done_step:
  assumes w: "widx < 16" "0 < widx" "length frame = 16"
    and fr: "fr = frame[widx := w, 0 := frame ! 0 OR push_bit (30 - 2 * widx) nib]"
    and zero: "\<And>j. widx \<le> j \<Longrightarrow> j < 16 \<Longrightarrow> nibble (frame ! 0) j = 0"
    and p: "0 < p" "nib \<in> {1, 2, 3}" "word_diffs nib w = Inr (take p (drop (outputsamples st) ds))"
      "outputsamples st2 = outputsamples st + p"
    and k: "words_done ds m (Suc widx) st2 fr st' frame' k"
  shows "words_done ds m widx st frame st' frame' (p + k)"
proof -
  have fr0: "fr ! 0 = frame ! 0 OR push_bit (30 - 2 * widx) nib" and frw: "fr ! widx = w"
    using w by (auto simp: fr nth_list_update)
  have nibs: "nibble (fr ! 0) j = (if j = widx then nib else nibble (frame ! 0) j)" if "j < 16" for j
    using nibble_or_push [OF that w(1) p(2), of "frame ! 0"] zero [of widx] w by (auto simp: fr0)
  have kk: "frame' ! j = fr ! j \<and> nibble (frame' ! 0) j = nibble (fr ! 0) j" if "0 < j" "j < Suc widx" for j
    using k that unfolding words_done_def by blast
  have "word_diffs (nibble (frame' ! 0) widx) (frame' ! widx) = Inr (take p (drop (outputsamples st) ds))"
    using kk [of widx] w frw nibs [OF w(1)] p(3) by simp
  then have "frame_diffs word_diffs frame' widx =
      Inr (take p (drop (outputsamples st) ds) @ take k (drop (outputsamples st2) ds))"
    by (rule frame_diffs_step [OF w(1)]) (use k in \<open>simp add: words_done_def\<close>)
  then have fd: "frame_diffs word_diffs frame' widx = Inr (take (p + k) (drop (outputsamples st) ds))"
    by (simp add: p(4) take_add [of p k] add.commute [of "outputsamples st" p])
  have keep: "frame' ! j = frame ! j \<and> nibble (frame' ! 0) j = nibble (frame ! 0) j"
    if "0 < j" "j < widx" for j
    using kk [of j] that nibs [of j] w by (simp add: fr nth_list_update)
  show ?thesis
    using k fd keep p w(1) unfolding words_done_def by auto
qed

lemma steim_words_correct:
  assumes "steim_words n pack input m widx st frame = Inr (st', frame')"
    and "enc_inv n (all_diffs d input m) st" "0 < m" "length frame = 16" "0 < widx" "widx \<le> 16"
    and "\<And>j. widx \<le> j \<Longrightarrow> j < 16 \<Longrightarrow> nibble (frame ! 0) j = 0"
  shows "\<exists>k. words_done (all_diffs d input m) m widx st frame st' frame' k"
  using assms
proof (induction "16 - widx" arbitrary: widx st frame)
  case 0
  then have "st' = st" "frame' = frame" "widx = 16" by (auto simp: steim_words.simps)
  with 0 show ?case by (intro exI [of _ 0]) (simp add: words_done_def)
next
  case (Suc c)
  let ?ds = "all_diffs d input m"
  show ?case
  proof (cases "outputsamples st < m")
    case False
    then have "st' = st" "frame' = frame" using Suc.prems(1) by (auto simp: steim_words.simps)
    with Suc.prems False show ?thesis
      by (intro exI [of _ 0]) (simp add: words_done_def frame_diffs_unused)
  next
    case True
    have w16: "widx < 16" using Suc.hyps(2) by simp
    define st1 where "st1 = refill n input m st"
    obtain w nib p where pk: "pack (diffs st1) (bitwidth st1) (diffcount st1) (frame ! widx) = Inr (w, nib, p)"
      and rec: "steim_words n pack input m (Suc widx)
        (st1\<lparr>packedsamples := p, diffcount := diffcount st1 - p, outputsamples := outputsamples st1 + p\<rparr>)
        (frame[widx := w, 0 := frame ! 0 OR push_bit (30 - 2 * widx) nib]) = Inr (st', frame')"
      using Suc.prems(1) True w16
      by (subst (asm) steim_words.simps) (auto simp: st1_def Let_def split: sum.splits)
    define st2 where "st2 = st1\<lparr>packedsamples := p, diffcount := diffcount st1 - p, outputsamples := outputsamples st1 + p\<rparr>"
    define fr where "fr = frame[widx := w, 0 := frame ! 0 OR push_bit (30 - 2 * widx) nib]"
    note pw = packed_word [OF Suc.prems(2,3) True st1_def pk st2_def]
    have len: "length fr = 16" and nibs: "nibble (fr ! 0) j = 0" if "Suc widx \<le> j" "j < 16" for j
      using nibble_or_push [OF that(2) w16 pw(2), of "frame ! 0"] Suc.prems(4,7) that
      by (auto simp: fr_def)
    have "\<exists>k. words_done ?ds m (Suc widx) st2 fr st' frame' k"
      using Suc.hyps(2) Suc.prems(3,4) w16 nibs rec pw(3)
      by (intro Suc.hyps(1)) (auto simp: st2_def fr_def)
    then obtain k where "words_done ?ds m (Suc widx) st2 fr st' frame' k" ..
    from words_done_step [OF w16 Suc.prems(5,4) fr_def Suc.prems(7) pw(1,2,5,4) this]
    show ?thesis by blast
  qed
qed

subsection \<open>Whole streams\<close>

text \<open>
  An output array carries chunks of differences, one per frame: what the decoder reads
  from each frame. The decoder skips the two integration constants of the first frame.
\<close>

definition frame_of :: "bool \<Rightarrow> u32 list \<Rightarrow> nat \<Rightarrow> u32 list" where
  "frame_of sw ws i = (let f = take 16 (drop (16 * i) ws) in f[0 := swap4_if sw (f ! 0)])"

definition carries :: "bool \<Rightarrow> u32 list \<Rightarrow> i32 list list \<Rightarrow> bool" where
  "carries sw ws chunks \<longleftrightarrow> 16 * length chunks \<le> length ws \<and>
     (\<forall>i < length chunks. frame_diffs word_diffs (frame_of sw ws i) (if i = 0 then 3 else 1) = Inr (chunks ! i))"

lemma frame_of_nth:
  "16 * i + 16 \<le> length ws \<Longrightarrow> j < 16 \<Longrightarrow>
   frame_of sw ws i ! j = (if j = 0 then swap4_if sw (ws ! (16 * i)) else ws ! (16 * i + j))"
  by (auto simp: frame_of_def Let_def nth_list_update)

lemma carries_cong:
  assumes "carries sw ws chunks" "length ws \<le> length vs"
    and "\<And>j. j < 16 * length chunks \<Longrightarrow> j \<noteq> 1 \<Longrightarrow> j \<noteq> 2 \<Longrightarrow> ws ! j = vs ! j"
  shows "carries sw vs chunks"
proof -
  have "frame_diffs word_diffs (frame_of sw vs i) (if i = 0 then 3 else 1)
      = frame_diffs word_diffs (frame_of sw ws i) (if i = 0 then 3 else 1)"
    if i: "i < length chunks" for i
  proof (rule frame_diffs_cong)
    have b: "16 * i + 16 \<le> length ws" "16 * i + 16 \<le> length vs" "16 * i + 16 \<le> 16 * length chunks"
      using assms(1,2) i by (auto simp: carries_def)
    show "frame_of sw vs i ! 0 = frame_of sw ws i ! 0"
      using b assms(3) [of "16 * i"] by (simp add: frame_of_nth)
    fix j assume j: "(if i = 0 then 3 else 1) \<le> j" "j < (16 :: nat)"
    have "ws ! (16 * i + j) = vs ! (16 * i + j)"
      using assms(3) [of "16 * i + j"] b j by (auto split: if_splits)
    then show "frame_of sw vs i ! j = frame_of sw ws i ! j"
      using b j by (auto simp: frame_of_nth split: if_splits)
  qed
  with assms show ?thesis by (simp add: carries_def)
qed

lemma carries_snoc:
  assumes "carries sw ws chunks" "length ws = 16 * length chunks" "length f = 16"
    and "frame_diffs word_diffs (f[0 := swap4_if sw (f ! 0)]) (if chunks = [] then 3 else 1) = Inr c"
  shows "carries sw (ws @ f) (chunks @ [c])"
proof -
  have "frame_of sw (ws @ f) i = frame_of sw ws i" if "i < length chunks" for i
    using that assms(2) by (intro nth_equalityI) (auto simp: frame_of_def Let_def nth_append)
  moreover have "frame_of sw (ws @ f) (length chunks) = f[0 := swap4_if sw (f ! 0)]"
    using assms(2,3) by (simp add: frame_of_def Let_def)
  ultimately show ?thesis
    using assms by (auto simp: carries_def nth_append less_Suc_eq)
qed

text \<open>The state of the loop over frames.\<close>

definition frames_inv :: "bool \<Rightarrow> i32 list \<Rightarrow> i32 list \<Rightarrow> nat \<Rightarrow> enc_state \<Rightarrow> u32 list \<Rightarrow> i32 list list \<Rightarrow> bool" where
  "frames_inv sw input ds fi st out chunks \<longleftrightarrow>
     length out = 16 * fi \<and> length chunks = fi \<and> carries sw out chunks \<and> enc_inv n ds st \<and>
     concat chunks = take (outputsamples st) ds \<and> outputsamples st \<le> length ds \<and>
     (0 < fi \<longrightarrow> out ! 1 = swap4_if sw (input ! 0) \<and> hd chunks \<noteq> []) \<and>
     (outputsamples st < length ds \<longrightarrow> 15 * fi \<le> outputsamples st + 2)"

lemma frames_inv_init:
  "0 < m \<Longrightarrow> frames_inv sw input (all_diffs d input m) 0 (enc_init n d) [] []"
  using window by (auto simp: frames_inv_def carries_def enc_inv_init) (simp_all add: enc_init_def)

lemma frames_inv_step:
  assumes inv: "frames_inv sw input (all_diffs d input m) fi st out chunks" and m: "0 < m" "outputsamples st < m"
    and wd: "words_done (all_diffs d input m) m (if fi = 0 then 3 else 1) st frame st' frame' k"
    and fr1: "fi = 0 \<Longrightarrow> frame ! 1 = swap4_if sw (input ! 0)"
  shows "frames_inv sw input (all_diffs d input m) (Suc fi) st' (out @ frame'[0 := swap4_if sw (frame' ! 0)])
           (chunks @ [take k (drop (outputsamples st) (all_diffs d input m))])"
proof -
  let ?ds = "all_diffs d input m" and ?f = "frame'[0 := swap4_if sw (frame' ! 0)]"
  have w: "outputsamples st' = outputsamples st + k" "enc_inv n ?ds st'" "length frame' = 16"
      "frame_diffs word_diffs frame' (if fi = 0 then 3 else 1) = Inr (take k (drop (outputsamples st) ?ds))"
      "outputsamples st' < m \<Longrightarrow> 16 - (if fi = 0 then 3 else 1) \<le> k" "0 < k"
    using wd m by (auto simp: words_done_def split: if_splits)
  have f0: "?f[0 := swap4_if sw (?f ! 0)] = frame'"
    using w(3) by (cases frame') auto
  have c: "carries sw (out @ ?f) (chunks @ [take k (drop (outputsamples st) ?ds)])"
    using inv w(3,4) f0 by (intro carries_snoc) (auto simp: frames_inv_def split: if_splits)
  have le: "outputsamples st' \<le> length ?ds" using w(2) by (auto simp: enc_inv_def)
  have x0: "(out @ ?f) ! 1 = swap4_if sw (input ! 0)"
  proof (cases "fi = 0")
    case True
    then have "frame' ! 1 = frame ! 1" using wd by (auto simp: words_done_def)
    with True inv fr1 w(3) show ?thesis by (simp add: frames_inv_def)
  qed (use inv in \<open>simp add: frames_inv_def nth_append\<close>)
  have hd: "hd (chunks @ [take k (drop (outputsamples st) ?ds)]) \<noteq> []"
    using inv w(6) m by (cases chunks) (auto simp: frames_inv_def)
  have cap: "outputsamples st' < length ?ds \<longrightarrow> 15 * Suc fi \<le> outputsamples st' + 2"
    using inv w(1,5) m by (auto simp: frames_inv_def split: if_splits)
  show ?thesis
    using inv w(1,2,3) c le x0 hd cap by (simp add: frames_inv_def take_add)
qed

lemma steim_frames_correct:
  assumes "steim_frames n pack sw input m maxframes fi st out = Inr (fi', st', out')"
    and "frames_inv sw input (all_diffs d input m) fi st out chunks" "0 < m" "fi \<le> maxframes"
  shows "\<exists>chunks'. frames_inv sw input (all_diffs d input m) fi' st' out' chunks' \<and> fi' \<le> maxframes \<and>
           (fi' = maxframes \<or> outputsamples st' = m)"
  using assms
proof (induction "maxframes - fi" arbitrary: fi st out chunks)
  case 0
  then have "fi' = fi" "st' = st" "out' = out" by (auto simp: steim_frames.simps)
  with 0 show ?case by auto
next
  case (Suc c)
  let ?ds = "all_diffs d input m"
  show ?case
  proof (cases "outputsamples st < m")
    case False
    then have "fi' = fi" "st' = st" "out' = out" using Suc.prems(1) by (auto simp: steim_frames.simps)
    moreover have "outputsamples st = m" using False Suc.prems(2,3) by (simp add: frames_inv_def)
    ultimately show ?thesis using Suc.prems by auto
  next
    case True
    define frame where "frame = (if fi = 0 then (replicate 16 0)[1 := swap4_if sw (input ! 0)] else replicate 16 (0 :: u32))"
    obtain st1 frame1 where words: "steim_words n pack input m (if fi = 0 then 3 else 1) st frame = Inr (st1, frame1)"
      and rec: "steim_frames n pack sw input m maxframes (Suc fi) st1
        (out @ frame1[0 := swap4_if sw (frame1 ! 0)]) = Inr (fi', st', out')"
      using Suc.prems(1) True Suc.hyps(2)
      by (subst (asm) steim_frames.simps) (auto simp: frame_def Let_def split: sum.splits if_splits)
    have inv: "enc_inv n ?ds st" using Suc.prems(2) by (simp add: frames_inv_def)
    have "\<exists>k. words_done ?ds m (if fi = 0 then 3 else 1) st frame st1 frame1 k"
      by (rule steim_words_correct [OF words inv Suc.prems(3)]) (auto simp: frame_def)
    then obtain k where k: "words_done ?ds m (if fi = 0 then 3 else 1) st frame st1 frame1 k" ..
    note step = frames_inv_step [OF Suc.prems(2,3) True k]
    have "\<exists>chunks'. frames_inv sw input ?ds fi' st' out' chunks' \<and> fi' \<le> maxframes \<and>
           (fi' = maxframes \<or> outputsamples st' = m)"
    proof (rule Suc.hyps(1) [OF _ rec step Suc.prems(3)])
      show "c = maxframes - Suc fi" "Suc fi \<le> maxframes" using Suc.hyps(2) by auto
    qed (simp add: frame_def)
    then show ?thesis .
  qed
qed

subsection \<open>Decoding\<close>

lemma apply_diffs_full: "m \<le> length out \<Longrightarrow> apply_diffs m ds out = out"
  by (cases ds) simp_all

lemma apply_diffs_append:
  "apply_diffs m (a @ b) out = apply_diffs m b (apply_diffs m a out)"
  by (induction m a out rule: apply_diffs.induct) (auto simp: apply_diffs_full)

lemma length_apply_diffs: "min m (length out + length ds) \<le> length (apply_diffs m ds out)"
  by (induction m ds out rule: apply_diffs.induct) auto

text \<open>Integrating the differences of the input gives the input back.\<close>

lemma apply_diffs_integrates:
  assumes "0 < j" "j \<le> m" "m \<le> length input" "m \<le> l"
  shows "apply_diffs m (drop j (take m (all_diffs d input l))) (take j input) = take m input"
  using assms
proof (induction "m - j" arbitrary: j)
  case 0
  then show ?case by (simp add: apply_diffs_full)
next
  case (Suc c)
  have j: "j < m" using Suc.hyps(2) by simp
  have l: "length (all_diffs d input l) = l" using j Suc.prems by simp
  have dd: "drop j (take m (all_diffs d input l)) = (input ! j - input ! (j - 1)) # drop (Suc j) (take m (all_diffs d input l))"
    using j Suc.prems l by (subst Cons_nth_drop_Suc [symmetric]) (simp_all add: all_diffs_nth)
  have la: "last (take j input) = input ! (j - 1)"
    using Suc.prems j by (subst last_conv_nth) auto
  have "take j input @ [last (take j input) + (input ! j - input ! (j - 1))] = take (Suc j) input"
    using Suc.prems j by (simp add: la take_Suc_conv_app_nth)
  with Suc j show ?case by (simp add: dd)
qed

lemma decode_frames_rest:
  assumes "carries sw ws chunks" "0 < i" "i \<le> length chunks" "length chunks \<le> maxframes"
    and "m \<le> length out + length (concat (drop i chunks))"
  shows "decode_frames word_diffs sw ws maxframes m i out Xn = Inr (apply_diffs m (concat (drop i chunks)) out, Xn)"
  using assms
proof (induction "length chunks - i" arbitrary: i out)
  case 0
  then show ?case by (subst decode_frames.simps) simp
next
  case (Suc c)
  have i: "i < length chunks" using Suc.hyps(2) by simp
  show ?case
  proof (cases "length out < m")
    case False
    then show ?thesis by (subst decode_frames.simps) (simp add: apply_diffs_full)
  next
    case True
    have fd: "frame_diffs word_diffs (frame_of sw ws i) 1 = Inr (chunks ! i)"
      using Suc.prems(1,2) i by (auto simp: carries_def)
    have dr: "drop i chunks = chunks ! i # drop (Suc i) chunks" using i by (simp add: Cons_nth_drop_Suc)
    have len: "m \<le> length (apply_diffs m (chunks ! i) out) + length (concat (drop (Suc i) chunks))"
      using length_apply_diffs [of m out "chunks ! i"] Suc.prems(5) dr by simp
    have "decode_frames word_diffs sw ws maxframes m i out Xn =
        decode_frames word_diffs sw ws maxframes m (Suc i) (apply_diffs m (chunks ! i) out) Xn"
      using True i Suc.prems(2,4) fd
      by (subst decode_frames.simps) (simp add: frame_of_def Let_def)
    also have "\<dots> = Inr (apply_diffs m (concat (drop (Suc i) chunks)) (apply_diffs m (chunks ! i) out), Xn)"
      using Suc i len by (intro Suc.hyps(1)) auto
    finally show ?thesis by (simp add: dr apply_diffs_append)
  qed
qed

text \<open>
  The decoder on an array that carries the first \<open>m\<close> differences of the input, with the
  integration constants in place.
\<close>

lemma decode_frames_carried:
  assumes "carries sw ws chunks" "chunks \<noteq> []" "hd chunks \<noteq> []" "length chunks \<le> maxframes"
    and "concat chunks = take m (all_diffs d input l)" "0 < m" "m \<le> l" "m \<le> length input"
    and "ws ! 1 = swap4_if sw (input ! 0)" "ws ! 2 = swap4_if sw (input ! (m - 1))"
  shows "decode_frames word_diffs sw ws maxframes m 0 [] 0 = Inr (take m input, input ! (m - 1))"
proof -
  let ?ds = "take m (all_diffs d input l)" and ?Xn = "input ! (m - 1)"
  obtain c cs where ch: "chunks = c # cs" using assms(2) by (cases chunks) auto
  have fd: "frame_diffs word_diffs (frame_of sw ws 0) 3 = Inr c"
    using assms(1) ch by (auto simp: carries_def)
  have len: "16 \<le> length ws" using assms(1) ch by (simp add: carries_def)
  let ?fr = "take 16 ws"
  have cong: "frame_diffs word_diffs ((?fr[1 := a, 2 := b])[0 := swap4_if sw (ws ! 0)]) 3 = Inr c" for a b
    unfolding fd [symmetric] using len
    by (intro frame_diffs_cong) (auto simp: frame_of_def Let_def nth_list_update)
  have t1: "take 1 input = [input ! 0]"
    using assms(6,8) by (cases input) auto
  have "decode_frames word_diffs sw ws maxframes m 0 [] 0 =
      decode_frames word_diffs sw ws maxframes m 1 (apply_diffs m (drop 1 c) [input ! 0]) ?Xn"
    using assms(4,6,9,10) ch len cong
    by (subst decode_frames.simps) (simp add: Let_def nth_list_update)
  also have "\<dots> = Inr (apply_diffs m (concat (drop 1 chunks)) (apply_diffs m (drop 1 c) [input ! 0]), ?Xn)"
  proof (rule decode_frames_rest [OF assms(1)])
    have "length c + length (concat cs) = m"
      using arg_cong [OF assms(5), of length] assms(6,7) ch by simp
    moreover have "0 < length c" using assms(3) ch by simp
    ultimately show "m \<le> length (apply_diffs m (drop 1 c) [input ! 0]) + length (concat (drop 1 chunks))"
      using length_apply_diffs [of m "[input ! 0]" "drop 1 c"] ch by auto
  qed (use assms(2,4) in \<open>auto simp: Suc_le_eq\<close>)
  also have "apply_diffs m (concat (drop 1 chunks)) (apply_diffs m (drop 1 c) [input ! 0]) =
      apply_diffs m (drop 1 ?ds) (take 1 input)"
    using assms(3) by (cases c) (simp_all add: t1 [simplified] assms(5) [symmetric] ch apply_diffs_append [symmetric])
  also have "\<dots> = take m input"
    by (rule apply_diffs_integrates) (use assms in auto)
  finally show ?thesis .
qed

subsection \<open>The round trip\<close>

text \<open>What the encoder leaves: a whole number of frames that carry the samples it reports.\<close>

lemma steim_encode_carries:
  assumes "steim_encode n pack input m output outputlength d sw = Inr r"
    and "0 < m" "64 \<le> outputlength"
  shows "\<exists>chunks fi. carries sw (er_output r) chunks \<and> length chunks = fi \<and> 0 < fi \<and>
     fi \<le> outputlength div 64 \<and> er_byteswritten r = Some (of_nat (fi * 64)) \<and> hd chunks \<noteq> [] \<and>
     0 < er_samples r \<and> er_samples r \<le> m \<and>
     concat chunks = take (er_samples r) (all_diffs d input m) \<and>
     er_output r ! 1 = swap4_if sw (input ! 0) \<and>
     er_output r ! 2 = swap4_if sw (input ! (er_samples r - 1)) \<and>
     drop (16 * fi) (er_output r) = drop (16 * fi) output \<and>
     (er_samples r < m \<longrightarrow> fi = outputlength div 64 \<and> 15 * fi \<le> er_samples r + 2)"
proof -
  obtain fi st out where f: "steim_frames n pack sw input m (outputlength div 64) 0 (enc_init n d) [] = Inr (fi, st, out)"
    using assms(1) by (auto simp: steim_encode_def split: sum.splits)
  obtain chunks where c: "frames_inv sw input (all_diffs d input m) fi st out chunks"
      "fi \<le> outputlength div 64" "fi = outputlength div 64 \<or> outputsamples st = m"
    using steim_frames_correct [OF f frames_inv_init [OF assms(2)] assms(2)] by auto
  have fi: "0 < fi"
  proof (rule ccontr)
    assume "\<not> 0 < fi"
    then have "outputsamples st = m" "chunks = []" "concat chunks = take (outputsamples st) (all_diffs d input m)"
      using c assms(3) by (auto simp: frames_inv_def)
    then show False using assms(2) by (simp add: all_diffs_def)
  qed
  have inv: "length out = 16 * fi" "length chunks = fi" "carries sw out chunks"
      "concat chunks = take (outputsamples st) (all_diffs d input m)" "outputsamples st \<le> m"
      "out ! 1 = swap4_if sw (input ! 0)" "hd chunks \<noteq> []"
      "outputsamples st < m \<Longrightarrow> 15 * fi \<le> outputsamples st + 2"
    using c(1) fi assms(2) unfolding frames_inv_def by auto
  let ?X = "swap4_if sw (input ! (outputsamples st - 1))"
  have r: "er_samples r = outputsamples st" "er_output r = out[2 := ?X] @ drop (16 * fi) output"
      "er_byteswritten r = Some (of_nat (fi * 64))"
    using assms(1) f fi inv(1) by (auto simp: steim_encode_def Let_def)
  have pos: "0 < outputsamples st"
  proof (rule ccontr)
    assume "\<not> 0 < outputsamples st"
    then have "concat chunks = []" using inv(4) by simp
    with inv(2,7) fi show False by (cases chunks) auto
  qed
  have car: "carries sw (er_output r) chunks"
    using inv(1,2) by (intro carries_cong [OF inv(3)]) (auto simp: r nth_append nth_list_update)
  have constants: "er_output r ! 1 = swap4_if sw (input ! 0)"
      "er_output r ! 2 = swap4_if sw (input ! (er_samples r - 1))"
    using inv(1,6) fi by (auto simp: r nth_append nth_list_update)
  have tail: "drop (16 * fi) (er_output r) = drop (16 * fi) output"
    using inv(1) by (simp add: r)
  have cap: "fi = outputlength div 64 \<and> 15 * fi \<le> er_samples r + 2" if "er_samples r < m"
    using that c(3) inv(8) by (simp add: r)
  show ?thesis
    using car inv(2) fi c(2) r(3) inv(7) pos inv(5) inv(4) constants tail cap
    unfolding r(1) [symmetric] by blast
qed

theorem encode_decode:
  assumes enc: "steim_encode n pack input m output outputlength d sw = Inr r"
    and m: "0 < m" "m \<le> length input" "64 \<le> outputlength"
    and len: "64 * (outputlength div 64) \<le> inputlength"
    and room: "4 * er_samples r \<le> decoderlength"
  shows "steim_decode word_diffs (Some (er_output r)) inputlength (er_samples r) True decoderlength sw =
         Inr \<lparr>dr_output = take (er_samples r) input, dr_warned = False\<rparr>"
proof -
  obtain chunks fi where c: "carries sw (er_output r) chunks" "length chunks = fi" "0 < fi"
      "fi \<le> outputlength div 64" "hd chunks \<noteq> []" "0 < er_samples r" "er_samples r \<le> m"
      "concat chunks = take (er_samples r) (all_diffs d input m)"
      "er_output r ! 1 = swap4_if sw (input ! 0)"
      "er_output r ! 2 = swap4_if sw (input ! (er_samples r - 1))"
    using steim_encode_carries [OF enc m(1,3)] by blast
  have mf: "length chunks \<le> inputlength div 64" "0 < inputlength div 64"
    using c(2,3,4) len by auto
  have dec: "decode_frames word_diffs sw (er_output r) (inputlength div 64) (er_samples r) 0 [] 0 =
      Inr (take (er_samples r) input, input ! (er_samples r - 1))"
    using c m(2) by (intro decode_frames_carried [OF c(1) _ c(5) mf(1) c(8)]) auto
  have "\<not> decoderlength < er_samples r * 4 mod 2 ^ 64"
    using room mod_less_eq_dividend [of "er_samples r * 4" "2 ^ 64"] by linarith
  moreover have "last (take (er_samples r) input) = input ! (er_samples r - 1)"
    using c(6,7) m(2) by (subst last_conv_nth) auto
  ultimately show ?thesis
    using c(6,7) m(2) mf(2) room by (auto simp: steim_decode_def Let_def dec)
qed

text \<open>
  Capacity: an encoder that does not run out of room packs every sample, and one that
  does has filled every frame and packed at least 15 samples per frame, less the two
  words the integration constants take.
\<close>

theorem encode_capacity:
  assumes "steim_encode n pack input m output outputlength d sw = Inr r"
    and "0 < m" "64 \<le> outputlength"
  shows "min m (15 * (outputlength div 64) - 2) \<le> er_samples r \<and> er_samples r \<le> m"
  using steim_encode_carries [OF assms] by auto

end

interpretation steim1: steim_codec 4 "steim1_pack h sw" "steim1_word_diffs h sw"
  by unfold_locales (use steim1_pack_law in \<open>auto simp: steim1_word_diffs_def\<close>)

interpretation steim2: steim_codec 7 "steim2_pack h sw" "steim2_word_diffs h sw"
  by unfold_locales (use steim2_pack_law in \<open>auto simp: steim2_word_diffs_def\<close>)

end
