(* ===== verification/SteimByteOrder.thy ===== *)
theory SteimByteOrder
  imports SteimRoundtrip
begin

text \<open>
  The bytes an encoder writes do not depend on the host: a little-endian host that swaps
  and a big-endian host that does not leave the same bytes in memory. The interface is
  a pair of packers, one per host, that differ by the byte swap of the packed word.
\<close>

lemma d8_ext:
  assumes "\<And>i. i < 4 \<Longrightarrow> get_d8 h v i = get_d8 h w i"
  shows "v = w"
  by (rule u32_bytes_inj [of h]) (simp add: u32_bytes_def assms)

lemma get_d8_LE_gswap4: "i < 4 \<Longrightarrow> get_d8 LittleEndian (ms_gswap4 w) i = get_d8 BigEndian w i"
  by (simp add: get_d8_gswap4 get_d8_other)

lemma get_d16_LE_gswap4:
  assumes "i < 2"
  shows "get_d16 LittleEndian (ms_gswap4 w) i = ms_gswap2 (get_d16 BigEndian w i)"
proof (rule bit_word_eqI)
  fix n assume "n < LENGTH(16)"
  then have n: "n < 16" by simp
  from assms have "i = 0 \<or> i = 1" by auto
  then show "bit (get_d16 LittleEndian (ms_gswap4 w) i) n = bit (ms_gswap2 (get_d16 BigEndian w i)) n"
    using n by (auto simp: get_d16_bit ms_gswap2_bit ms_gswap4_bit d16_shift_def add.commute)
qed

lemma d16_ext:
  assumes "get_d16 LittleEndian v 0 = get_d16 LittleEndian w 0" "get_d16 LittleEndian v 1 = get_d16 LittleEndian w 1"
  shows "v = w"
proof (rule bit_word_eqI)
  fix n assume "n < LENGTH(32)"
  then have n: "n < 32" by simp
  have "bit (get_d16 LittleEndian v (n div 16)) (n mod 16) = bit (get_d16 LittleEndian w (n div 16)) (n mod 16)"
  proof (cases "n < 16")
    case False
    with n have "n div 16 = 1" by simp
    then show ?thesis using assms by simp
  qed (use assms in simp)
  then show "bit v n = bit w n"
    by (simp add: get_d16_bit d16_shift_def)
qed

text \<open>A frame seen from the other host while its nibbles are not yet swapped.\<close>

definition other_host :: "u32 list \<Rightarrow> u32 list" where
  "other_host g = (map ms_gswap4 g)[0 := g ! 0]"

definition swap_packed :: "(u32 \<times> u32 \<times> nat) result \<Rightarrow> (u32 \<times> u32 \<times> nat) result" where
  "swap_packed r = (case r of Inl e \<Rightarrow> Inl e | Inr (w, nib, p) \<Rightarrow> Inr (ms_gswap4 w, nib, p))"

lemma steim_words_length:
  "steim_words n pack input m widx st g = Inr (st', g') \<Longrightarrow> length g' = length g"
proof (induction "16 - widx" arbitrary: widx st g)
  case 0
  then show ?case by (simp add: steim_words.simps)
next
  case (Suc c)
  from Suc.hyps(2) have "c = 16 - Suc widx" by simp
  note IH = Suc.hyps(1) [OF this]
  show ?case
    using Suc.prems by (subst (asm) steim_words.simps) (auto simp: Let_def dest!: IH split: sum.splits if_splits)
qed

locale host_pair =
  fixes n :: nat and packL :: packer and packB :: packer
  assumes pair: "packL d bw dc (ms_gswap4 w0) = swap_packed (packB d bw dc w0)"
begin

lemma steim_words_pair:
  assumes "0 < widx" "length g = 16"
  shows "steim_words n packL input m widx st (other_host g) =
     (case steim_words n packB input m widx st g of
        Inl e \<Rightarrow> Inl e | Inr (st', g') \<Rightarrow> Inr (st', other_host g'))"
  using assms
proof (induction "16 - widx" arbitrary: widx st g)
  case 0
  then show ?case by (simp add: steim_words.simps)
next
  case (Suc c)
  define st1 where "st1 = refill n input m st"
  define g2 where "g2 w nib = g[widx := w, 0 := g ! 0 OR push_bit (30 - 2 * widx) nib]" for w nib
  have w16: "widx < 16" using Suc.hyps(2) by simp
  have hg: "(other_host g)[widx := ms_gswap4 w, 0 := other_host g ! 0 OR push_bit (30 - 2 * widx) nib] =
      other_host (g2 w nib)" for w nib
    using Suc.prems w16 by (intro nth_equalityI) (auto simp: other_host_def g2_def nth_list_update)
  have gw: "other_host g ! widx = ms_gswap4 (g ! widx)"
    using Suc.prems w16 by (simp add: other_host_def)
  have IH: "steim_words n packL input m (Suc widx) st' (other_host (g2 w nib)) =
     (case steim_words n packB input m (Suc widx) st' (g2 w nib) of
        Inl e \<Rightarrow> Inl e | Inr (st', g') \<Rightarrow> Inr (st', other_host g'))" for st' w nib
    using Suc.hyps(2) Suc.prems by (intro Suc.hyps(1)) (auto simp: g2_def)
  show ?case
  proof (cases "outputsamples st < m")
    case True
    show ?thesis
      using True w16 IH
      by (subst (1 2) steim_words.simps)
        (auto simp: Let_def swap_packed_def gw pair hg g2_def [symmetric] split: sum.splits)
  qed (simp add: steim_words.simps)
qed

lemma steim_frames_pair:
  "steim_frames n packL True input m maxframes fi st (map ms_gswap4 out) =
     (case steim_frames n packB False input m maxframes fi st out of
        Inl e \<Rightarrow> Inl e | Inr (fi', st', out') \<Rightarrow> Inr (fi', st', map ms_gswap4 out'))"
proof (induction "maxframes - fi" arbitrary: fi st out)
  case 0
  then show ?case by (simp add: steim_frames.simps)
next
  case (Suc c)
  show ?case
  proof (cases "outputsamples st < m")
    case True
    have fi: "fi < maxframes" using Suc.hyps(2) by simp
    define g where "g = (if fi = 0 then (replicate 16 0)[1 := input ! 0] else replicate 16 (0 :: u32))"
    define w where "w = (if fi = 0 then 3 else 1 :: nat)"
    have start: "(if fi = 0 then (replicate 16 0)[1 := ms_gswap4 (input ! 0)] else replicate 16 0) = other_host g"
      by (intro nth_equalityI) (auto simp: g_def other_host_def nth_list_update)
    have swp: "(other_host g')[0 := ms_gswap4 (other_host g' ! 0)] = map ms_gswap4 g'" if "length g' = 16" for g'
      using that by (intro nth_equalityI) (auto simp: other_host_def nth_list_update)
    have w0: "0 < w" "length g = 16" by (simp_all add: w_def g_def)
    note words = steim_words_pair [OF w0]
    show ?thesis
    proof (cases "steim_words n packB input m w st g")
      case (Inl e)
      then have "steim_words n packL input m w st (other_host g) = Inl e" using words by simp
      with Inl show ?thesis
        using True fi start [symmetric]
        by (subst (1 2) steim_frames.simps) (simp add: Let_def g_def w_def swap4_if_def cong: if_cong)
    next
      case (Inr r)
      obtain st' g' where r: "r = (st', g')" by (cases r)
      have L: "steim_words n packL input m w st (other_host g) = Inr (st', other_host g')"
        using words Inr r by simp
      have len: "length g' = 16" using steim_words_length Inr r w0 by fastforce
      have "steim_frames n packL True input m maxframes fi st (map ms_gswap4 out) =
          steim_frames n packL True input m maxframes (Suc fi) st' (map ms_gswap4 (out @ g'))"
        using True fi L start [symmetric] swp [OF len]
        by (subst steim_frames.simps) (simp add: Let_def w_def swap4_if_def cong: if_cong)
      moreover have "steim_frames n packB False input m maxframes fi st out =
          steim_frames n packB False input m maxframes (Suc fi) st' (out @ g')"
        using True fi Inr r
        by (subst steim_frames.simps) (simp add: Let_def w_def g_def swap4_if_def cong: if_cong)
      ultimately show ?thesis using Suc.hyps(1) [of "Suc fi" st' "out @ g'"] Suc.hyps(2) by simp
    qed
  qed (simp add: steim_frames.simps)
qed

lemma steim_frames_progress:
  "steim_frames n pack sw input m maxframes fi st out = Inr (fi', st', out') \<Longrightarrow> fi \<le> fi'"
proof (induction "maxframes - fi" arbitrary: fi st out)
  case 0
  then show ?case by (simp add: steim_frames.simps)
next
  case (Suc c)
  from Suc.hyps(2) have "c = maxframes - Suc fi" by simp
  note IH = Suc.hyps(1) [OF this]
  show ?case
    using Suc.prems by (subst (asm) steim_frames.simps) (auto simp: Let_def dest!: IH split: sum.splits if_splits)
qed

lemma steim_frames_nonempty:
  assumes "steim_frames n pack sw input m maxframes 0 st out = Inr (fi', st', out')"
    "0 < maxframes" "outputsamples st < m"
  shows "0 < fi'"
  using assms by (subst (asm) steim_frames.simps)
    (auto simp: Let_def dest!: steim_frames_progress split: sum.splits)

text \<open>
  The whole encoder: from buffers that hold the same bytes both hosts report the same
  samples and leave the same bytes.
\<close>

theorem steim_encode_pair:
  assumes "0 < m" "64 \<le> outputlength" "steim_encode n packB input m output outputlength d False = Inr r"
  shows "\<exists>r'. steim_encode n packL input m (map ms_gswap4 output) outputlength d True = Inr r' \<and>
     er_samples r' = er_samples r \<and> er_byteswritten r' = er_byteswritten r \<and>
     words_bytes LittleEndian (er_output r') = words_bytes BigEndian (er_output r)"
proof -
  obtain fi st out where B: "steim_frames n packB False input m (outputlength div 64) 0 (enc_init n d) [] = Inr (fi, st, out)"
    using assms(3) by (auto simp: steim_encode_def split: sum.splits)
  then have L: "steim_frames n packL True input m (outputlength div 64) 0 (enc_init n d) [] =
      Inr (fi, st, map ms_gswap4 out)"
    using steim_frames_pair [of input m "outputlength div 64" 0 "enc_init n d" "[]"] by simp
  have fi: "0 < fi"
    using steim_frames_nonempty [OF B] assms(1,2) by (auto simp: enc_init_def)
  have swap: "words_bytes LittleEndian (map ms_gswap4 ws) = words_bytes BigEndian ws" for ws
    by (induction ws) (simp_all add: words_bytes_def u32_bytes_swap_host)
  let ?X = "input ! (outputsamples st - 1)"
  have r: "r = \<lparr>er_samples = outputsamples st, er_output = out[2 := ?X] @ drop (length out) output,
              er_byteswritten = Some (of_nat (fi * 64))\<rparr>"
    using assms(3) fi by (simp add: steim_encode_def B Let_def swap4_if_def)
  have "map ms_gswap4 (out[2 := ?X] @ drop (length out) output) =
      (map ms_gswap4 out)[2 := ms_gswap4 ?X] @ drop (length (map ms_gswap4 out)) (map ms_gswap4 output)"
    by (simp add: map_update drop_map)
  then show ?thesis
    using fi swap [of "out[2 := ?X] @ drop (length out) output"]
    by (simp add: steim_encode_def L Let_def swap4_if_def r)
qed

end

subsection \<open>The two packers on the two hosts\<close>

lemma put4_d8_pair: "put4_d8 LittleEndian d (ms_gswap4 w0) = ms_gswap4 (put4_d8 BigEndian d w0)"
proof (rule d8_ext [of LittleEndian])
  fix i :: nat assume i: "i < 4"
  show "get_d8 LittleEndian (put4_d8 LittleEndian d (ms_gswap4 w0)) i =
      get_d8 LittleEndian (ms_gswap4 (put4_d8 BigEndian d w0)) i"
    using less_4_cases [OF i] by (auto simp: get_d8_LE_gswap4 put4_d8_def get_put_d8)
qed

lemma put2_d16_pair:
  "(let w = put_d16 LittleEndian 1 b (put_d16 LittleEndian 0 a v);
        w = put_d16 LittleEndian 0 (ms_gswap2 (get_d16 LittleEndian w 0)) w
    in put_d16 LittleEndian 1 (ms_gswap2 (get_d16 LittleEndian w 1)) w) =
   ms_gswap4 (put_d16 BigEndian 1 b (put_d16 BigEndian 0 a u))"
  by (rule d16_ext) (simp_all add: Let_def get_put_d16 get_d16_LE_gswap4)

interpretation steim1_hosts: host_pair 4 "steim1_pack LittleEndian True" "steim1_pack BigEndian False"
proof unfold_locales
  fix d bw dc w0
  show "steim1_pack LittleEndian True d bw dc (ms_gswap4 w0) = swap_packed (steim1_pack BigEndian False d bw dc w0)"
    using put4_d8_pair [of d w0, unfolded put4_d8_def] put2_d16_pair [of "ucast (d ! 1)" "ucast (d ! 0)" "ms_gswap4 w0" w0]
    by (simp add: steim1_pack_def swap_packed_def Let_def swap4_if_def)
qed

interpretation steim2_hosts: host_pair 7 "steim2_pack LittleEndian True" "steim2_pack BigEndian False"
proof unfold_locales
  fix d bw dc w0
  show "steim2_pack LittleEndian True d bw dc (ms_gswap4 w0) = swap_packed (steim2_pack BigEndian False d bw dc w0)"
    using put4_d8_pair [of d w0, unfolded put4_d8_def]
    by (simp add: steim2_pack_def steim2_word_def swap_packed_def Let_def)
qed

end
