(* ===== verification/SteimCodec.thy ===== *)
theory SteimCodec
  imports SteimByteOrder
begin

text \<open>
  Properties of the Steim codecs: the round trips, when the encoders succeed and how
  much they pack, the bounds of the arrays the decoders write, and the byte order of
  what the encoders write.
\<close>

subsection \<open>When an encoder succeeds\<close>

locale steim_total = steim_codec +
  fixes limit :: nat
  assumes pack_total: "buffered d bw dc \<Longrightarrow> dc \<le> n \<Longrightarrow> bw ! 0 \<le> limit \<Longrightarrow>
      \<exists>w nib p. pack d bw dc w0 = Inr (w, nib, p)"
begin

lemma refilled_pack_total:
  assumes "enc_inv n (all_diffs d input m) st" "0 < m" "outputsamples st < m"
    and "\<And>x. x \<in> set (all_diffs d input m) \<Longrightarrow> bitwidth_of x \<le> limit"
  shows "\<exists>w nib p. pack (diffs (refill n input m st)) (bitwidth (refill n input m st))
           (diffcount (refill n input m st)) w0 = Inr (w, nib, p)"
proof -
  define st1 where "st1 = refill n input m st"
  note r = refill_ready [OF assms(1,2), folded st1_def]
  have o1: "outputsamples st1 < length (all_diffs d input m)" using r assms by simp
  have n0: "0 < n" using window by simp
  note b = ready_buffered [OF r(1) o1 n0]
  have "bitwidth st1 ! 0 = bitwidth_of (all_diffs d input m ! outputsamples st1)"
    using r(1) b(1) by (auto simp: ready_def holds_def buffered_def)
  then have "bitwidth st1 ! 0 \<le> limit" using assms(4) o1 by simp
  then show ?thesis using pack_total [OF b(1,2)] by (simp add: st1_def)
qed

lemma steim_words_total:
  assumes "enc_inv n (all_diffs d input m) st" "0 < m"
    and "\<And>x. x \<in> set (all_diffs d input m) \<Longrightarrow> bitwidth_of x \<le> limit"
  shows "\<exists>r. steim_words n pack input m widx st frame = Inr r"
  using assms
proof (induction "16 - widx" arbitrary: widx st frame)
  case 0
  then show ?case by (subst steim_words.simps) simp
next
  case (Suc c)
  show ?case
  proof (cases "outputsamples st < m")
    case True
    define st1 where "st1 = refill n input m st"
    obtain w nib p where pk: "pack (diffs st1) (bitwidth st1) (diffcount st1) (frame ! widx) = Inr (w, nib, p)"
      using refilled_pack_total [OF Suc.prems(1,2) True Suc.prems(3)] unfolding st1_def by blast
    note pw = packed_word [OF Suc.prems(1,2) True st1_def pk refl]
    have "\<exists>r. steim_words n pack input m (Suc widx) (st1\<lparr>packedsamples := p,
        diffcount := diffcount st1 - p, outputsamples := outputsamples st1 + p\<rparr>) f = Inr r" for f
      using Suc.hyps(2) pw(3) Suc.prems(2,3) by (intro Suc.hyps(1)) auto
    then show ?thesis
      using True Suc.hyps(2) pk by (subst steim_words.simps) (simp add: Let_def st1_def)
  qed (simp add: steim_words.simps)
qed

lemma steim_frames_total:
  assumes "enc_inv n (all_diffs d input m) st" "0 < m"
    and "\<And>x. x \<in> set (all_diffs d input m) \<Longrightarrow> bitwidth_of x \<le> limit"
  shows "\<exists>r. steim_frames n pack sw input m maxframes fi st out = Inr r"
  using assms
proof (induction "maxframes - fi" arbitrary: fi st out)
  case 0
  then show ?case by (subst steim_frames.simps) simp
next
  case (Suc c)
  show ?case
  proof (cases "outputsamples st < m")
    case True
    define frame where "frame = (if fi = 0 then (replicate 16 0)[1 := swap4_if sw (input ! 0)] else replicate 16 (0 :: u32))"
    obtain st1 fr1 where w: "steim_words n pack input m (if fi = 0 then 3 else 1) st frame = Inr (st1, fr1)"
      using steim_words_total [OF Suc.prems(1,2,3), of "if fi = 0 then 3 else 1" frame] by auto
    have "\<exists>k. words_done (all_diffs d input m) m (if fi = 0 then 3 else 1) st frame st1 fr1 k"
      by (rule steim_words_correct [OF w Suc.prems(1,2)]) (auto simp: frame_def)
    then have "enc_inv n (all_diffs d input m) st1" by (auto simp: words_done_def)
    then have "\<exists>r. steim_frames n pack sw input m maxframes (Suc fi) st1 out' = Inr r" for out'
      using Suc.hyps(2) Suc.prems(2,3) by (intro Suc.hyps(1)) auto
    then show ?thesis
      using True Suc.hyps(2) w by (subst steim_frames.simps) (simp add: Let_def frame_def split: if_splits)
  qed (simp add: steim_frames.simps)
qed

lemma steim_encode_total:
  assumes "0 < m" "64 \<le> outputlength"
    and "\<And>x. x \<in> set (all_diffs d input m) \<Longrightarrow> bitwidth_of x \<le> limit"
  shows "\<exists>r. steim_encode n pack input m output outputlength d sw = Inr r"
proof -
  have "\<exists>r. steim_frames n pack sw input m (outputlength div 64) 0 (enc_init n d) [] = Inr r"
    by (rule steim_frames_total [OF enc_inv_init [OF window assms(1)] assms(1,3)])
  then obtain fi st out where f: "steim_frames n pack sw input m (outputlength div 64) 0 (enc_init n d) [] = Inr (fi, st, out)"
    by auto
  have "0 < fi"
  proof (rule ccontr)
    assume "\<not> 0 < fi"
    moreover from steim_frames_correct [OF f frames_inv_init [OF assms(1)] assms(1)]
    obtain chunks where "frames_inv sw input (all_diffs d input m) fi st out chunks"
      "fi = outputlength div 64 \<or> outputsamples st = m" by auto
    ultimately have "concat [] = take m (all_diffs d input m)"
      using assms(2) by (auto simp: frames_inv_def)
    then show False using assms(1) by (simp add: all_diffs_def)
  qed
  then show ?thesis by (simp add: steim_encode_def f Let_def)
qed

end

lemma bitwidth_le_32: "bitwidth_of d \<le> 32"
  by (simp add: bitwidth_of_def)

interpretation steim1_total: steim_total 4 "steim1_pack h sw" "steim1_word_diffs h sw" 32
  by unfold_locales (rule steim1_pack_total)

interpretation steim2_total: steim_total 7 "steim2_pack h sw" "steim2_word_diffs h sw" 30
proof unfold_locales
  fix d bw dc w0
  assume "buffered d bw dc" "bw ! 0 \<le> 30"
  then show "\<exists>w nib p. steim2_pack h sw d bw dc w0 = Inr (w, nib, p)"
    using steim2_pack_fails_iff [of d bw dc h sw w0]
    by (cases "steim2_pack h sw d bw dc w0") auto
qed

subsection \<open>Properties: round trip and capacity\<close>

text \<open>
  C7. Decoding what the Steim1 encoder wrote gives back the samples it says it wrote,
  with no integrity warning, on either kind of host and with or without swapping,
  whatever the first difference handed to the encoder was and however much of the input
  fitted the buffer.
\<close>

theorem steim1_roundtrip:
  assumes "msr_encode_steim1 h (Some input) n (Some output) outputlength diff0 sw = Inr r"
    and "0 < n" "n \<le> length input" "64 \<le> outputlength"
    and "64 * (outputlength div 64) \<le> inputlength" "4 * er_samples r \<le> decoderlength"
  shows "msr_decode_steim1 h (Some (er_output r)) inputlength (er_samples r) True decoderlength sw =
         Inr \<lparr>dr_output = take (er_samples r) input, dr_warned = False\<rparr>"
proof -
  have "steim_encode 4 (steim1_pack h sw) input n output outputlength diff0 sw = Inr r"
    using assms(1,2,4) by (simp add: msr_encode_steim1_def)
  from steim1.encode_decode [OF this assms(2-6)] show ?thesis by (simp add: msr_decode_steim1_def)
qed

theorem steim1_roundtrip_witness:
  "msr_decode_steim1 LittleEndian
     (Some [49154, 16777216, 67108864, 16777216, 33554432, 0, 0, 0, 0, 0, 0, 0, 0, 0, 0, 0])
     64 3 True 12 True = Inr \<lparr>dr_output = [1, 2, 4], dr_warned = False\<rparr>"
proof -
  have "msr_encode_steim1 LittleEndian (Some [1, 2, 4]) 3 (Some (replicate 16 0)) 64 0 True =
    Inr \<lparr>er_samples = 3,
         er_output = [49154, 16777216, 67108864, 16777216, 33554432, 0, 0, 0, 0, 0, 0, 0, 0, 0, 0, 0],
         er_byteswritten = Some 64\<rparr>" by code_simp
  from steim1_roundtrip [OF this, of 64 12] show ?thesis by simp
qed

text \<open>
  C8. The same for Steim2: whenever the encoder succeeds, the decoder gives back the
  samples it wrote.
\<close>

theorem steim2_roundtrip:
  assumes "msr_encode_steim2 h (Some input) n (Some output) outputlength diff0 sw = Inr r"
    and "0 < n" "n \<le> length input" "64 \<le> outputlength"
    and "64 * (outputlength div 64) \<le> inputlength" "4 * er_samples r \<le> decoderlength"
  shows "msr_decode_steim2 h (Some (er_output r)) inputlength (er_samples r) True decoderlength sw =
         Inr \<lparr>dr_output = take (er_samples r) input, dr_warned = False\<rparr>"
proof -
  have "steim_encode 7 (steim2_pack h sw) input n output outputlength diff0 sw = Inr r"
    using assms(1,2,4) by (simp add: msr_encode_steim2_def)
  from steim2.encode_decode [OF this assms(2-6)] show ?thesis by (simp add: msr_decode_steim2_def)
qed

theorem steim2_roundtrip_witness:
  "\<exists>r. msr_encode_steim2 LittleEndian (Some [1, 2, 4]) 3 (Some (replicate 16 0)) 64 0 True = Inr r \<and>
     msr_decode_steim2 LittleEndian (Some (er_output r)) 64 3 True 12 True =
     Inr \<lparr>dr_output = [1, 2, 4], dr_warned = False\<rparr>"
proof -
  have "msr_encode_steim2 LittleEndian (Some [1, 2, 4]) 3 (Some (replicate 16 0)) 64 0 True =
    Inr \<lparr>er_samples = 3,
         er_output = [2, 16777216, 67108864, 33816768, 0, 0, 0, 0, 0, 0, 0, 0, 0, 0, 0, 0],
         er_byteswritten = Some 64\<rparr>" by code_simp
  from this and steim2_roundtrip [OF this, of 64 12] show ?thesis by simp
qed

text \<open>
  C23. Given at least one frame of room, the Steim1 encoder never fails, never reports
  more samples than asked for, and packs all of them or at least 15 per frame less 2.
\<close>

theorem steim1_encode_capacity:
  assumes "0 < n" "64 \<le> outputlength"
  shows "\<exists>r. msr_encode_steim1 h (Some input) n (Some output) outputlength diff0 sw = Inr r \<and>
     min n (15 * (outputlength div 64) - 2) \<le> er_samples r \<and> er_samples r \<le> n"
proof -
  obtain r where r: "steim_encode 4 (steim1_pack h sw) input n output outputlength diff0 sw = Inr r"
    using steim1_total.steim_encode_total [OF assms] bitwidth_le_32 by blast
  then show ?thesis
    using steim1.encode_capacity [OF r assms] assms by (auto simp: msr_encode_steim1_def)
qed

theorem steim1_encode_capacity_witness:
  "\<exists>r. msr_encode_steim1 BigEndian (Some [7]) 1 (Some [0]) 64 0 False = Inr r \<and>
     min 1 (15 * (64 div 64) - 2) \<le> er_samples r \<and> er_samples r \<le> 1"
  by (rule steim1_encode_capacity) simp_all

text \<open>
  C22. The Steim2 encoder succeeds, with the same capacity, on every input whose
  differences (the given first one and those between neighbours) fit 30 bits.
\<close>

theorem steim2_encode_capacity:
  assumes "0 < n" "64 \<le> outputlength"
    and "bitwidth_of diff0 \<le> 30"
    and "\<forall>i. Suc i < n \<longrightarrow> bitwidth_of (input ! Suc i - input ! i) \<le> 30"
  shows "\<exists>r. msr_encode_steim2 h (Some input) n (Some output) outputlength diff0 sw = Inr r \<and>
     min n (15 * (outputlength div 64) - 2) \<le> er_samples r \<and> er_samples r \<le> n"
proof -
  have "bitwidth_of x \<le> 30" if "x \<in> set (all_diffs diff0 input n)" for x
    using that assms(3,4) by (auto simp: all_diffs_def)
  then obtain r where r: "steim_encode 7 (steim2_pack h sw) input n output outputlength diff0 sw = Inr r"
    using steim2_total.steim_encode_total [OF assms(1,2)] by blast
  then show ?thesis
    using steim2.encode_capacity [OF r assms(1,2)] assms by (auto simp: msr_encode_steim2_def)
qed

theorem steim2_encode_capacity_witness:
  "\<exists>r. msr_encode_steim2 BigEndian (Some [7, 9]) 2 (Some [0]) 64 0 False = Inr r \<and>
     min 2 (15 * (64 div 64) - 2) \<le> er_samples r \<and> er_samples r \<le> 2"
  by (rule steim2_encode_capacity) (auto simp: bitwidth_of_def)

subsection \<open>Properties: the bytes written\<close>

text \<open>
  C24. A little-endian host that swaps and a big-endian host that does not leave the same
  Steim1 bytes, from buffers that held the same bytes.
\<close>

theorem steim1_host_independent:
  assumes "0 < n" "64 \<le> outputlength"
    and "msr_encode_steim1 BigEndian (Some input) n (Some output) outputlength diff0 False = Inr r"
  shows "\<exists>r'. msr_encode_steim1 LittleEndian (Some input) n (Some (map ms_gswap4 output)) outputlength diff0 True = Inr r' \<and>
     er_samples r' = er_samples r \<and> er_byteswritten r' = er_byteswritten r \<and>
     words_bytes LittleEndian (er_output r') = words_bytes BigEndian (er_output r)"
proof -
  have "steim_encode 4 (steim1_pack BigEndian False) input n output outputlength diff0 False = Inr r"
    using assms by (simp add: msr_encode_steim1_def)
  from steim1_hosts.steim_encode_pair [OF assms(1,2) this] show ?thesis
    using assms(1,2) by (simp add: msr_encode_steim1_def)
qed

theorem steim1_host_independent_witness:
  "\<exists>r r'. msr_encode_steim1 BigEndian (Some [7]) 1 (Some []) 64 0 False = Inr r \<and>
     msr_encode_steim1 LittleEndian (Some [7]) 1 (Some (map ms_gswap4 [])) 64 0 True = Inr r' \<and>
     words_bytes LittleEndian (er_output r') = words_bytes BigEndian (er_output r)"
proof -
  have "msr_encode_steim1 BigEndian (Some [7]) 1 (Some []) 64 0 False =
    Inr \<lparr>er_samples = 1, er_output = [50331648, 7, 7, 0, 0, 0, 0, 0, 0, 0, 0, 0, 0, 0, 0, 0],
         er_byteswritten = Some 64\<rparr>" by code_simp
  from this and steim1_host_independent [OF _ _ this] show ?thesis by auto
qed

text \<open>The same for Steim2.\<close>

theorem steim2_host_independent:
  assumes "0 < n" "64 \<le> outputlength"
    and "msr_encode_steim2 BigEndian (Some input) n (Some output) outputlength diff0 False = Inr r"
  shows "\<exists>r'. msr_encode_steim2 LittleEndian (Some input) n (Some (map ms_gswap4 output)) outputlength diff0 True = Inr r' \<and>
     er_samples r' = er_samples r \<and> er_byteswritten r' = er_byteswritten r \<and>
     words_bytes LittleEndian (er_output r') = words_bytes BigEndian (er_output r)"
proof -
  have "steim_encode 7 (steim2_pack BigEndian False) input n output outputlength diff0 False = Inr r"
    using assms by (simp add: msr_encode_steim2_def)
  from steim2_hosts.steim_encode_pair [OF assms(1,2) this] show ?thesis
    using assms(1,2) by (simp add: msr_encode_steim2_def)
qed

theorem steim2_host_independent_witness:
  "\<exists>r r'. msr_encode_steim2 BigEndian (Some [5, -7]) 2 (Some []) 64 0 False = Inr r \<and>
     msr_encode_steim2 LittleEndian (Some [5, -7]) 2 (Some (map ms_gswap4 [])) 64 0 True = Inr r' \<and>
     words_bytes LittleEndian (er_output r') = words_bytes BigEndian (er_output r)"
proof -
  have "msr_encode_steim2 BigEndian (Some [5, -7]) 2 (Some []) 64 0 False =
    Inr \<lparr>er_samples = 2, er_output = [33554432, 5, 4294967289, 2147516404, 0, 0, 0, 0, 0, 0, 0, 0, 0, 0, 0, 0],
         er_byteswritten = Some 64\<rparr>" by code_simp
  from this and steim2_host_independent [OF _ _ this] show ?thesis by auto
qed

subsection \<open>Properties: bounds of the decoders\<close>

lemma frame_diffs_length:
  assumes "\<And>nib w ds. word_diffs nib w = Inr ds \<Longrightarrow> length ds \<le> k"
  shows "frame_diffs word_diffs frame widx = Inr ds \<Longrightarrow> length ds \<le> k * (16 - widx)"
proof (induction "16 - widx" arbitrary: widx ds)
  case 0
  then show ?case by (simp add: frame_diffs.simps)
next
  case (Suc c)
  from Suc.hyps(2) have "c = 16 - Suc widx" by simp
  note IH = Suc.hyps(1) [OF this]
  have "widx < 16" using Suc.hyps(2) by simp
  with Suc.prems obtain d1 d2 where d: "ds = d1 @ d2" "word_diffs (nibble (frame ! 0) widx) (frame ! widx) = Inr d1"
      "frame_diffs word_diffs frame (Suc widx) = Inr d2"
    by (subst (asm) frame_diffs.simps) (auto split: sum.splits)
  have "length ds \<le> k + k * (16 - Suc widx)" using assms [OF d(2)] IH [OF d(3)] d(1) by simp
  also have "\<dots> = k * Suc (16 - Suc widx)" by simp
  also have "Suc (16 - Suc widx) = 16 - widx" using \<open>widx < 16\<close> by simp
  finally show ?case .
qed

lemma steim1_word_diffs_length: "steim1_word_diffs h sw nib w = Inr ds \<Longrightarrow> length ds \<le> 4"
  by (auto simp: steim1_word_diffs_def split: if_splits)

lemma steim2_word_diffs_length: "steim2_word_diffs h sw nib w = Inr ds \<Longrightarrow> length ds \<le> 7"
  by (auto simp: steim2_word_diffs_def Let_def split: if_splits)

text \<open>
  C25. Whatever the 64 bytes of a frame are, the differences decoded from it fit the
  arrays \<open>diff[60]\<close> of the Steim1 decoder and \<open>diff[105]\<close> of the Steim2 decoder.
\<close>

theorem steim_diff_array_bounds:
  "(frame_diffs (steim1_word_diffs h sw) frame 1 = Inr ds \<longrightarrow> length ds \<le> 60) \<and>
   (frame_diffs (steim2_word_diffs h sw) frame 1 = Inr ds \<longrightarrow> length ds \<le> 105)"
proof (intro conjI impI)
  show "length ds \<le> 60" if "frame_diffs (steim1_word_diffs h sw) frame 1 = Inr ds"
    using frame_diffs_length [OF steim1_word_diffs_length that] by simp
  show "length ds \<le> 105" if "frame_diffs (steim2_word_diffs h sw) frame 1 = Inr ds"
    using frame_diffs_length [OF steim2_word_diffs_length that] by simp
qed

theorem steim_diff_array_bounds_witness:
  "frame_diffs (steim1_word_diffs LittleEndian False) (0x15555555 # replicate 15 0) 1 = Inr (replicate 60 0) \<and>
   length (replicate 60 (0 :: i32)) \<le> 60"
proof -
  have "frame_diffs (steim1_word_diffs LittleEndian False) (0x15555555 # replicate 15 0) 1 = Inr (replicate 60 0)"
    by code_simp
  with steim_diff_array_bounds show ?thesis by blast
qed

lemma apply_diffs_bound: "length out \<le> m \<Longrightarrow> length (apply_diffs m ds out) \<le> m"
  by (induction m ds out rule: apply_diffs.induct) auto

lemma decode_frames_bound:
  "decode_frames wd sw ws mf m fi out Xn = Inr (out', Xn') \<Longrightarrow> length out \<le> m \<Longrightarrow> length out' \<le> m"
proof (induction "mf - fi" arbitrary: fi out Xn)
  case 0
  then show ?case by (simp add: decode_frames.simps)
next
  case (Suc c)
  from Suc.hyps(2) have "c = mf - Suc fi" by simp
  note IH = Suc.hyps(1) [OF this]
  show ?case
  proof (cases "length out < m")
    case True
    then obtain ds out2 Xn2 where
      "decode_frames wd sw ws mf m (Suc fi) (apply_diffs m ds out2) Xn2 = Inr (out', Xn')" "length out2 \<le> m"
      using Suc.prems Suc.hyps(2)
      by (subst (asm) decode_frames.simps) (force simp: Let_def Suc_le_eq split: sum.splits if_splits)
    then show ?thesis by (blast intro: IH apply_diffs_bound)
  next
    case False
    with Suc.prems show ?thesis by (subst (asm) decode_frames.simps) simp
  qed
qed

lemma steim_decode_bounds:
  assumes "steim_decode wd input inputlength n given outputlength sw = Inr r"
  shows "length (dr_output r) \<le> n" "64 \<le> inputlength \<Longrightarrow> n * 4 mod 2 ^ 64 \<le> outputlength"
proof -
  show "64 \<le> inputlength \<Longrightarrow> n * 4 mod 2 ^ 64 \<le> outputlength"
    using assms by (auto simp: steim_decode_def Let_def not_less split: if_splits option.splits)
  show "length (dr_output r) \<le> n"
  proof (cases "inputlength div 64 = 0")
    case True
    with assms show ?thesis by (auto simp: steim_decode_def)
  next
    case False
    with assms obtain inp out Xn where
      d: "decode_frames wd sw inp (inputlength div 64) n 0 [] 0 = Inr (out, Xn)" and r: "dr_output r = out"
      unfolding steim_decode_def Let_def
      by (auto split: if_splits option.splits sum.splits)
    show ?thesis using decode_frames_bound [OF d] r by simp
  qed
qed

text \<open>A frame of differences in whole words makes thirteen samples, as far as they are wanted.\<close>

definition long_frame :: "u32 list" where
  "long_frame = 0x03FFFFFF # replicate 15 0"

lemma apply_diffs_length: "length out \<le> n \<Longrightarrow> length (apply_diffs n ds out) = min n (length out + length ds)"
  by (induction n ds out rule: apply_diffs.induct) auto

lemma long_frame_overrun:
  assumes "m = 2 ^ 62 + 1"
  shows "\<exists>r. msr_decode_steim1 h (Some long_frame) 64 m True 4 False = Inr r \<and> length (dr_output r) = 13"
proof -
  have f: "frame_diffs (steim1_word_diffs h False) long_frame 3 = Inr (replicate 13 0)" by code_simp
  have frame: "length long_frame = 16" "long_frame ! 1 = 0" "long_frame ! 2 = 0"
    "long_frame[1 := 0, 2 := 0] = long_frame" "long_frame[0 := long_frame ! 0] = long_frame"
    by code_simp+
  have big: "13 \<le> m" using assms by simp
  obtain out where out: "decode_frames (steim1_word_diffs h False) False long_frame 1 m 0 [] 0 = Inr (out, 0)" "length out = 13"
  proof (rule that)
    let ?out = "apply_diffs m (drop 1 (replicate 13 0)) [0]"
    show "decode_frames (steim1_word_diffs h False) False long_frame 1 m 0 [] 0 = Inr (?out, 0)"
      using f frame big by (subst decode_frames.simps) (simp add: Let_def swap4_if_def, simp add: decode_frames.simps)
    show "length ?out = 13" using big by (subst apply_diffs_length) simp_all
  qed
  have "m * 4 mod 2 ^ 64 = 4" unfolding assms by simp
  moreover have "length out \<noteq> m" using out(2) assms by simp
  ultimately show ?thesis using out by (simp add: msr_decode_steim1_def steim_decode_def Let_def)
qed

text \<open>
  C26. A Steim decoder that returns has stored at most as many samples as it was asked for,
  for any input bytes, corrupt ones included, and none behind its output buffer if it was asked for
  less than 2 to the 62. From there on the size it checks the buffer against wraps, and the
  Steim1 decoder stores behind a buffer of one sample.
\<close>

theorem steim_decode_output_bounds:
  assumes "msr_decode_steim1 h input inputlength n given outputlength sw = Inr r \<or>
           msr_decode_steim2 h input inputlength n given outputlength sw = Inr r"
  shows "length (dr_output r) \<le> n \<and> (64 \<le> inputlength \<and> n < 2 ^ 62 \<longrightarrow> 4 * length (dr_output r) \<le> outputlength) \<and>
    (\<exists>frame r'. msr_decode_steim1 h (Some frame) 64 (2 ^ 62 + 1) True 4 False = Inr r' \<and> 4 < 4 * length (dr_output r'))"
proof -
  obtain wd where dec: "steim_decode wd input inputlength n given outputlength sw = Inr r"
    using assms by (auto simp: msr_decode_steim1_def msr_decode_steim2_def)
  have "n * 4 mod 2 ^ 64 = n * 4" if "n < 2 ^ 62" using that by simp
  moreover obtain r' where r': "msr_decode_steim1 h (Some long_frame) 64 (2 ^ 62 + 1) True 4 False = Inr r'" "length (dr_output r') = 13"
    using long_frame_overrun [OF refl] by blast
  moreover have "4 < 4 * length (dr_output r')" using r'(2) by simp
  ultimately show ?thesis using steim_decode_bounds [OF dec] by (intro conjI exI [of _ long_frame] exI [of _ r']) auto
qed

theorem steim_decode_output_bounds_witness:
  "msr_decode_steim1 LittleEndian (Some (replicate 16 0)) 64 1 True 4 False =
     Inr \<lparr>dr_output = [0], dr_warned = False\<rparr> \<and> 4 * length [0 :: i32] \<le> 4"
proof -
  have "decode_frames (steim1_word_diffs LittleEndian False) False (replicate 16 0) 1 1 0 [] 0 = Inr ([0], 0)"
    by code_simp
  then have d: "msr_decode_steim1 LittleEndian (Some (replicate 16 0)) 64 1 True 4 False =
     Inr \<lparr>dr_output = [0], dr_warned = False\<rparr>"
    by (simp add: msr_decode_steim1_def steim_decode_def Let_def)
  have "4 * length (dr_output \<lparr>dr_output = [0 :: i32], dr_warned = False\<rparr>) \<le> 4"
    using steim_decode_output_bounds [OF disjI1 [OF d]] by simp
  with d show ?thesis by simp
qed

subsection \<open>Executions outside the defined behaviour\<close>

lemma steim_frames_none: "steim_frames n pack sw input m 0 0 st out = Inr (0, st, out)"
  by (subst steim_frames.simps) simp

text \<open>
  A buffer with no room for a frame: the pointer to the reverse integration constant
  stays NULL, and a swapping encoder dereferences it.
\<close>

theorem steim_encode_short_buffer:
  assumes "0 < n" "0 < outputlength" "outputlength < 64"
  shows "msr_encode_steim1 h (Some input) n (Some output) outputlength diff0 True = Inl NullDeref \<and>
         msr_encode_steim2 h (Some input) n (Some output) outputlength diff0 True = Inl NullDeref"
proof -
  have "outputlength div 64 = 0" using assms(3) by simp
  then have "steim_encode k p input n output outputlength diff0 True = Inl NullDeref" for k p
    unfolding steim_encode_def by (simp only: steim_frames_none) simp
  then show ?thesis
    using assms(1,2) by (simp add: msr_encode_steim1_def msr_encode_steim2_def)
qed

theorem steim_encode_short_buffer_witness:
  "msr_encode_steim1 LittleEndian (Some [1]) 1 (Some []) 63 0 True = Inl NullDeref"
  using steim_encode_short_buffer [of 1 63] by simp

lemma decode_frames_none: "decode_frames wd sw ws mf 0 0 [] Xn = Inr ([], Xn)"
  by (subst decode_frames.simps) simp

text \<open>
  With frames to read and no samples wanted, the integrity check of a decoder reads
  the sample before the start of its output buffer.
\<close>

theorem steim_decode_zero_samples:
  assumes "64 \<le> inputlength" "0 < outputlength"
  shows "msr_decode_steim1 h (Some input) inputlength 0 True outputlength sw = Inl OutOfBounds \<and>
         msr_decode_steim2 h (Some input) inputlength 0 True outputlength sw = Inl OutOfBounds"
  using assms
  by (simp add: msr_decode_steim1_def msr_decode_steim2_def steim_decode_def decode_frames_none Let_def)

theorem steim_decode_zero_samples_witness:
  "msr_decode_steim1 LittleEndian (Some (replicate 16 0)) 64 0 True 4 True = Inl OutOfBounds"
  using steim_decode_zero_samples [of 64 4] by simp

end
