(* ===== verification/PlainCodec.thy ===== *)
theory PlainCodec
  imports Bytes
begin

text \<open>
  The fixed-width encoders of packdata.c (text, 16 and 32-bit integers, 32 and 64-bit
  floats) and the decoders of unpackdata.c for the same encodings. A float is its bit
  pattern: the routines only copy and swap it. Buffers are lists of memory words; an
  access outside one is \<open>OutOfBounds\<close>. A routine gives the number it returns and the
  output buffer after the call.
\<close>

subsection \<open>Encoders\<close>

definition msr_encode_text ::
  "u8 list option \<Rightarrow> nat \<Rightarrow> u8 list option \<Rightarrow> nat \<Rightarrow> (nat \<times> u8 list option) result" where
  "msr_encode_text input samplecount output outputlength =
     (if samplecount = 0 then Inr (0, output)
      else case (input, output) of
        (Some inp, Some outp) \<Rightarrow>
          if outputlength = 0 then Inl (ReturnError (-1))
          else
            let len = (if samplecount < outputlength then samplecount else outputlength) in
            if length inp < len \<or> length outp < len then Inl OutOfBounds
            else Inr (len, Some (take len inp @ drop len outp))
      | _ \<Rightarrow> Inl (ReturnError (-1)))"

text \<open>
  The loop the four encoders share, with the conversion of a sample and the width of an
  output value as parameters; \<open>idx\<close> is a 64-bit counter that stays below \<open>samplecount\<close>.
\<close>

function encode_loop ::
  "('a \<Rightarrow> 'b) \<Rightarrow> nat \<Rightarrow> 'a list \<Rightarrow> nat \<Rightarrow> nat \<Rightarrow> 'b list \<Rightarrow> nat \<Rightarrow> (nat \<times> 'b list) result" where
  "encode_loop conv size_out input samplecount idx output outputlength =
     (if idx < samplecount \<and> size_out \<le> outputlength then
        if length input \<le> idx \<or> length output \<le> idx then Inl OutOfBounds
        else encode_loop conv size_out input samplecount (Suc idx)
               (output[idx := conv (input ! idx)]) (outputlength - size_out)
      else Inr (idx, output))"
  by pat_completeness auto
termination by (relation "measure (\<lambda>(c, z, inp, s, i, out, l). s - i)") auto

declare encode_loop.simps [simp del]

definition encode_plain ::
  "('a \<Rightarrow> 'b) \<Rightarrow> nat \<Rightarrow> 'a list option \<Rightarrow> nat \<Rightarrow> 'b list option \<Rightarrow> nat \<Rightarrow> (nat \<times> 'b list option) result" where
  "encode_plain conv size_out input samplecount output outputlength =
     (if samplecount = 0 then Inr (0, output)
      else case (input, output) of
        (Some inp, Some outp) \<Rightarrow>
          if outputlength = 0 then Inl (ReturnError (-1))
          else (case encode_loop conv size_out inp samplecount 0 outp outputlength of
                  Inl e \<Rightarrow> Inl e
                | Inr (n, buf) \<Rightarrow> Inr (n, Some buf))
      | _ \<Rightarrow> Inl (ReturnError (-1)))"

definition msr_encode_int16 ::
  "i32 list option \<Rightarrow> nat \<Rightarrow> u16 list option \<Rightarrow> nat \<Rightarrow> bool \<Rightarrow> (nat \<times> u16 list option) result" where
  "msr_encode_int16 input samplecount output outputlength swapflag =
     encode_plain (\<lambda>x. swap2_if swapflag (ucast x)) 2 input samplecount output outputlength"

definition msr_encode_int32 ::
  "i32 list option \<Rightarrow> nat \<Rightarrow> u32 list option \<Rightarrow> nat \<Rightarrow> bool \<Rightarrow> (nat \<times> u32 list option) result" where
  "msr_encode_int32 input samplecount output outputlength swapflag =
     encode_plain (swap4_if swapflag) 4 input samplecount output outputlength"

definition msr_encode_float32 ::
  "u32 list option \<Rightarrow> nat \<Rightarrow> u32 list option \<Rightarrow> nat \<Rightarrow> bool \<Rightarrow> (nat \<times> u32 list option) result" where
  "msr_encode_float32 input samplecount output outputlength swapflag =
     encode_plain (swap4_if swapflag) 4 input samplecount output outputlength"

definition msr_encode_float64 ::
  "u64 list option \<Rightarrow> nat \<Rightarrow> u64 list option \<Rightarrow> nat \<Rightarrow> bool \<Rightarrow> (nat \<times> u64 list option) result" where
  "msr_encode_float64 input samplecount output outputlength swapflag =
     encode_plain (swap8_if swapflag) 8 input samplecount output outputlength"

subsection \<open>Decoders\<close>

text \<open>
  The decoders count in a 32-bit \<open>idx\<close> against a 64-bit \<open>samplecount\<close>: the counter is a
  word that wraps, and what ends the loop for sure is the output length.
\<close>

function decode_loop ::
  "(nat \<Rightarrow> 'b result) \<Rightarrow> nat \<Rightarrow> nat \<Rightarrow> u32 \<Rightarrow> 'b list \<Rightarrow> nat \<Rightarrow> (u32 \<times> 'b list) result" where
  "decode_loop conv size_out samplecount idx output outputlength =
     (if unat idx < samplecount \<and> 0 < size_out \<and> size_out \<le> outputlength then
        case conv (unat idx) of
          Inl e \<Rightarrow> Inl e
        | Inr v \<Rightarrow>
            if length output \<le> unat idx then Inl OutOfBounds
            else decode_loop conv size_out samplecount (idx + 1) (output[unat idx := v])
                   (outputlength - size_out)
      else Inr (idx, output))"
  by pat_completeness auto
termination by (relation "measure (\<lambda>(c, z, s, i, out, l). l)") auto

declare decode_loop.simps [simp del]

text \<open>
  The guards: the four plain decoders refuse an output shorter than one value
  (\<open>minlen = size_out\<close>), the gain-ranged ones only an empty output (\<open>minlen = 1\<close>).
\<close>

definition decode_plain ::
  "('a \<Rightarrow> 'b result) \<Rightarrow> nat \<Rightarrow> nat \<Rightarrow> 'a list option \<Rightarrow> nat \<Rightarrow> 'b list option \<Rightarrow> nat \<Rightarrow>
   (nat \<times> 'b list option) result" where
  "decode_plain conv size_out minlen input samplecount output outputlength =
     (if samplecount = 0 then Inr (0, output)
      else case (input, output) of
        (Some inp, Some outp) \<Rightarrow>
          if outputlength < minlen then Inl (ReturnError (-1))
          else (case decode_loop (\<lambda>i. if i < length inp then conv (inp ! i) else Inl OutOfBounds)
                       size_out samplecount 0 outp outputlength of
                  Inl e \<Rightarrow> Inl e
                | Inr (n, buf) \<Rightarrow> Inr (unat n, Some buf))
      | _ \<Rightarrow> Inl (ReturnError (-1)))"

definition msr_decode_int16 ::
  "u16 list option \<Rightarrow> nat \<Rightarrow> i32 list option \<Rightarrow> nat \<Rightarrow> bool \<Rightarrow> (nat \<times> i32 list option) result" where
  "msr_decode_int16 input samplecount output outputlength swapflag =
     decode_plain (\<lambda>w. Inr (scast (swap2_if swapflag w))) 4 4 input samplecount output outputlength"

definition msr_decode_int32 ::
  "u32 list option \<Rightarrow> nat \<Rightarrow> i32 list option \<Rightarrow> nat \<Rightarrow> bool \<Rightarrow> (nat \<times> i32 list option) result" where
  "msr_decode_int32 input samplecount output outputlength swapflag =
     decode_plain (\<lambda>w. Inr (swap4_if swapflag w)) 4 4 input samplecount output outputlength"

definition msr_decode_float32 ::
  "u32 list option \<Rightarrow> nat \<Rightarrow> u32 list option \<Rightarrow> nat \<Rightarrow> bool \<Rightarrow> (nat \<times> u32 list option) result" where
  "msr_decode_float32 input samplecount output outputlength swapflag =
     decode_plain (\<lambda>w. Inr (swap4_if swapflag w)) 4 4 input samplecount output outputlength"

definition msr_decode_float64 ::
  "u64 list option \<Rightarrow> nat \<Rightarrow> u64 list option \<Rightarrow> nat \<Rightarrow> bool \<Rightarrow> (nat \<times> u64 list option) result" where
  "msr_decode_float64 input samplecount output outputlength swapflag =
     decode_plain (\<lambda>w. Inr (swap8_if swapflag w)) 8 8 input samplecount output outputlength"

subsection \<open>What the loops compute\<close>

lemma list_update_take_drop:
  "i < length ys \<Longrightarrow> take (Suc i) (ys[i := v]) = take i ys @ [v]"
  by (simp add: take_Suc_conv_app_nth)

lemma upt_Suc_len: "[i..<i + Suc m] = i # [Suc i..<Suc i + m]"
  by (simp add: upt_conv_Cons)

text \<open>The number of rounds left, seen from one round to the next.\<close>

lemma rounds_step:
  assumes "Suc m = min (s - i) (l div z)" "0 < (z::nat)"
  shows "i < s" "z \<le> l" "m = min (s - Suc i) ((l - z) div z)"
proof -
  show "i < s" using assms by (auto simp: min_def split: if_splits)
  show z: "z \<le> l"
  proof (rule ccontr)
    assume "\<not> z \<le> l"
    then have "l div z = 0" by simp
    then show False using assms by simp
  qed
  have "l div z = Suc ((l - z) div z)" using z assms by (simp add: le_div_geq)
  then show "m = min (s - Suc i) ((l - z) div z)" using assms \<open>i < s\<close> by simp
qed

lemma rounds_end: "0 = min (s - i) (l div z) \<Longrightarrow> 0 < (z::nat) \<Longrightarrow> \<not> (i < s \<and> z \<le> l)"
  by (auto simp: min_def div_eq_0_iff split: if_splits)

lemma encode_loop_result:
  assumes "m = min (samplecount - i) (olen div z)" "0 < z" "i + m \<le> length inp" "i + m \<le> length out"
  shows "encode_loop conv z inp samplecount i out olen =
           Inr (i + m, take i out @ map (\<lambda>k. conv (inp ! k)) [i..<i + m] @ drop (i + m) out)"
  using assms
proof (induction m arbitrary: i out olen)
  case 0
  show ?case using rounds_end [OF 0(1,2)] by (subst encode_loop.simps, subst if_not_P) simp_all
next
  case (Suc m)
  note step = rounds_step [OF Suc.prems(1,2)]
  have len: "i < length inp" "i < length out" using Suc.prems(3,4) by simp_all
  have IH: "encode_loop conv z inp samplecount (Suc i) (out[i := conv (inp ! i)]) (olen - z) =
      Inr (Suc i + m, take (Suc i) (out[i := conv (inp ! i)]) @ map (\<lambda>k. conv (inp ! k)) [Suc i..<Suc i + m] @
        drop (Suc i + m) (out[i := conv (inp ! i)]))"
    using Suc.prems(2,3,4) by (intro Suc.IH step(3)) simp_all
  show ?case unfolding upt_Suc_len
    using step(1,2) len IH by (subst encode_loop.simps) (simp add: list_update_take_drop del: upt_Suc)
qed

lemma decode_loop_result:
  assumes "m = min (samplecount - i) (olen div z)" "0 < z" "samplecount < 2 ^ 32"
    and "\<And>k. k < i + m \<Longrightarrow> conv k = Inr (f k)" "i + m \<le> length out" "i \<le> samplecount"
  shows "decode_loop conv z samplecount (of_nat i) out olen =
           Inr (of_nat (i + m), take i out @ map f [i..<i + m] @ drop (i + m) out)"
  using assms
proof (induction m arbitrary: i out olen)
  case 0
  have "unat (of_nat i :: u32) = i" using 0(3,6) by (simp add: unat_of_nat take_bit_nat_eq_self)
  then show ?case using rounds_end [OF 0(1,2)] by (subst decode_loop.simps, subst if_not_P) simp_all
next
  case (Suc m)
  note step = rounds_step [OF Suc.prems(1,2)]
  have len: "i < length out" using Suc.prems(5) by simp
  have u: "unat (of_nat i :: u32) = i" using step(1) Suc.prems(3) by (simp add: unat_of_nat take_bit_nat_eq_self)
  have c: "conv i = Inr (f i)" by (rule Suc.prems(4)) simp
  have IH: "decode_loop conv z samplecount (of_nat (Suc i)) (out[i := f i]) (olen - z) =
      Inr (of_nat (Suc i + m), take (Suc i) (out[i := f i]) @ map f [Suc i..<Suc i + m] @ drop (Suc i + m) (out[i := f i]))"
    using Suc.prems(2,3,5) step(1) by (intro Suc.IH step(3)) (simp_all add: Suc.prems(4))
  have "decode_loop conv z samplecount (of_nat i) out olen =
        decode_loop conv z samplecount (of_nat (Suc i)) (out[i := f i]) (olen - z)"
    using step(1,2) len u c Suc.prems(2) by (subst decode_loop.simps) (simp add: add.commute)
  then show ?case unfolding upt_Suc_len using IH len
    by (simp add: list_update_take_drop del: upt_Suc of_nat_Suc of_nat_add)
qed

text \<open>How many samples fit: the smaller of the samples asked for and of the room.\<close>

lemma encode_plain_result:
  assumes "n = min samplecount (outputlength div size_out)" "0 < samplecount" "0 < outputlength" "0 < size_out"
    and "n \<le> length inp" "n \<le> length outp"
  shows "encode_plain conv size_out (Some inp) samplecount (Some outp) outputlength =
           Inr (n, Some (map conv (take n inp) @ drop n outp))"
proof -
  have "map (\<lambda>k. conv (inp ! k)) [0..<n] = map conv (take n inp)"
    using assms(5) by (intro nth_equalityI) auto
  then show ?thesis
    using assms encode_loop_result [of n samplecount 0 outputlength size_out inp outp conv]
    by (simp add: encode_plain_def del: upt_Suc)
qed

lemma decode_plain_result:
  assumes "n = min samplecount (outputlength div size_out)" "0 < samplecount" "samplecount < 2 ^ 32"
    and "minlen \<le> outputlength" "0 < size_out" "n \<le> length inp" "n \<le> length outp"
    and "\<And>x. x \<in> set (take n inp) \<Longrightarrow> conv x = Inr (f x)"
  shows "decode_plain conv size_out minlen (Some inp) samplecount (Some outp) outputlength =
           Inr (n, Some (map f (take n inp) @ drop n outp))"
proof -
  have "decode_loop (\<lambda>i. if i < length inp then conv (inp ! i) else Inl OutOfBounds) size_out samplecount (of_nat 0)
          outp outputlength = Inr (of_nat (0 + n), take 0 outp @ map (\<lambda>i. f (inp ! i)) [0..<0 + n] @ drop (0 + n) outp)"
  proof (rule decode_loop_result)
    fix k assume "k < 0 + n"
    then have "inp ! k \<in> set (take n inp)" "k < length inp" using assms(6) by (auto simp: in_set_conv_nth intro!: exI [of _ k])
    then show "(if k < length inp then conv (inp ! k) else Inl OutOfBounds) = Inr (f (inp ! k))"
      using assms(8) by simp
  qed (use assms in simp_all)
  moreover have "map (\<lambda>i. f (inp ! i)) [0..<n] = map f (take n inp)"
    using assms(6) by (intro nth_equalityI) auto
  moreover have "unat (of_nat n :: u32) = n"
    using assms by (simp add: unat_of_nat take_bit_nat_eq_self)
  ultimately show ?thesis using assms by (simp add: decode_plain_def)
qed

subsection \<open>The contract of a fixed-width encoding\<close>

text \<open>
  What the encoder and decoder of one encoding share: decoding an encoded value gives
  its normal form (the value itself, or the low 16 bits of it with their sign).
\<close>

locale plain_codec =
  fixes enc :: "bool \<Rightarrow> 'a \<Rightarrow> 'b" and dec :: "bool \<Rightarrow> 'b \<Rightarrow> 'a"
    and norm :: "'a \<Rightarrow> 'a" and enc_size dec_size :: nat
  assumes dec_enc: "dec s (enc s x) = norm x"
    and enc_size: "0 < enc_size" and dec_size: "0 < dec_size"
begin

lemma encode_all:
  assumes "0 < n" "n \<le> length inp" "n \<le> length buf" "n * enc_size \<le> room"
  shows "encode_plain (enc s) enc_size (Some inp) n (Some buf) room =
           Inr (n, Some (map (enc s) (take n inp) @ drop n buf))"
proof (rule encode_plain_result)
  show "n = min n (room div enc_size)"
    using assms(4) enc_size by (simp add: min_def less_eq_div_iff_mult_less_eq)
  show "0 < room" using assms(1,4) enc_size by (metis less_le_trans nat_0_less_mult_iff)
qed (use assms enc_size in simp_all)

lemma decode_encoded:
  assumes "0 < n" "n < 2 ^ 32" "n \<le> length inp" "n \<le> length out" "n * dec_size \<le> room"
  shows "decode_plain (\<lambda>w. Inr (dec s w)) dec_size dec_size (Some (map (enc s) (take n inp) @ rest)) n (Some out) room =
           Inr (n, Some (map norm (take n inp) @ drop n out))"
proof -
  have 1: "n = min n (room div dec_size)"
    using assms(5) dec_size by (simp add: min_def less_eq_div_iff_mult_less_eq)
  have 2: "dec_size \<le> room" using assms(1,5) by (metis One_nat_def Suc_leI le_trans mult_le_mono1 nat_mult_1)
  have 3: "map (dec s) (take n (map (enc s) (take n inp) @ rest)) = map norm (take n inp)"
    using assms(3) by (simp add: dec_enc)
  show ?thesis unfolding 3 [symmetric]
    using assms 1 2 dec_size by (intro decode_plain_result) simp_all
qed

end

lemma int16_norm: "scast (ucast (x :: i32) :: u16) = (signed_take_bit 15 x :: i32)"
  by (rule bit_word_eqI) (auto simp: bit_simps min_def)

interpretation int16: plain_codec "\<lambda>s x. swap2_if s (ucast (x :: i32))" "\<lambda>s w. scast (swap2_if s w)" "signed_take_bit 15" 2 4
  by unfold_locales (simp_all add: int16_norm)

interpretation word32: plain_codec swap4_if swap4_if "\<lambda>x. x" 4 4
  by unfold_locales simp_all

interpretation word64: plain_codec swap8_if swap8_if "\<lambda>x. x" 8 8
  by unfold_locales simp_all

lemma signed_take_bit_fits:
  assumes "- 32768 \<le> sint (x :: i32)" "sint x \<le> 32767"
  shows "signed_take_bit 15 x = x"
proof -
  have "fits 15 x" using assms by (intro fits_of_range) simp_all
  then show ?thesis by (metis int16_norm scast_u16_fits)
qed

subsection \<open>Properties\<close>

text \<open>
  C27. 16-bit encoding keeps the low 16 bits of every sample: what is encoded with room
  for \<open>n\<close> samples is decoded to the sign-extended low half of each, with or without the
  swap, and to the samples themselves where all of them fit 16 bits.
\<close>

theorem int16_roundtrip:
  assumes "0 < n" "n < 2 ^ 32" "n \<le> length inp" "n \<le> length buf" "n * 2 \<le> enc_room"
    and "n \<le> length out" "n * 4 \<le> dec_room"
  shows "\<exists>enc. msr_encode_int16 (Some inp) n (Some buf) enc_room s = Inr (n, Some enc) \<and>
           msr_decode_int16 (Some enc) n (Some out) dec_room s =
             Inr (n, Some (map (signed_take_bit 15) (take n inp) @ drop n out)) \<and>
           ((\<forall>x \<in> set (take n inp). - 32768 \<le> sint x \<and> sint x \<le> 32767) \<longrightarrow>
              map (signed_take_bit 15) (take n inp) = take n inp)"
proof -
  have "map (signed_take_bit 15) (take n inp) = take n inp"
    if "\<forall>x \<in> set (take n inp). - 32768 \<le> sint x \<and> sint x \<le> 32767"
    by (rule map_idI) (use that signed_take_bit_fits in blast)
  then show ?thesis unfolding msr_encode_int16_def msr_decode_int16_def
    using int16.encode_all [OF assms(1,3,4,5)] int16.decode_encoded [OF assms(1,2,3,6,7)] by auto
qed

theorem int16_roundtrip_witness:
  "\<exists>enc. msr_encode_int16 (Some [-5, 70000]) 2 (Some [0, 0]) 4 True = Inr (2, Some enc) \<and>
     msr_decode_int16 (Some enc) 2 (Some [0, 0]) 8 True =
       Inr (2, Some (map (signed_take_bit 15) (take 2 [-5, 70000]) @ drop 2 [0, 0])) \<and>
     ((\<forall>x \<in> set (take 2 [-5, 70000 :: i32]). - 32768 \<le> sint x \<and> sint x \<le> 32767) \<longrightarrow>
        map (signed_take_bit 15) (take 2 [-5, 70000 :: i32]) = take 2 [-5, 70000])"
  by (rule int16_roundtrip) simp_all



end
