(* ===== verification/Lookup.thy ===== *)
theory Lookup
  imports Prelude
begin

text \<open>
  The lookup tables of lookup.c over the encoding and error codes of libmseed.h.
\<close>

text \<open>Encoding codes.\<close>

abbreviation (input) "DE_TEXT \<equiv> 0 :: u8"
abbreviation (input) "DE_INT16 \<equiv> 1 :: u8"
abbreviation (input) "DE_INT32 \<equiv> 3 :: u8"
abbreviation (input) "DE_FLOAT32 \<equiv> 4 :: u8"
abbreviation (input) "DE_FLOAT64 \<equiv> 5 :: u8"
abbreviation (input) "DE_STEIM1 \<equiv> 10 :: u8"
abbreviation (input) "DE_STEIM2 \<equiv> 11 :: u8"
abbreviation (input) "DE_GEOSCOPE24 \<equiv> 12 :: u8"
abbreviation (input) "DE_GEOSCOPE163 \<equiv> 13 :: u8"
abbreviation (input) "DE_GEOSCOPE164 \<equiv> 14 :: u8"
abbreviation (input) "DE_CDSN \<equiv> 16 :: u8"
abbreviation (input) "DE_SRO \<equiv> 30 :: u8"
abbreviation (input) "DE_DWWSSN \<equiv> 32 :: u8"

text \<open>Return codes.\<close>

abbreviation (input) "MS_ENDOFFILE \<equiv> 1 :: int"
abbreviation (input) "MS_NOERROR \<equiv> 0 :: int"
abbreviation (input) "MS_GENERROR \<equiv> - 1 :: int"
abbreviation (input) "MS_NOTSEED \<equiv> - 2 :: int"
abbreviation (input) "MS_WRONGLENGTH \<equiv> - 3 :: int"
abbreviation (input) "MS_OUTOFRANGE \<equiv> - 4 :: int"
abbreviation (input) "MS_UNKNOWNFORMAT \<equiv> - 5 :: int"
abbreviation (input) "MS_STBADCOMPFLAG \<equiv> - 6 :: int"
abbreviation (input) "MS_INVALIDCRC \<equiv> - 7 :: int"

definition ms_samplesize :: "char \<Rightarrow> nat" where
  "ms_samplesize sampletype =
     (if sampletype = CHR ''t'' \<or> sampletype = CHR ''a'' then 1
      else if sampletype = CHR ''i'' \<or> sampletype = CHR ''f'' then 4
      else if sampletype = CHR ''d'' then 8
      else 0)"

text \<open>The size and type stored through the pointers, or the \<open>-1\<close> of an unknown encoding.\<close>

definition ms_encoding_sizetype :: "u8 \<Rightarrow> (nat \<times> char) result" where
  "ms_encoding_sizetype encoding =
     (if encoding = DE_TEXT then Inr (1, CHR ''t'')
      else if encoding \<in> set [DE_INT16, DE_INT32, DE_STEIM1, DE_STEIM2, DE_CDSN, DE_SRO, DE_DWWSSN] then
        Inr (4, CHR ''i'')
      else if encoding \<in> set [DE_FLOAT32, DE_GEOSCOPE24, DE_GEOSCOPE163, DE_GEOSCOPE164] then
        Inr (4, CHR ''f'')
      else if encoding = DE_FLOAT64 then Inr (8, CHR ''d'')
      else Inl (ReturnError (-1)))"

definition ms_encodingstr :: "u8 \<Rightarrow> string" where
  "ms_encodingstr encoding =
     (if encoding = 0 then ''Text''
      else if encoding = 1 then ''16-bit integer''
      else if encoding = 2 then ''24-bit integer''
      else if encoding = 3 then ''32-bit integer''
      else if encoding = 4 then ''32-bit float (IEEE single)''
      else if encoding = 5 then ''64-bit float (IEEE double)''
      else if encoding = 10 then ''STEIM-1 integer compression''
      else if encoding = 11 then ''STEIM-2 integer compression''
      else if encoding = 12 then ''GEOSCOPE Muxed 24-bit integer''
      else if encoding = 13 then ''GEOSCOPE Muxed 16/3-bit gain/exp''
      else if encoding = 14 then ''GEOSCOPE Muxed 16/4-bit gain/exp''
      else if encoding = 15 then ''US National Network compression''
      else if encoding = 16 then ''CDSN 16-bit gain ranged''
      else if encoding = 17 then ''Graefenberg 16-bit gain ranged''
      else if encoding = 18 then ''IPG - Strasbourg 16-bit gain''
      else if encoding = 19 then ''STEIM-3 integer compression''
      else if encoding = 30 then ''SRO gain ranged''
      else if encoding = 31 then ''HGLP''
      else if encoding = 32 then ''DWWSSN''
      else if encoding = 33 then ''RSTN 16 bit gain ranged''
      else ''Unknown'')"

definition ms_errorstr :: "int \<Rightarrow> string option" where
  "ms_errorstr errorcode =
     (if errorcode = MS_ENDOFFILE then Some ''End of file reached''
      else if errorcode = MS_NOERROR then Some ''No error''
      else if errorcode = MS_GENERROR then Some ''Generic error''
      else if errorcode = MS_NOTSEED then Some ''No miniSEED data detected''
      else if errorcode = MS_WRONGLENGTH then Some ''Length of data read does not match record length''
      else if errorcode = MS_OUTOFRANGE then Some ''SEED record length out of range''
      else if errorcode = MS_UNKNOWNFORMAT then Some ''Unknown data encoding format''
      else if errorcode = MS_STBADCOMPFLAG then Some ''Bad Steim compression flag(s) detected''
      else if errorcode = MS_INVALIDCRC then Some ''Invalid CRC detected''
      else None)"

text \<open>
  The tables agree: an encoding with a decoded size and type has a description of
  its own, its size is the one \<open>ms_samplesize\<close> gives for its type, and that is never 0.
\<close>

theorem encoding_tables_agree:
  assumes "ms_encoding_sizetype e = Inr (z, ty)"
  shows "ms_samplesize ty = z \<and> z \<in> {1, 4, 8} \<and> ms_encodingstr e \<noteq> ''Unknown''"
  using assms
  by (auto simp: ms_encoding_sizetype_def ms_samplesize_def ms_encodingstr_def split: if_splits)

theorem encoding_tables_agree_witness:
  "ms_samplesize (CHR ''d'') = 8 \<and> (8::nat) \<in> {1, 4, 8} \<and> ms_encodingstr DE_FLOAT64 \<noteq> ''Unknown''"
  by (rule encoding_tables_agree) (simp add: ms_encoding_sizetype_def)

end
