(* ===== verification/LegacyDecode.thy ===== *)
theory LegacyDecode
  imports Complex_Main PlainCodec Lookup
begin

text \<open>
  The decoders of unpackdata.c for the legacy gain-ranged encodings (GEOSCOPE, CDSN, SRO,
  DWWSSN). The integer decoders share the counting loop of the plain decoders; each
  contributes the conversion of one 16-bit value.
\<close>

abbreviation (input) "MAX12 \<equiv> 0x7FF :: nat"
abbreviation (input) "MAX14 \<equiv> 0x1FFF :: nat"
abbreviation (input) "MAX16 \<equiv> 0x7FFF :: nat"
abbreviation (input) "MAX24 \<equiv> 0x7FFFFF :: nat"

text \<open>A signed 32-bit value compared as \<open>(unsigned long)\<close>: the sign fills the 64 bits.\<close>

definition exceeds :: "i32 \<Rightarrow> nat \<Rightarrow> bool" where
  "exceeds v m \<longleftrightarrow> m < unat (scast v :: u64)"

subsection \<open>CDSN\<close>

definition cdsn_sample :: "u16 \<Rightarrow> i32" where
  "cdsn_sample w =
     (let mantissa = ucast (w AND 0x3FFF) :: i32;
          gainrange = ucast (drop_bit 14 (w AND 0xC000)) :: i32;
          mult = (if gainrange = 0 then 0 else if gainrange = 1 then 2
                  else if gainrange = 2 then 4 else 7);
          mantissa = mantissa - of_nat MAX14
      in push_bit mult mantissa)"

definition msr_decode_cdsn ::
  "u16 list option \<Rightarrow> nat \<Rightarrow> i32 list option \<Rightarrow> nat \<Rightarrow> bool \<Rightarrow> (nat \<times> i32 list option) result" where
  "msr_decode_cdsn input samplecount output outputlength swapflag =
     decode_plain (\<lambda>w. Inr (cdsn_sample (swap2_if swapflag w))) 4 1 input samplecount output outputlength"

subsection \<open>SRO\<close>

definition sro_sample :: "u16 \<Rightarrow> i32 result" where
  "sro_sample w =
     (let mantissa = ucast (w AND 0x0FFF) :: i32;
          gainrange = ucast (drop_bit 12 (w AND 0xF000)) :: i32;
          mantissa = (if exceeds mantissa MAX12 then mantissa - of_nat (2 * (MAX12 + 1)) else mantissa);
          exponent = - 1 * (sint gainrange + 0) + 10
      in if exponent < 0 \<or> 10 < exponent then Inl (ReturnError MS_GENERROR)
         else Inr (ucast ((scast mantissa :: u64) * push_bit (nat exponent) 1)))"

definition msr_decode_sro ::
  "u16 list option \<Rightarrow> nat \<Rightarrow> i32 list option \<Rightarrow> nat \<Rightarrow> bool \<Rightarrow> (nat \<times> i32 list option) result" where
  "msr_decode_sro input samplecount output outputlength swapflag =
     decode_plain (\<lambda>w. sro_sample (swap2_if swapflag w)) 4 1 input samplecount output outputlength"

subsection \<open>DWWSSN\<close>

definition dwwssn_sample :: "u16 \<Rightarrow> i32" where
  "dwwssn_sample w =
     (let sample = ucast w :: i32
      in if exceeds sample MAX16 then sample - of_nat (2 * (MAX16 + 1)) else sample)"

definition msr_decode_dwwssn ::
  "u16 list option \<Rightarrow> nat \<Rightarrow> i32 list option \<Rightarrow> nat \<Rightarrow> bool \<Rightarrow> (nat \<times> i32 list option) result" where
  "msr_decode_dwwssn input samplecount output outputlength swapflag =
     decode_plain (\<lambda>w. Inr (dwwssn_sample (swap2_if swapflag w))) 4 1 input samplecount output outputlength"

subsection \<open>GEOSCOPE\<close>

text \<open>
  The input is a sequence of bytes and a sample is three or two of them. The values are
  floating point; a model value is the real number, and all of them are exactly
  representable (see below), so the cast to \<open>float\<close> does not round.
\<close>

definition word_of_bytes :: "byteorder \<Rightarrow> u8 \<Rightarrow> u8 \<Rightarrow> u16" where
  "word_of_bytes h b0 b1 =
     (case h of LittleEndian \<Rightarrow> ucast b0 OR push_bit 8 (ucast b1)
              | BigEndian \<Rightarrow> push_bit 8 (ucast b0) OR ucast b1)"

definition geoscope24_mantissa :: "byteorder \<Rightarrow> bool \<Rightarrow> u8 \<Rightarrow> u8 \<Rightarrow> u8 \<Rightarrow> i32" where
  "geoscope24_mantissa h swapflag b0 b1 b2 =
     (let mantissa = (if swapflag then dword_of_bytes h b2 b1 b0 0 else dword_of_bytes h 0 b0 b1 b2)
      in if exceeds mantissa MAX24 then mantissa - of_nat (2 * (MAX24 + 1)) else mantissa)"

definition geoscope16_sample :: "u16 \<Rightarrow> u16 \<Rightarrow> real" where
  "geoscope16_sample gainmask w =
     (let mantissa = ucast (w AND 0x0FFF) :: i32;
          gainrange = ucast (drop_bit 12 (w AND gainmask)) :: i32;
          exponent = gainrange;
          exp2val = push_bit (unat exponent) (1 :: u64)
      in real_of_int (sint (mantissa - 2048)) / real (unat exp2val))"

text \<open>One turn of the loop: the sample and the number of bytes it takes.\<close>

fun geoscope_step :: "byteorder \<Rightarrow> bool \<Rightarrow> u8 \<Rightarrow> u8 list \<Rightarrow> (real \<times> nat) result" where
  "geoscope_step h swapflag encoding input =
     (if encoding = DE_GEOSCOPE24 then
        (case input of
           b0 # b1 # b2 # _ \<Rightarrow> Inr (real_of_int (sint (geoscope24_mantissa h swapflag b0 b1 b2)), 3)
         | _ \<Rightarrow> Inl OutOfBounds)
      else
        (case input of
           b0 # b1 # _ \<Rightarrow>
             Inr (geoscope16_sample (if encoding = DE_GEOSCOPE163 then 0x7000 else 0xf000)
                    (swap2_if swapflag (word_of_bytes h b0 b1)), 2)
         | _ \<Rightarrow> Inl OutOfBounds))"

function geoscope_loop ::
  "byteorder \<Rightarrow> bool \<Rightarrow> u8 \<Rightarrow> u8 list \<Rightarrow> nat \<Rightarrow> u32 \<Rightarrow> real list \<Rightarrow> nat \<Rightarrow> (u32 \<times> real list) result" where
  "geoscope_loop h swapflag encoding input samplecount idx output outputlength =
     (if unat idx < samplecount \<and> 4 \<le> outputlength then
        case geoscope_step h swapflag encoding input of
          Inl e \<Rightarrow> Inl e
        | Inr (dsample, width) \<Rightarrow>
            if length output \<le> unat idx then Inl OutOfBounds
            else geoscope_loop h swapflag encoding (drop width input) samplecount (idx + 1)
                   (output[unat idx := dsample]) (outputlength - 4)
      else Inr (idx, output))"
  by pat_completeness auto
termination by (relation "measure (\<lambda>(h, s, e, inp, c, i, out, l). l)") auto

declare geoscope_loop.simps [simp del] geoscope_step.simps [simp del]

definition msr_decode_geoscope ::
  "byteorder \<Rightarrow> u8 list option \<Rightarrow> nat \<Rightarrow> real list option \<Rightarrow> nat \<Rightarrow> u8 \<Rightarrow> bool \<Rightarrow>
   (nat \<times> real list option) result" where
  "msr_decode_geoscope h input samplecount output outputlength encoding swapflag =
     (if samplecount = 0 then Inr (0, output)
      else case (input, output) of
        (Some inp, Some outp) \<Rightarrow>
          if outputlength = 0 then Inl (ReturnError (-1))
          else if encoding \<noteq> DE_GEOSCOPE24 \<and> encoding \<noteq> DE_GEOSCOPE163 \<and> encoding \<noteq> DE_GEOSCOPE164 then
            Inl (ReturnError (-1))
          else (case geoscope_loop h swapflag encoding inp samplecount 0 outp outputlength of
                  Inl e \<Rightarrow> Inl e
                | Inr (n, buf) \<Rightarrow> Inr (unat n, Some buf))
      | _ \<Rightarrow> Inl (ReturnError (-1)))"

subsection \<open>The samples as integers\<close>

lemma uint_masks16:
  "uint (w AND 0x3FFF :: u16) = uint w mod 2 ^ 14" "uint (w AND 0xFFF :: u16) = uint w mod 2 ^ 12"
  using uint_and_mask [of w 14] uint_and_mask [of w 12] by (simp_all add: mask_eq_exp_minus_1)

lemma drop_and_high:
  assumes "m = push_bit k (mask (16 - k))" "k \<le> 16"
  shows "drop_bit k (w AND m :: u16) = drop_bit k w"
  by (rule bit_word_eqI, unfold bit_drop_bit_eq bit_and_iff comp_apply bit_field_const [OF assms(1)])
     (use assms(2) in \<open>auto dest: bit_imp_le_length\<close>)

lemma drop_masks16:
  "drop_bit 14 (w AND 0xC000 :: u16) = drop_bit 14 w" "drop_bit 12 (w AND 0xF000 :: u16) = drop_bit 12 w"
  by (rule drop_and_high; simp add: mask_eq_exp_minus_1)+

lemma ucast16: "ucast (w :: u16) = (word_of_int (uint w) :: i32)"
  by (rule ucast_eq)

lemma uint16_bounds: "0 \<le> uint (w :: u16)" "uint w < 65536"
  using uint_bounded [of w] by simp_all

lemma exceeds_of_int:
  assumes "0 \<le> i" "i < 2 ^ 31"
  shows "exceeds (word_of_int i) m \<longleftrightarrow> int m < i"
proof -
  let ?v = "word_of_int i :: i32"
  have "(scast ?v :: u64) = word_of_int i" using sint_small [of i] assms by (simp only: scast_eq)
  then have "uint (scast ?v :: u64) = i" using assms by (simp only: uint_word_of_int) simp
  then have "unat (scast ?v :: u64) = nat i" by (metis nat_uint_eq)
  then show ?thesis by (simp only: exceeds_def) linarith
qed

text \<open>The values the format definitions give: mantissa and gain of each encoding.\<close>

definition cdsn_value :: "u16 \<Rightarrow> int" where
  "cdsn_value w = (uint w mod 2 ^ 14 - 8191) * 2 ^ ([0, 2, 4, 7] ! nat (uint w div 2 ^ 14))"

definition twos_complement :: "nat \<Rightarrow> int \<Rightarrow> int" where
  "twos_complement bits v = (if v < 2 ^ (bits - 1) then v else v - 2 ^ bits)"

definition sro_gain :: "u16 \<Rightarrow> int" where
  "sro_gain w = uint w div 2 ^ 12"

definition sro_value :: "u16 \<Rightarrow> int" where
  "sro_value w = twos_complement 12 (uint w mod 2 ^ 12) * 2 ^ nat (10 - sro_gain w)"

lemma top_bits:
  assumes "0 \<le> (x::int)" "x < 65536"
  shows "x div 2 ^ 14 = 0 \<or> x div 2 ^ 14 = 1 \<or> x div 2 ^ 14 = 2 \<or> x div 2 ^ 14 = 3"
    and "0 \<le> x div 2 ^ 12" and "x div 2 ^ 12 < 16"
proof -
  have "0 \<le> x div 16384" "x div 16384 < 4" using assms by linarith+
  then show "x div 2 ^ 14 = 0 \<or> x div 2 ^ 14 = 1 \<or> x div 2 ^ 14 = 2 \<or> x div 2 ^ 14 = 3" by simp linarith
  have "0 \<le> x div 4096" "x div 4096 < 16" using assms by linarith+
  then show "0 \<le> x div 2 ^ 12" "x div 2 ^ 12 < 16" by simp_all
qed

lemma cdsn_sample_value: "sint (cdsn_sample w) = cdsn_value w"
proof -
  define B where "B = uint w mod 2 ^ 14"
  define K where "K = uint w div 2 ^ 14"
  have B: "0 \<le> B" "B < 16384" unfolding B_def by simp_all
  have K: "K = 0 \<or> K = 1 \<or> K = 2 \<or> K = 3" unfolding K_def by (rule top_bits(1) [OF uint16_bounds])
  have m: "ucast (w AND 0x3FFF) = (word_of_int B :: i32)" unfolding B_def by (simp only: ucast16 uint_masks16)
  have k: "ucast (drop_bit 14 (w AND 0xC000)) = (word_of_int K :: i32)"
    unfolding K_def by (simp only: ucast16 drop_masks16 uint_drop_div)
  have s: "word_of_int B - of_nat MAX14 = (word_of_int (B - 8191) :: i32)" by simp
  have "sint (push_bit (if (word_of_int K :: i32) = 0 then 0 else if (word_of_int K :: i32) = 1 then 2
            else if (word_of_int K :: i32) = 2 then 4 else 7) (word_of_int (B - 8191) :: i32)) =
        (B - 8191) * 2 ^ ([0, 2, 4, 7] ! nat K)" (is ?gain)
    using K
  proof (elim disjE)
    assume "K = 0" then show ?gain using B by (simp add: sint_small push_of_int del: of_int_diff of_int_mult)
  next
    assume "K = 1" then show ?gain using B by (simp add: sint_small push_of_int del: of_int_diff of_int_mult)
  next
    assume "K = 2" then show ?gain using B by (simp add: sint_small push_of_int del: of_int_diff of_int_mult)
  next
    assume "K = 3" then show ?gain using B by (simp add: sint_small push_of_int del: of_int_diff of_int_mult)
  qed
  then show ?thesis
    by (simp only: cdsn_sample_def cdsn_value_def m k Let_def s flip: B_def K_def)
qed

lemma sro_mantissa:
  assumes "0 \<le> M" "M < 4096"
  shows "(if exceeds (word_of_int M) MAX12 then word_of_int M - of_nat (2 * (MAX12 + 1)) else word_of_int M) =
         (word_of_int (twos_complement 12 M) :: i32)"
proof -
  have "exceeds (word_of_int M) MAX12 \<longleftrightarrow> 2047 < M" using assms by (subst exceeds_of_int) simp_all
  then show ?thesis by (auto simp: twos_complement_def)
qed

lemma twos_complement_12: "0 \<le> M \<Longrightarrow> M < 4096 \<Longrightarrow> - 2048 \<le> twos_complement 12 M \<and> twos_complement 12 M < 2048"
  by (simp add: twos_complement_def)

lemma sro_scaled:
  assumes "- 2048 \<le> v" "v < 2048" "e \<le> 10"
  shows "sint (ucast ((scast (word_of_int v :: i32) :: u64) * push_bit e 1) :: i32) = v * 2 ^ e"
proof -
  have s: "scast (word_of_int v :: i32) = (word_of_int v :: u64)"
  proof -
    have "sint (word_of_int v :: i32) = v" using assms by (intro sint_small) simp_all
    then show ?thesis by (simp only: scast_eq)
  qed
  have "(2::int) ^ e \<le> 2 ^ 10" using assms by (intro power_increasing) simp_all
  then have "\<bar>v * 2 ^ e\<bar> \<le> 2048 * 2 ^ 10"
    unfolding abs_mult using assms by (intro mult_mono) simp_all
  then have r: "-(2 ^ 31) \<le> v * 2 ^ e" "v * 2 ^ e < 2 ^ 31" by simp_all
  have u: "ucast (word_of_int x :: u64) = (word_of_int x :: i32)" for x
    by (rule bit_word_eqI) (simp add: bit_simps)
  have "(word_of_int v :: u64) * push_bit e 1 = word_of_int (v * 2 ^ e)"
    by (simp add: push_bit_eq_mult)
  then have "ucast ((word_of_int v :: u64) * push_bit e 1) = (word_of_int (v * 2 ^ e) :: i32)"
    by (simp only: u)
  then show ?thesis unfolding s using sint_small [OF r] by (simp only:)
qed

lemma sro_sample_error: "10 < sro_gain w \<Longrightarrow> sro_sample w = Inl (ReturnError MS_GENERROR)"
  and sro_sample_value: "sro_gain w \<le> 10 \<Longrightarrow> \<exists>v. sro_sample w = Inr v \<and> sint v = sro_value w"
proof -
  define M where "M = uint w mod 2 ^ 12"
  define G where "G = sro_gain w"
  have M: "0 \<le> M" "M < 4096" unfolding M_def by simp_all
  have G: "0 \<le> G" "G < 16" unfolding G_def sro_gain_def using top_bits(2,3) [OF uint16_bounds] by simp_all
  have m: "ucast (w AND 0xFFF) = (word_of_int M :: i32)" unfolding M_def by (simp only: ucast16 uint_masks16)
  have g: "ucast (drop_bit 12 (w AND 0xF000)) = (word_of_int G :: i32)"
    unfolding G_def sro_gain_def by (simp only: ucast16 drop_masks16 uint_drop_div)
  have g': "sint (word_of_int G :: i32) = G" using G by (intro sint_small) simp_all
  have *: "sro_sample w =
     (if - 1 * (G + 0) + 10 < 0 \<or> 10 < - 1 * (G + 0) + 10 then Inl (ReturnError MS_GENERROR)
      else Inr (ucast ((scast (word_of_int (twos_complement 12 M) :: i32) :: u64) * push_bit (nat (- 1 * (G + 0) + 10)) 1)))"
    by (simp only: sro_sample_def Let_def m g g' sro_mantissa [OF M])
  show "sro_sample w = Inl (ReturnError MS_GENERROR)" if "10 < sro_gain w"
    unfolding * using that by (simp add: G_def)
  show "\<exists>v. sro_sample w = Inr v \<and> sint v = sro_value w" if "sro_gain w \<le> 10"
  proof -
    have "nat (- 1 * (G + 0) + 10) \<le> 10" "- 1 * (G + 0) + 10 = 10 - G" using G by simp_all
    then show ?thesis
      unfolding * using that G sro_scaled [of "twos_complement 12 M" "nat (10 - G)"] twos_complement_12 [OF M]
      by (simp add: sro_value_def M_def G_def)
  qed
qed

lemma dwwssn_sample_value: "dwwssn_sample w = word_of_int (twos_complement 16 (uint w))"
proof -
  have u: "0 \<le> uint w" "uint w < 65536" by (rule uint16_bounds)+
  have "exceeds (word_of_int (uint w)) MAX16 \<longleftrightarrow> 32767 < uint w" using u by (subst exceeds_of_int) simp_all
  then show ?thesis unfolding dwwssn_sample_def Let_def ucast16 by (auto simp: twos_complement_def)
qed

lemma sint_dwwssn: "sint (dwwssn_sample w) = twos_complement 16 (uint w)"
proof -
  have "0 \<le> v \<Longrightarrow> v < 65536 \<Longrightarrow> -(2 ^ 31) \<le> twos_complement 16 v \<and> twos_complement 16 v < 2 ^ 31" for v
    by (simp add: twos_complement_def)
  then show ?thesis
    unfolding dwwssn_sample_value using uint16_bounds [of w] by (intro sint_small) blast+
qed

subsection \<open>GEOSCOPE samples\<close>

text \<open>The 24-bit number in three bytes, most significant first.\<close>

definition be24 :: "u8 \<Rightarrow> u8 \<Rightarrow> u8 \<Rightarrow> int" where
  "be24 b0 b1 b2 = uint b0 * 65536 + uint b1 * 256 + uint b2"

lemma be24_bounds: "0 \<le> be24 b0 b1 b2" "be24 b0 b1 b2 < 2 ^ 24"
  using uint_bounded [of b0] uint_bounded [of b1] uint_bounded [of b2] by (simp_all add: be24_def)

text \<open>Data are big-endian when they need a swap on a little-endian host or none on a big-endian one.\<close>

definition big_data :: "byteorder \<Rightarrow> bool \<Rightarrow> bool" where
  "big_data h swapflag \<longleftrightarrow> (h = LittleEndian) = swapflag"

lemma geoscope24_cases:
  "geoscope24_mantissa h swapflag b0 b1 b2 =
     (let m = word_of_int (if big_data h swapflag then be24 b0 b1 b2 else 256 * be24 b2 b1 b0)
      in if exceeds m MAX24 then m - of_nat (2 * (MAX24 + 1)) else m)"
proof -
  have "dword_of_bytes LittleEndian b2 b1 b0 0 = word_of_int (be24 b0 b1 b2)"
    "dword_of_bytes LittleEndian 0 b0 b1 b2 = word_of_int (256 * be24 b2 b1 b0)" for b0 b1 b2
    unfolding dword_of_bytes_int be24_def by (rule arg_cong [of _ _ word_of_int]; simp)+
  then show ?thesis
    by (cases h; cases swapflag) (simp_all add: geoscope24_mantissa_def big_data_def dword_of_bytes_big)
qed

lemma geoscope24_big:
  assumes "big_data h swapflag"
  shows "sint (geoscope24_mantissa h swapflag b0 b1 b2) = twos_complement 24 (be24 b0 b1 b2)"
proof -
  define V where "V = be24 b0 b1 b2"
  have V: "0 \<le> V" "V < 2 ^ 24" unfolding V_def by (rule be24_bounds)+
  have "exceeds (word_of_int V) MAX24 \<longleftrightarrow> 8388607 < V" using V by (subst exceeds_of_int) simp_all
  then have "geoscope24_mantissa h swapflag b0 b1 b2 = word_of_int (twos_complement 24 V)"
    using assms unfolding geoscope24_cases V_def [symmetric] Let_def by (auto simp: twos_complement_def)
  moreover have "-(2 ^ 31) \<le> twos_complement 24 V" "twos_complement 24 V < 2 ^ 31"
    using V by (simp_all add: twos_complement_def)
  ultimately show ?thesis unfolding V_def [symmetric] by (simp only: sint_small)
qed

lemma word_of_int_eqD: "word_of_int a = (word_of_int b :: i32) \<Longrightarrow> (2::int) ^ 32 dvd a - b"
proof -
  assume "word_of_int a = (word_of_int b :: i32)"
  then have "uint (word_of_int a :: i32) = uint (word_of_int b :: i32)" by simp
  then have "a mod 2 ^ LENGTH(32) = b mod 2 ^ LENGTH(32)" by (simp only: uint_word_of_int)
  then have "(2::int) ^ LENGTH(32) dvd a - b" by (simp only: mod_eq_dvd_iff)
  then show ?thesis by simp
qed

lemma geoscope24_little:
  assumes "\<not> big_data h swapflag"
  shows "sint (geoscope24_mantissa h swapflag b0 b1 b2) = twos_complement 24 (be24 b2 b1 b0) \<longleftrightarrow>
         be24 b2 b1 b0 = 0"
proof -
  define U where "U = be24 b2 b1 b0"
  have U: "0 \<le> U" "U < 2 ^ 24" unfolding U_def by (rule be24_bounds)+
  obtain k where k: "geoscope24_mantissa h swapflag b0 b1 b2 = word_of_int (256 * U - k * 2 ^ 24)"
  proof (cases "exceeds (word_of_int (256 * U)) MAX24")
    case True
    then show ?thesis using assms
      by (intro that [of 1]) (simp add: geoscope24_cases Let_def flip: U_def)
  next
    case False
    then show ?thesis using assms
      by (intro that [of 0]) (simp add: geoscope24_cases Let_def flip: U_def)
  qed
  obtain j where j: "twos_complement 24 U = U - j * 2 ^ 24"
  proof (cases "U < 8388608")
    case True then show ?thesis by (intro that [of 0]) (simp add: twos_complement_def)
  next
    case False then show ?thesis by (intro that [of 1]) (simp add: twos_complement_def)
  qed
  have "U = 0" if "sint (geoscope24_mantissa h swapflag b0 b1 b2) = twos_complement 24 U"
  proof -
    have "word_of_int (256 * U - k * 2 ^ 24) = (word_of_int (U - j * 2 ^ 24) :: i32)"
      using arg_cong [OF that, of "word_of_int :: int \<Rightarrow> i32"] unfolding k j by (simp only: of_int_sint scast_id)
    then have "(2::int) ^ 32 dvd (256 * U - k * 2 ^ 24) - (U - j * 2 ^ 24)"
      by (rule word_of_int_eqD)
    then have "(2::int) ^ 24 dvd (256 * U - k * 2 ^ 24) - (U - j * 2 ^ 24)"
      by (rule dvd_trans [rotated]) (simp add: le_imp_power_dvd)
    then have "(2::int) ^ 24 dvd 255 * U + (j - k) * 2 ^ 24"
      by (simp add: algebra_simps)
    then have "(2::int) ^ 24 dvd 255 * U" by (simp only: dvd_add_left_iff dvd_triv_right)
    moreover have "coprime ((2::int) ^ 24) 255" by (simp only: coprime_power_left_iff) simp
    ultimately have "(2::int) ^ 24 dvd U" using coprime_dvd_mult_right_iff by blast
    then show "U = 0" using U by (metis zdvd_not_zless le_less)
  qed
  moreover have "sint (geoscope24_mantissa h swapflag b0 b1 b2) = twos_complement 24 U" if "U = 0"
  proof -
    have "\<not> exceeds 0 MAX24" by (simp add: exceeds_def)
    then show ?thesis using assms that by (simp add: geoscope24_cases twos_complement_def flip: U_def)
  qed
  ultimately show ?thesis unfolding U_def by blast
qed

text \<open>The 16-bit forms: a 12-bit mantissa biased by 2048 and a 3 or 4-bit exponent.\<close>

definition geoscope16_gain :: "u8 \<Rightarrow> u16 \<Rightarrow> nat" where
  "geoscope16_gain encoding w =
     nat (if encoding = DE_GEOSCOPE163 then uint w div 2 ^ 12 mod 8 else uint w div 2 ^ 12)"

lemma drop_0x7000: "uint (drop_bit 12 (w AND 0x7000 :: u16)) = uint w div 2 ^ 12 mod 8"
proof -
  have m: "(0x7000 :: u16) = push_bit 12 (mask 3)" by (simp add: mask_eq_exp_minus_1)
  have "drop_bit 12 (w AND 0x7000) = drop_bit 12 w AND mask 3"
    by (rule bit_word_eqI, unfold bit_drop_bit_eq bit_and_iff comp_apply bit_field_const [OF m] bit_mask_iff)
       (auto dest: bit_imp_le_length)
  then show ?thesis by (simp only: uint_and_mask uint_drop_div) simp
qed

lemma geoscope16_value:
  assumes "encoding = DE_GEOSCOPE163 \<and> gainmask = 0x7000 \<or> encoding = DE_GEOSCOPE164 \<and> gainmask = 0xF000"
  shows "geoscope16_sample gainmask w = real_of_int (uint w mod 2 ^ 12 - 2048) / 2 ^ geoscope16_gain encoding w"
    and "geoscope16_gain encoding w < 16"
proof -
  define M where "M = uint w mod 2 ^ 12"
  define g where "g = geoscope16_gain encoding w"
  have M: "0 \<le> M" "M < 4096" unfolding M_def by simp_all
  have b: "0 \<le> uint w div 2 ^ 12" "uint w div 2 ^ 12 < 16" using top_bits(2,3) [OF uint16_bounds] by simp_all
  then have "0 \<le> int g" "g < 16" unfolding g_def geoscope16_gain_def by auto
  then show "geoscope16_gain encoding w < 16" by (simp add: g_def)
  have "uint (drop_bit 12 (w AND gainmask)) =
      (if encoding = DE_GEOSCOPE163 then uint w div 2 ^ 12 mod 8 else uint w div 2 ^ 12)"
    using assms
  proof (elim disjE conjE)
    assume "encoding = DE_GEOSCOPE163" and m: "gainmask = 0x7000"
    then show ?thesis unfolding m drop_0x7000 by simp
  next
    assume "encoding = DE_GEOSCOPE164" and m: "gainmask = 0xF000"
    then show ?thesis unfolding m drop_masks16(2) uint_drop_div by simp
  qed
  then have "uint (drop_bit 12 (w AND gainmask)) = int g"
    using b by (simp add: g_def geoscope16_gain_def)
  then have "ucast (drop_bit 12 (w AND gainmask)) = (word_of_int (int g) :: i32)"
    by (simp only: ucast16)
  moreover have "unat (word_of_int (int g) :: i32) = g" using \<open>g < 16\<close> by (simp add: unat_of_nat take_bit_nat_eq_self)
  ultimately have e: "unat (ucast (drop_bit 12 (w AND gainmask)) :: i32) = g" by simp
  have m: "ucast (w AND 0xFFF) = (word_of_int M :: i32)" unfolding M_def by (simp only: ucast16 uint_masks16)
  have "word_of_int M - 2048 = (word_of_int (M - 2048) :: i32)" by simp
  then have s: "sint (word_of_int M - 2048 :: i32) = M - 2048" using M sint_small [of "M - 2048"] by (simp only:) simp
  have "(2::nat) ^ g < 2 ^ 16" using \<open>g < 16\<close> by (rule power_strict_increasing) simp
  then have "unat (of_nat (2 ^ g) :: u64) = 2 ^ g" by (simp only: unat_of_nat) (simp add: take_bit_nat_eq_self)
  then have "unat (push_bit g 1 :: u64) = 2 ^ g" by (simp add: push_bit_eq_mult)
  then show "geoscope16_sample gainmask w = real_of_int (uint w mod 2 ^ 12 - 2048) / 2 ^ geoscope16_gain encoding w"
    unfolding geoscope16_sample_def Let_def e m s by (simp add: M_def g_def)
qed

lemma geoscope_loop_result:
  assumes "m = min (samplecount - i) (olen div 4)" "samplecount < 2 ^ 32"
    and "\<And>k. k < m \<Longrightarrow> geoscope_step h s e (drop (width * k) inp) = Inr (f k, width)"
    and "i + m \<le> length out" "i \<le> samplecount"
  shows "geoscope_loop h s e inp samplecount (of_nat i) out olen =
           Inr (of_nat (i + m), take i out @ map f [0..<m] @ drop (i + m) out)"
  using assms
proof (induction m arbitrary: i out olen inp f)
  case 0
  have "unat (of_nat i :: u32) = i" using 0(2,5) by (simp add: unat_of_nat take_bit_nat_eq_self)
  then show ?case using rounds_end [OF 0(1)] by (subst geoscope_loop.simps, subst if_not_P) simp_all
next
  case (Suc m)
  have z: "0 < (4::nat)" by simp
  note step = rounds_step [OF Suc.prems(1) z]
  have len: "i < length out" using Suc.prems(4) by simp
  have u: "unat (of_nat i :: u32) = i" using step(1) Suc.prems(2) by (simp add: unat_of_nat take_bit_nat_eq_self)
  have c: "geoscope_step h s e inp = Inr (f 0, width)" using Suc.prems(3) [of 0] by simp
  have IH: "geoscope_loop h s e (drop width inp) samplecount (of_nat (Suc i)) (out[i := f 0]) (olen - 4) =
      Inr (of_nat (Suc i + m), take (Suc i) (out[i := f 0]) @ map (\<lambda>k. f (Suc k)) [0..<m] @ drop (Suc i + m) (out[i := f 0]))"
    using Suc.prems(2,3,4) step(1) by (intro Suc.IH step(3)) (simp_all flip: Suc.prems(3) add: add.commute)
  have "geoscope_loop h s e inp samplecount (of_nat i) out olen =
        geoscope_loop h s e (drop width inp) samplecount (of_nat (Suc i)) (out[i := f 0]) (olen - 4)"
    using step(1,2) len u c by (subst geoscope_loop.simps) (simp add: add.commute)
  moreover have "map f [0..<Suc m] = f 0 # map (\<lambda>k. f (Suc k)) [0..<m]"
    by (simp only: map_upt_Suc)
  ultimately show ?case using IH len
    by (simp add: list_update_take_drop del: upt_Suc of_nat_Suc of_nat_add)
qed

subsection \<open>Errors inside the loop\<close>

lemma decode_loop_error:
  assumes "i \<le> k" "k < samplecount" "samplecount < 2 ^ 32" "(k - i) * z + z \<le> olen" "0 < z"
    and "\<And>j. i \<le> j \<Longrightarrow> j < k \<Longrightarrow> \<exists>v. conv j = Inr v" "conv k = Inl e" "k \<le> length out"
  shows "decode_loop conv z samplecount (of_nat i) out olen = Inl e"
  using assms
proof (induction "k - i" arbitrary: i out olen)
  case 0
  then have "i = k" by simp
  have "unat (of_nat k :: u32) = k" using 0 by (simp add: unat_of_nat take_bit_nat_eq_self)
  then show ?case using 0 \<open>i = k\<close> by (subst decode_loop.simps) simp
next
  case (Suc d)
  have lt: "i < k" using Suc.hyps(2) by simp
  have u: "unat (of_nat i :: u32) = i" using lt Suc.prems by (simp add: unat_of_nat take_bit_nat_eq_self)
  obtain v where v: "conv i = Inr v" using Suc.prems(6) lt by blast
  have k: "k - i = Suc (k - Suc i)" using lt by simp
  have room: "(k - Suc i) * z + z \<le> olen - z" using Suc.prems(4) unfolding k by simp
  have IH: "decode_loop conv z samplecount (of_nat (Suc i)) (out[i := v]) (olen - z) = Inl e"
    by (rule Suc.hyps(1)) (use Suc.hyps(2) Suc.prems lt room in auto)
  have z: "z \<le> olen" using Suc.prems(4) by linarith
  show ?case
    by (subst decode_loop.simps) (use u v z lt Suc.prems(2,5,8) IH in \<open>simp add: add.commute\<close>)
qed

subsection \<open>Properties\<close>

text \<open>
  C29. The CDSN and DWWSSN decoders produce, for every input word in the byte order the
  swap flag says, the integer the format defines: (B - 8191) times 1, 4, 16 or 128 by the
  gain key, and the 16-bit two's complement; every sample asked for is decoded.
\<close>

theorem cdsn_dwwssn_values:
  assumes "0 < n" "n < 2 ^ 32" "n \<le> length inp" "n \<le> length out" "n * 4 \<le> room"
  shows "(\<exists>ys. msr_decode_cdsn (Some inp) n (Some out) room s = Inr (n, Some (ys @ drop n out)) \<and>
            map sint ys = map (\<lambda>w. cdsn_value (swap2_if s w)) (take n inp)) \<and>
         (\<exists>ys. msr_decode_dwwssn (Some inp) n (Some out) room s = Inr (n, Some (ys @ drop n out)) \<and>
            map sint ys = map (\<lambda>w. twos_complement 16 (uint (swap2_if s w))) (take n inp))"
proof -
  have n: "n = min n (room div 4)" "1 \<le> room" using assms(1,5) by linarith+
  have "decode_plain (\<lambda>w. Inr (f (swap2_if s w))) 4 1 (Some inp) n (Some out) room =
          Inr (n, Some (map (\<lambda>w. f (swap2_if s w)) (take n inp) @ drop n out))" for f :: "u16 \<Rightarrow> i32"
    using assms n by (intro decode_plain_result) simp_all
  then show ?thesis
    by (simp add: msr_decode_cdsn_def msr_decode_dwwssn_def cdsn_sample_value sint_dwwssn cong: map_cong)
qed

theorem cdsn_dwwssn_values_witness:
  "(\<exists>ys. msr_decode_cdsn (Some [0x4000, 0xFFFF]) 2 (Some [0, 0, 7]) 8 True = Inr (2, Some (ys @ drop 2 [0, 0, 7])) \<and>
      map sint ys = map (\<lambda>w. cdsn_value (swap2_if True w)) (take 2 [0x4000, 0xFFFF])) \<and>
   (\<exists>ys. msr_decode_dwwssn (Some [0x4000, 0xFFFF]) 2 (Some [0, 0, 7]) 8 True = Inr (2, Some (ys @ drop 2 [0, 0, 7])) \<and>
      map sint ys = map (\<lambda>w. twos_complement 16 (uint (swap2_if True w))) (take 2 [0x4000, 0xFFFF]))"
  by (rule cdsn_dwwssn_values) simp_all

text \<open>
  C30. The SRO decoder gives M * 2^(10 - G) for every sample when no gain factor G exceeds
  10, and fails with the generic error as soon as one of the samples asked for has a
  larger one, whatever the rest of the input.
\<close>

theorem sro_values_or_error:
  assumes "0 < n" "n < 2 ^ 32" "n \<le> length inp" "n \<le> length out" "n * 4 \<le> room"
  shows "if \<exists>w \<in> set (take n inp). 10 < sro_gain (swap2_if s w)
         then msr_decode_sro (Some inp) n (Some out) room s = Inl (ReturnError (- 1))
         else \<exists>ys. msr_decode_sro (Some inp) n (Some out) room s = Inr (n, Some (ys @ drop n out)) \<and>
                map sint ys = map (\<lambda>w. sro_value (swap2_if s w)) (take n inp)"
proof -
  let ?bad = "\<lambda>w. 10 < sro_gain (swap2_if s w)"
  let ?conv = "\<lambda>i. if i < length inp then sro_sample (swap2_if s (inp ! i)) else Inl OutOfBounds"
  have n: "n = min n (room div 4)" "1 \<le> room" using assms(1,5) by linarith+
  show ?thesis
  proof (cases "\<exists>w \<in> set (take n inp). ?bad w")
    case True
    define k where "k = (LEAST k. k < n \<and> ?bad (inp ! k))"
    have ex: "\<exists>k. k < n \<and> ?bad (inp ! k)" using True assms(3) by (fastforce simp: in_set_conv_nth)
    have k: "k < n" "?bad (inp ! k)" using LeastI_ex [OF ex] by (simp_all add: k_def)
    have before: "\<not> ?bad (inp ! j)" if "j < k" for j
      using not_less_Least [of j "\<lambda>k. k < n \<and> ?bad (inp ! k)"] that k(1) by (auto simp: k_def)
    have "decode_loop ?conv 4 n (of_nat 0) out room = Inl (ReturnError MS_GENERROR)"
    proof (rule decode_loop_error)
      show "(k - 0) * 4 + 4 \<le> room" using k(1) assms(5) by linarith
      show "\<exists>v. ?conv j = Inr v" if "j < k" for j
        using sro_sample_value [of "swap2_if s (inp ! j)"] before [OF that] that k(1) assms(3) by auto
      show "?conv k = Inl (ReturnError MS_GENERROR)"
        using sro_sample_error [OF k(2)] k(1) assms(3) by simp
    qed (use k assms in simp_all)
    then have "msr_decode_sro (Some inp) n (Some out) room s = Inl (ReturnError (- 1))"
      using assms(1) n(2) by (simp add: msr_decode_sro_def decode_plain_def)
    then show ?thesis using True by simp
  next
    case False
    define f where "f w = (SOME v. sro_sample (swap2_if s w) = Inr v \<and> sint v = sro_value (swap2_if s w))" for w
    have f: "sro_sample (swap2_if s w) = Inr (f w) \<and> sint (f w) = sro_value (swap2_if s w)" if "w \<in> set (take n inp)" for w
      unfolding f_def by (rule someI_ex, rule sro_sample_value) (use False that in auto)
    have "msr_decode_sro (Some inp) n (Some out) room s = Inr (n, Some (map f (take n inp) @ drop n out))"
      unfolding msr_decode_sro_def using assms n f by (intro decode_plain_result) simp_all
    moreover have "map sint (map f (take n inp)) = map (\<lambda>w. sro_value (swap2_if s w)) (take n inp)"
      using f by simp
    ultimately show ?thesis using False by auto
  qed
qed

theorem sro_values_or_error_witness:
  "if \<exists>w \<in> set (take 2 [0x3FFF, 0xB001]). 10 < sro_gain (swap2_if False w)
   then msr_decode_sro (Some [0x3FFF, 0xB001]) 2 (Some [0, 0]) 8 False = Inl (ReturnError (- 1))
   else \<exists>ys. msr_decode_sro (Some [0x3FFF, 0xB001]) 2 (Some [0, 0]) 8 False = Inr (2, Some (ys @ drop 2 [0, 0])) \<and>
          map sint ys = map (\<lambda>w. sro_value (swap2_if False w)) (take 2 [0x3FFF, 0xB001])"
  by (rule sro_values_or_error) simp_all

lemma geoscope_decodes:
  assumes "0 < n" "n < 2 ^ 32" "n \<le> length out" "n * 4 \<le> room"
    and "encoding \<in> {DE_GEOSCOPE24, DE_GEOSCOPE163, DE_GEOSCOPE164}"
    and "\<And>k. k < n \<Longrightarrow> geoscope_step h s encoding (drop (width * k) inp) = Inr (f k, width)"
  shows "msr_decode_geoscope h (Some inp) n (Some out) room encoding s =
           Inr (n, Some (map f [0..<n] @ drop n out))"
proof -
  have "geoscope_loop h s encoding inp n (of_nat 0) out room =
          Inr (of_nat (0 + n), take 0 out @ map f [0..<n] @ drop (0 + n) out)"
    using assms by (intro geoscope_loop_result) simp_all
  moreover have "unat (of_nat n :: u32) = n" using assms(2) by (simp add: unat_of_nat take_bit_nat_eq_self)
  ultimately show ?thesis using assms by (auto simp: msr_decode_geoscope_def)
qed

lemma drop_as_list2: "k + 2 \<le> length xs \<Longrightarrow> drop k xs = xs ! k # xs ! (k + 1) # drop (k + 2) xs"
  by (simp add: Cons_nth_drop_Suc)

lemma drop_as_list3: "k + 3 \<le> length xs \<Longrightarrow> drop k xs = xs ! k # xs ! (k + 1) # xs ! (k + 2) # drop (k + 3) xs"
  by (simp add: Cons_nth_drop_Suc eval_nat_numeral)

text \<open>
  C31. The GEOSCOPE gain-ranged decoder gives (M - 2048) / 2^G for every sample, M the
  12-bit mantissa and G the 3 or 4-bit gain of the word in the data's byte order. Every
  such number is a 12-bit integer over a power of two of at most 2^15, so the code's
  conversions to double and float are exact.
\<close>

theorem geoscope16_values:
  assumes "0 < n" "n < 2 ^ 32" "2 * n \<le> length inp" "n \<le> length out" "n * 4 \<le> room"
    and "encoding = DE_GEOSCOPE163 \<or> encoding = DE_GEOSCOPE164"
  shows "\<exists>ys. msr_decode_geoscope h (Some inp) n (Some out) room encoding s = Inr (n, Some (ys @ drop n out)) \<and>
           length ys = n \<and>
           (\<forall>k < n. let w = swap2_if s (word_of_bytes h (inp ! (2 * k)) (inp ! (2 * k + 1)));
                        M = uint w mod 2 ^ 12 - 2048; G = geoscope16_gain encoding w
                    in ys ! k = real_of_int M / 2 ^ G \<and> \<bar>M\<bar> \<le> 2 ^ 11 \<and> G < 16)"
proof -
  define w where "w k = swap2_if s (word_of_bytes h (inp ! (2 * k)) (inp ! (2 * k + 1)))" for k
  define mk where "mk = (if encoding = DE_GEOSCOPE163 then 0x7000 else 0xf000 :: u16)"
  have mk: "encoding = DE_GEOSCOPE163 \<and> mk = 0x7000 \<or> encoding = DE_GEOSCOPE164 \<and> mk = 0xF000"
    using assms(6) by (auto simp: mk_def)
  have step: "geoscope_step h s encoding (drop (2 * k) inp) = Inr (geoscope16_sample mk (w k), 2)" if "k < n" for k
    using that assms(3,6) drop_as_list2 [of "2 * k" inp]
    by (auto simp: geoscope_step.simps w_def mk_def)
  have d: "msr_decode_geoscope h (Some inp) n (Some out) room encoding s =
      Inr (n, Some (map (\<lambda>k. geoscope16_sample mk (w k)) [0..<n] @ drop n out))"
    by (rule geoscope_decodes [OF assms(1,2,4,5) _ step]) (use assms(6) in auto)
  have b: "\<bar>uint v mod 2 ^ 12 - 2048\<bar> \<le> 2 ^ 11" for v :: u16
  proof -
    have "0 \<le> uint v mod 4096" "uint v mod 4096 < 4096" by simp_all
    then show ?thesis by simp
  qed
  show ?thesis
    by (rule exI, rule conjI [OF d])
       (simp add: Let_def geoscope16_value [OF mk] b [simplified] w_def)
qed

theorem geoscope16_values_witness:
  "\<exists>ys. msr_decode_geoscope LittleEndian (Some [0x34, 0x12, 0xFF, 0xFF]) 2 (Some [0, 0]) 8 DE_GEOSCOPE164 True =
       Inr (2, Some (ys @ drop 2 [0, 0])) \<and> length ys = 2 \<and>
     (\<forall>k < 2. let w = swap2_if True (word_of_bytes LittleEndian ([0x34, 0x12, 0xFF, 0xFF] ! (2 * k))
                        ([0x34, 0x12, 0xFF, 0xFF] ! (2 * k + 1)));
                  M = uint w mod 2 ^ 12 - 2048; G = geoscope16_gain DE_GEOSCOPE164 w
              in ys ! k = real_of_int M / 2 ^ G \<and> \<bar>M\<bar> \<le> 2 ^ 11 \<and> G < 16)"
  by (rule geoscope16_values) simp_all

text \<open>
  C32. The 24-bit GEOSCOPE decoder reads big-endian data right, as 24-bit two's
  complement, on either host; little-endian data it places one byte off, so that every
  sample other than 0 comes out wrong.
\<close>

theorem geoscope24_values:
  assumes "0 < n" "n < 2 ^ 32" "3 * n \<le> length inp" "n \<le> length out" "n * 4 \<le> room"
  shows "\<exists>ys. msr_decode_geoscope h (Some inp) n (Some out) room DE_GEOSCOPE24 s = Inr (n, Some (ys @ drop n out)) \<and>
           length ys = n \<and>
           (\<forall>k < n. let b0 = inp ! (3 * k); b1 = inp ! (3 * k + 1); b2 = inp ! (3 * k + 2) in
              if big_data h s then ys ! k = real_of_int (twos_complement 24 (be24 b0 b1 b2))
              else ys ! k = real_of_int (twos_complement 24 (be24 b2 b1 b0)) \<longleftrightarrow> be24 b2 b1 b0 = 0)"
proof -
  define f where "f k = real_of_int (sint (geoscope24_mantissa h s (inp ! (3 * k)) (inp ! (3 * k + 1)) (inp ! (3 * k + 2))))" for k
  have step: "geoscope_step h s DE_GEOSCOPE24 (drop (3 * k) inp) = Inr (f k, 3)" if "k < n" for k
    using that assms(3) drop_as_list3 [of "3 * k" inp] by (simp add: geoscope_step.simps f_def)
  have d: "msr_decode_geoscope h (Some inp) n (Some out) room DE_GEOSCOPE24 s =
      Inr (n, Some (map f [0..<n] @ drop n out))"
    by (rule geoscope_decodes [OF assms(1,2,4,5) _ step]) auto
  have f: "if big_data h s then f k = real_of_int (twos_complement 24 (be24 (inp ! (3 * k)) (inp ! (3 * k + 1)) (inp ! (3 * k + 2))))
      else f k = real_of_int (twos_complement 24 (be24 (inp ! (3 * k + 2)) (inp ! (3 * k + 1)) (inp ! (3 * k)))) \<longleftrightarrow>
           be24 (inp ! (3 * k + 2)) (inp ! (3 * k + 1)) (inp ! (3 * k)) = 0" for k
    unfolding f_def of_int_eq_iff by (cases "big_data h s") (simp_all only: geoscope24_big geoscope24_little if_True if_False not_False_eq_True)
  show ?thesis unfolding Let_def
  proof (rule exI, intro conjI allI impI, rule d)
    show "length (map f [0..<n]) = n" by simp
    fix k assume "k < n"
    then have "map f [0..<n] ! k = f k" by simp
    then show "if big_data h s then map f [0..<n] ! k = real_of_int (twos_complement 24 (be24 (inp ! (3 * k)) (inp ! (3 * k + 1)) (inp ! (3 * k + 2))))
      else map f [0..<n] ! k = real_of_int (twos_complement 24 (be24 (inp ! (3 * k + 2)) (inp ! (3 * k + 1)) (inp ! (3 * k)))) \<longleftrightarrow>
           be24 (inp ! (3 * k + 2)) (inp ! (3 * k + 1)) (inp ! (3 * k)) = 0"
      using f by (simp only:)
  qed
qed

theorem geoscope24_values_witness:
  "\<exists>ys. msr_decode_geoscope LittleEndian (Some [1, 0, 0]) 1 (Some [0]) 4 DE_GEOSCOPE24 False =
       Inr (1, Some (ys @ drop 1 [0])) \<and> length ys = 1 \<and>
     (\<forall>k < 1. let b0 = [1, 0, 0] ! (3 * k); b1 = [1, 0, 0] ! (3 * k + 1); b2 = [1, 0, 0] ! (3 * k + 2) in
        if big_data LittleEndian False then ys ! k = real_of_int (twos_complement 24 (be24 b0 b1 b2))
        else ys ! k = real_of_int (twos_complement 24 (be24 b2 b1 b0)) \<longleftrightarrow> be24 b2 b1 b0 = 0)"
  by (rule geoscope24_values) simp_all

end
