(* ===== verification/Gmtime.thy ===== *)
theory Gmtime
  imports Prelude "HOL-Library.Signed_Division"
begin

text \<open>
  The 64-bit gmtime of gmtime64.c. Its integers are int64_t and every intermediate value
  is bounded by the input, so they are \<open>int\<close> here; C division and remainder truncate
  (\<open>sdiv\<close>, \<open>smod\<close>). The day count of the proleptic Gregorian calendar is the reference.
\<close>

record tm =
  tm_sec :: int
  tm_min :: int
  tm_hour :: int
  tm_mday :: int
  tm_mon :: int
  tm_year :: int
  tm_wday :: int
  tm_yday :: int

definition days_in_month :: "bool \<Rightarrow> nat \<Rightarrow> int" where
  "days_in_month leap mon =
     (if leap then [31, 29, 31, 30, 31, 30, 31, 31, 30, 31, 30, 31]
      else [31, 28, 31, 30, 31, 30, 31, 31, 30, 31, 30, 31]) ! mon"

definition julian_days_by_month :: "bool \<Rightarrow> nat \<Rightarrow> int" where
  "julian_days_by_month leap mon =
     (if leap then [0, 31, 60, 91, 121, 152, 182, 213, 244, 274, 305, 335]
      else [0, 31, 59, 90, 120, 151, 181, 212, 243, 273, 304, 334]) ! mon"

definition length_of_year :: "bool \<Rightarrow> int" where
  "length_of_year leap = (if leap then 366 else 365)"

definition days_in_gregorian_cycle :: int where
  "days_in_gregorian_cycle = (365 * 400) + 100 - 4 + 1"

definition CHEAT_DAYS :: int where
  "CHEAT_DAYS = 1199145600 sdiv 24 sdiv 60 sdiv 60"

definition CHEAT_YEARS :: int where
  "CHEAT_YEARS = 108"

definition IS_LEAP :: "int \<Rightarrow> bool" where
  "IS_LEAP n \<longleftrightarrow> (n + 1900) smod 400 = 0 \<or> ((n + 1900) smod 4 = 0 \<and> (n + 1900) smod 100 \<noteq> 0)"

definition WRAP_TIME64 :: "int \<Rightarrow> int \<Rightarrow> int \<Rightarrow> int \<times> int" where
  "WRAP_TIME64 a b m = (if a < 0 then (a + m, b - 1) else (a, b))"

subsection \<open>The loops\<close>

lemma length_of_year_bounds: "365 \<le> length_of_year l" "length_of_year l \<le> 366"
  by (simp_all add: length_of_year_def)

lemma beyond_year: "length_of_year l \<le> m \<Longrightarrow> 0 < m" "m < - length_of_year l \<Longrightarrow> m < 0"
  using length_of_year_bounds [of l] by linarith+

function years_up :: "int \<Rightarrow> int \<Rightarrow> int \<times> int" where
  "years_up m year =
     (let leap = IS_LEAP year in
      if m \<ge> length_of_year leap then years_up (m - length_of_year leap) (year + 1)
      else (m, year))"
  by pat_completeness auto
termination
  by (relation "measure (\<lambda>(m, y). nat m)")
    (use length_of_year_bounds(1) in \<open>auto simp: beyond_year less_le_trans [OF _ length_of_year_bounds(1)]\<close>)

function years_down :: "int \<Rightarrow> int \<Rightarrow> int \<times> int" where
  "years_down m year =
     (let leap = IS_LEAP year in
      if m < - length_of_year leap then years_down (m + length_of_year leap) (year - 1)
      else (m, year))"
  by pat_completeness auto
termination
  by (relation "measure (\<lambda>(m, y). nat (- m))")
    (auto simp: beyond_year less_le_trans [OF _ length_of_year_bounds(1)])

function months_up :: "bool \<Rightarrow> int \<Rightarrow> nat \<Rightarrow> (int \<times> nat) result" where
  "months_up leap m mon =
     (if 12 \<le> mon then Inl OutOfBounds
      else if m \<ge> days_in_month leap mon then months_up leap (m - days_in_month leap mon) (Suc mon)
      else Inr (m, mon))"
  by pat_completeness auto
termination by (relation "measure (\<lambda>(l, m, mon). 12 - mon)") auto

fun months_down :: "bool \<Rightarrow> int \<Rightarrow> nat \<Rightarrow> (int \<times> nat) result" where
  "months_down leap m 0 =
     (if m < - days_in_month leap 0 then Inl OutOfBounds else Inr (m + days_in_month leap 0, 0))"
| "months_down leap m (Suc mon) =
     (if m < - days_in_month leap (Suc mon) then months_down leap (m + days_in_month leap (Suc mon)) mon
      else Inr (m + days_in_month leap (Suc mon), Suc mon))"

declare years_up.simps [simp del] years_down.simps [simp del] months_up.simps [simp del]

text \<open>
  The year and the day within it of a day count; \<open>Inr (year, mon, m)\<close> has the month index
  and the day of the month from 0.
\<close>

definition civil_up :: "int \<Rightarrow> int \<Rightarrow> (int \<times> nat \<times> int) result" where
  "civil_up m year =
     (let cycles = m sdiv days_in_gregorian_cycle;
          m = (if cycles \<noteq> 0 then m - cycles * days_in_gregorian_cycle else m);
          year = (if cycles \<noteq> 0 then year + cycles * 400 else year);
          (m, year) = years_up m year
      in case months_up (IS_LEAP year) m 0 of
           Inl e \<Rightarrow> Inl e
         | Inr (m, mon) \<Rightarrow> Inr (year, mon, m))"

definition civil_down :: "int \<Rightarrow> int \<Rightarrow> (int \<times> nat \<times> int) result" where
  "civil_down m year =
     (let year = year - 1;
          cycles = m sdiv days_in_gregorian_cycle + 1;
          m = (if cycles \<noteq> 0 then m - cycles * days_in_gregorian_cycle else m);
          year = (if cycles \<noteq> 0 then year + cycles * 400 else year);
          (m, year) = years_down m year
      in case months_down (IS_LEAP year) m 11 of
           Inl e \<Rightarrow> Inl e
         | Inr (m, mon) \<Rightarrow> Inr (year, mon, m))"

text \<open>\<open>None\<close> is the NULL returned for a year that does not fit an int.\<close>

definition ms_gmtime64_r :: "int \<Rightarrow> tm option result" where
  "ms_gmtime64_r in_time =
     (let v_tm_sec = in_time smod 60;
          time = in_time sdiv 60;
          v_tm_min = time smod 60;
          time = time sdiv 60;
          v_tm_hour = time smod 24;
          v_tm_tday = time sdiv 24;
          (v_tm_sec, v_tm_min) = WRAP_TIME64 v_tm_sec v_tm_min 60;
          (v_tm_min, v_tm_hour) = WRAP_TIME64 v_tm_min v_tm_hour 60;
          (v_tm_hour, v_tm_tday) = WRAP_TIME64 v_tm_hour v_tm_tday 24;
          v_tm_wday = (v_tm_tday + 4) smod 7;
          v_tm_wday = (if v_tm_wday < 0 then v_tm_wday + 7 else v_tm_wday);
          (m, year) = (if v_tm_tday \<ge> CHEAT_DAYS then (v_tm_tday - CHEAT_DAYS, CHEAT_YEARS) else (v_tm_tday, 70))
      in case (if m \<ge> 0 then civil_up m year else civil_down m year) of
           Inl e \<Rightarrow> Inl e
         | Inr (year, mon, m) \<Rightarrow>
             if year < - (2 ^ 31) \<or> 2 ^ 31 \<le> year then Inr None
             else Inr (Some \<lparr>tm_sec = v_tm_sec, tm_min = v_tm_min, tm_hour = v_tm_hour,
                             tm_mday = m + 1, tm_mon = int mon, tm_year = year, tm_wday = v_tm_wday,
                             tm_yday = julian_days_by_month (IS_LEAP year) mon + m\<rparr>))"

subsection \<open>The calendar\<close>

definition leap_year :: "int \<Rightarrow> bool" where
  "leap_year y \<longleftrightarrow> y mod 400 = 0 \<or> (y mod 4 = 0 \<and> y mod 100 \<noteq> 0)"

text \<open>Days from 1970-01-01 to the first of January of a year.\<close>

definition year_start :: "int \<Rightarrow> int" where
  "year_start y = 365 * (y - 1970) + (y - 1) div 4 - (y - 1) div 100 + (y - 1) div 400 - 477"

lemma smod_zero_iff: "(a :: int) smod b = 0 \<longleftrightarrow> b dvd a"
proof -
  have "a smod b = 0 \<longleftrightarrow> a = 0 \<or> \<bar>b\<bar> dvd \<bar>a\<bar>"
    by (simp add: signed_modulo_int_def sgn_eq_0_iff dvd_eq_mod_eq_0)
  then show ?thesis by auto
qed

lemma IS_LEAP_iff: "IS_LEAP n \<longleftrightarrow> leap_year (n + 1900)"
  by (simp add: IS_LEAP_def leap_year_def smod_zero_iff dvd_eq_mod_eq_0)

lemma div_step:
  assumes "0 < (k :: int)"
  shows "y div k = (y - 1) div k + (if y mod k = 0 then 1 else 0)"
proof (cases "y mod k = 0")
  case True
  then obtain q where q: "y = k * q" by (metis mod_0_imp_dvd dvdE)
  have "(k * q - 1) div k = q - 1"
    using assms by (intro int_div_pos_eq [where r = "k - 1"]) (simp_all add: algebra_simps)
  then show ?thesis using True assms by (simp add: q)
next
  case False
  then have "0 < y mod k" using assms by (simp add: order_less_le)
  then have "(y - 1) div k = y div k"
  proof (intro int_div_pos_eq [where r = "y mod k - 1"])
    show "y - 1 = k * (y div k) + (y mod k - 1)" by simp
    show "y mod k - 1 < k" using pos_mod_bound [OF assms, of y] by linarith
  qed simp
  then show ?thesis using False by simp
qed

lemma year_start_next: "year_start (y + 1) = year_start y + length_of_year (leap_year y)"
proof -
  have "(4::int) dvd 100" "(100::int) dvd 400" by simp_all
  then have "y mod 100 = 0 \<Longrightarrow> y mod 4 = 0" "y mod 400 = 0 \<Longrightarrow> y mod 100 = 0"
    by (auto simp flip: dvd_eq_mod_eq_0 intro: dvd_trans)
  then have "length_of_year (leap_year y) = 365 + (if y mod 4 = 0 then 1 else 0) - (if y mod 100 = 0 then 1 else 0) +
      (if y mod 400 = 0 then 1 else 0)"
    by (auto simp: leap_year_def length_of_year_def)
  moreover have "year_start (y + 1) = 365 * (y + 1 - 1970) + y div 4 - y div 100 + y div 400 - 477"
    by (simp add: year_start_def)
  moreover have "365 * (y + 1 - 1970) + a - b + c - 477 = (365 * (y - 1970) + a' - b' + c' - 477) + l"
    if "a = a' + i" "b = b' + j" "c = c' + k" "l = 365 + i - j + k" for a b c a' b' c' i j k l :: int
    using that by simp
  from this [OF div_step div_step div_step] have "365 * (y + 1 - 1970) + y div 4 - y div 100 + y div 400 - 477 =
      (365 * (y - 1970) + (y - 1) div 4 - (y - 1) div 100 + (y - 1) div 400 - 477) +
      (365 + (if y mod 4 = 0 then 1 else 0) - (if y mod 100 = 0 then 1 else 0) + (if y mod 400 = 0 then 1 else 0))"
    by this simp_all
  ultimately show ?thesis by (simp only: year_start_def)
qed

lemma year_start_cycle: "year_start (y + 400 * c) = year_start y + c * days_in_gregorian_cycle"
proof -
  have "(y + 400 * c - 1) div k = (y - 1) div k + q * c" if "400 = k * q" "0 < k" for k q
  proof -
    have "y + 400 * c - 1 = (y - 1) + k * (q * c)" using that(1) by simp
    then show ?thesis using that(2) by (simp only: div_mult_self2)
  qed
  from this [of 4 100] this [of 100 4] this [of 400 1] show ?thesis
    by (simp add: year_start_def days_in_gregorian_cycle_def algebra_simps)
qed

subsection \<open>The loops against the calendar\<close>

lemma years_up_correct:
  "0 \<le> m \<Longrightarrow> years_up m year = (m', year') \<Longrightarrow>
     year_start (1900 + year') + m' = year_start (1900 + year) + m \<and>
     0 \<le> m' \<and> m' < length_of_year (IS_LEAP year')"
proof (induction m year rule: years_up.induct)
  case (1 m year)
  let ?l = "length_of_year (IS_LEAP year)"
  have next_year: "year_start (1900 + (year + 1)) = year_start (1900 + year) + ?l"
    using year_start_next [of "1900 + year"] by (simp add: IS_LEAP_iff add.commute add.left_commute)
  show ?case
  proof (cases "m \<ge> ?l")
    case True
    then have "years_up (m - ?l) (year + 1) = (m', year')"
      using "1.prems"(2) by (subst (asm) years_up.simps) (simp add: Let_def)
    then show ?thesis using "1.IH" [OF refl True] True next_year by simp
  next
    case False
    then show ?thesis using "1.prems" by (subst (asm) years_up.simps) (simp add: Let_def)
  qed
qed

lemma years_down_correct:
  "m < 0 \<Longrightarrow> years_down m year = (m', year') \<Longrightarrow>
     year_start (1900 + year' + 1) + m' = year_start (1900 + year + 1) + m \<and>
     m' < 0 \<and> - length_of_year (IS_LEAP year') \<le> m'"
proof (induction m year rule: years_down.induct)
  case (1 m year)
  let ?l = "length_of_year (IS_LEAP year)"
  have next_year: "year_start (1900 + year + 1) = year_start (1900 + year) + ?l"
    using year_start_next [of "1900 + year"] by (simp add: IS_LEAP_iff add.commute)
  show ?case
  proof (cases "m < - ?l")
    case True
    then have "years_down (m + ?l) (year - 1) = (m', year')"
      using "1.prems"(2) by (subst (asm) years_down.simps) (simp add: Let_def)
    then show ?thesis using "1.IH" [OF refl True] True next_year by simp
  next
    case False
    then show ?thesis using "1.prems" by (subst (asm) years_down.simps) (simp add: Let_def)
  qed
qed

text \<open>The tables agree: a month starts where the one before it ends.\<close>

lemma less_12_cases:
  "(i::nat) < 12 \<Longrightarrow> i = 0 \<or> i = 1 \<or> i = 2 \<or> i = 3 \<or> i = 4 \<or> i = 5 \<or> i = 6 \<or> i = 7 \<or> i = 8 \<or> i = 9 \<or> i = 10 \<or> i = 11"
  by arith

lemma julian_next: "mon < 11 \<Longrightarrow> julian_days_by_month leap (Suc mon) = julian_days_by_month leap mon + days_in_month leap mon"
  using less_12_cases [of mon] by (auto simp: julian_days_by_month_def days_in_month_def)

lemma julian_last: "julian_days_by_month leap 11 + days_in_month leap 11 = length_of_year leap"
  by (simp add: julian_days_by_month_def days_in_month_def length_of_year_def)

lemma julian_0: "julian_days_by_month leap 0 = 0"
  by (simp add: julian_days_by_month_def)

definition month_day :: "bool \<Rightarrow> nat \<Rightarrow> int \<Rightarrow> int \<Rightarrow> bool" where
  "month_day leap mon m yday \<longleftrightarrow>
     mon < 12 \<and> 0 \<le> m \<and> m < days_in_month leap mon \<and> julian_days_by_month leap mon + m = yday"

lemma months_up_correct:
  "mon < 12 \<Longrightarrow> 0 \<le> m \<Longrightarrow> julian_days_by_month leap mon + m < length_of_year leap \<Longrightarrow>
   \<exists>m' mon'. months_up leap m mon = Inr (m', mon') \<and> month_day leap mon' m' (julian_days_by_month leap mon + m)"
proof (induction leap m mon rule: months_up.induct)
  case (1 leap m mon)
  show ?case
  proof (cases "m \<ge> days_in_month leap mon")
    case True
    have "mon \<noteq> 11" using True "1.prems" julian_last [of leap] by auto
    then have mon: "mon < 11" "Suc mon < 12" using "1.prems"(1) by auto
    have "\<exists>m' mon'. months_up leap (m - days_in_month leap mon) (Suc mon) = Inr (m', mon') \<and>
        month_day leap mon' m' (julian_days_by_month leap (Suc mon) + (m - days_in_month leap mon))"
      using "1.prems" True mon julian_next [OF mon(1), of leap] by (intro "1.IH") simp_all
    then show ?thesis
      using True "1.prems"(1) julian_next [OF mon(1), of leap] by (subst months_up.simps) simp
  next
    case False
    then show ?thesis using "1.prems" by (subst months_up.simps) (simp add: month_day_def)
  qed
qed

lemma months_down_correct:
  "mon < 12 \<Longrightarrow> m < 0 \<Longrightarrow> 0 \<le> julian_days_by_month leap mon + days_in_month leap mon + m \<Longrightarrow>
   \<exists>m' mon'. months_down leap m mon = Inr (m', mon') \<and>
     month_day leap mon' m' (julian_days_by_month leap mon + days_in_month leap mon + m)"
proof (induction leap m mon rule: months_down.induct)
  case (1 leap m)
  then show ?case using julian_0 [of leap] by (simp add: month_day_def)
next
  case (2 leap m mon)
  then have step: "julian_days_by_month leap (Suc mon) = julian_days_by_month leap mon + days_in_month leap mon"
    by (intro julian_next) simp
  show ?case
  proof (cases "m < - days_in_month leap (Suc mon)")
    case True
    then show ?thesis using 2 step by (simp add: algebra_simps)
  next
    case False
    then show ?thesis using 2 by (simp add: month_day_def)
  qed
qed

lemma sdiv_nonneg: "0 \<le> (a :: int) \<Longrightarrow> 0 < b \<Longrightarrow> a sdiv b = a div b"
  by (cases "a = 0") (simp_all add: signed_divide_int_def)

lemma sdiv_neg: "(a :: int) < 0 \<Longrightarrow> 0 < b \<Longrightarrow> a sdiv b = - ((- a) div b)"
  by (simp add: signed_divide_int_def)

lemma smod_sdiv: "(a :: int) smod b = a - b * (a sdiv b)"
  using sdiv_mult_smod_eq [of a b] by (simp add: algebra_simps)

definition civil :: "int \<Rightarrow> int \<times> nat \<times> int \<Rightarrow> bool" where
  "civil d = (\<lambda>(year, mon, m). \<exists>yday. month_day (IS_LEAP year) mon m yday \<and> year_start (1900 + year) + yday = d)"

lemma civil_up_correct:
  assumes "0 \<le> m"
  shows "\<exists>r. civil_up m year = Inr r \<and> civil (year_start (1900 + year) + m) r"
proof -
  define c where "c = m sdiv days_in_gregorian_cycle"
  define m1 where "m1 = m - c * days_in_gregorian_cycle"
  define y1 where "y1 = year + c * 400"
  obtain m2 y2 where my: "years_up m1 y1 = (m2, y2)" by fastforce
  have "c = m div days_in_gregorian_cycle"
    unfolding c_def using assms by (intro sdiv_nonneg) (simp_all add: days_in_gregorian_cycle_def)
  then have "m1 = m mod days_in_gregorian_cycle" unfolding m1_def by (simp add: minus_div_mult_eq_mod)
  then have m1: "0 \<le> m1" by (simp add: days_in_gregorian_cycle_def)
  have start: "year_start (1900 + y1) + m1 = year_start (1900 + year) + m"
    using year_start_cycle [of "1900 + year" c] by (simp add: y1_def m1_def algebra_simps)
  note up = years_up_correct [OF m1 my]
  obtain m3 mon where mm: "months_up (IS_LEAP y2) m2 0 = Inr (m3, mon)" "month_day (IS_LEAP y2) mon m3 m2"
    using months_up_correct [of 0 m2 "IS_LEAP y2"] up by (auto simp: julian_0)
  have "civil_up m year = Inr (y2, mon, m3)"
    using my mm(1) by (auto simp: civil_up_def Let_def m1_def y1_def c_def)
  then show ?thesis using mm(2) up start by (auto simp: civil_def)
qed

lemma civil_down_correct:
  assumes "m < 0"
  shows "\<exists>r. civil_down m year = Inr r \<and> civil (year_start (1900 + year) + m) r"
proof -
  define c where "c = m sdiv days_in_gregorian_cycle + 1"
  define m1 where "m1 = m - c * days_in_gregorian_cycle"
  define y1 where "y1 = year - 1 + c * 400"
  obtain m2 y2 where my: "years_down m1 y1 = (m2, y2)" by fastforce
  have c: "c = - ((- m) div days_in_gregorian_cycle) + 1"
    unfolding c_def using assms by (subst sdiv_neg) (simp_all add: days_in_gregorian_cycle_def)
  have "m1 = - ((- m) mod days_in_gregorian_cycle) - days_in_gregorian_cycle"
  proof -
    have "m1 = m - days_in_gregorian_cycle + (- m) div days_in_gregorian_cycle * days_in_gregorian_cycle"
      unfolding m1_def c by (simp add: algebra_simps)
    then show ?thesis using minus_div_mult_eq_mod [of "- m" days_in_gregorian_cycle] by linarith
  qed
  moreover have "0 \<le> (- m) mod days_in_gregorian_cycle" "0 < days_in_gregorian_cycle"
    by (simp_all add: days_in_gregorian_cycle_def)
  ultimately have m1: "m1 < 0" by linarith
  have start: "year_start (1900 + y1 + 1) + m1 = year_start (1900 + year) + m"
    using year_start_cycle [of "1900 + year" c] by (simp add: y1_def m1_def algebra_simps)
  note down = years_down_correct [OF m1 my]
  let ?l = "length_of_year (IS_LEAP y2)"
  have ns: "year_start (1900 + y2 + 1) = year_start (1900 + y2) + ?l"
    using year_start_next [of "1900 + y2"] by (simp add: IS_LEAP_iff add.commute)
  obtain m3 mon where mm: "months_down (IS_LEAP y2) m2 11 = Inr (m3, mon)" "month_day (IS_LEAP y2) mon m3 (?l + m2)"
    using months_down_correct [of 11 m2 "IS_LEAP y2"] down by (auto simp: julian_last)
  have ifs: "(if c \<noteq> 0 then m - c * days_in_gregorian_cycle else m) = m1" "(if c \<noteq> 0 then year - 1 + c * 400 else year - 1) = y1"
    by (simp_all add: m1_def y1_def)
  have "civil_down m year = Inr (y2, mon, m3)"
    by (simp only: civil_down_def Let_def ifs my mm(1) sum.case prod.case flip: c_def)
  then show ?thesis using mm(2) down start ns by (auto simp: civil_def)
qed

text \<open>The three truncating divisions and wraps are the floor divisions of the time of day.\<close>

lemma wrap_floor:
  assumes "- k \<le> x" "x < k" "a = k * q + x"
  shows "WRAP_TIME64 x b k = (a mod k, b - (if x < 0 then 1 else 0))"
    and "a div k = q - (if x < 0 then 1 else 0)"
proof -
  have k: "0 < k" using assms by linarith
  have "a div k = q - (if x < 0 then 1 else 0) \<and> a mod k = (if x < 0 then x + k else x)"
  proof (cases "x < 0")
    case True
    have a: "a = k * (q - 1) + (x + k)" using assms(3) by (simp add: algebra_simps)
    have r: "0 \<le> x + k" "x + k < k" using True assms(1) by simp_all
    show ?thesis using int_div_pos_eq [OF a r] int_mod_pos_eq [OF a r] True by simp
  next
    case False
    then show ?thesis using int_div_pos_eq [OF assms(3) _ assms(2)] int_mod_pos_eq [OF assms(3) _ assms(2)] by simp
  qed
  then show "WRAP_TIME64 x b k = (a mod k, b - (if x < 0 then 1 else 0))"
    "a div k = q - (if x < 0 then 1 else 0)"
    by (auto simp: WRAP_TIME64_def)
qed

lemma smod_range: "0 < (k :: int) \<Longrightarrow> - k < a smod k \<and> a smod k < k"
  using smod_int_range [of k a] by auto

lemma weekday_floor: "(if (d + 4) smod 7 < 0 then (d + 4) smod 7 + 7 else (d + 4) smod 7) = (d + 4 :: int) mod 7"
proof -
  have r: "-7 \<le> (d + 4) smod 7" "(d + 4) smod 7 < 7" using smod_range [of 7 "d + 4"] by simp_all
  have "d + 4 = 7 * ((d + 4) sdiv 7) + (d + 4) smod 7" by (simp add: smod_sdiv)
  from wrap_floor(1) [OF r this, of 0] show ?thesis by (auto simp: WRAP_TIME64_def split: if_splits)
qed

definition int_range :: "int \<Rightarrow> bool" where
  "int_range y \<longleftrightarrow> - (2 ^ 31) \<le> y \<and> y < 2 ^ 31"

lemma gmtime_parts:
  "\<exists>year mon m. civil (t div 86400) (year, mon, m) \<and>
     ms_gmtime64_r t = Inr (if int_range year then
       Some \<lparr>tm_sec = t mod 60, tm_min = t div 60 mod 60, tm_hour = t div 3600 mod 24,
             tm_mday = m + 1, tm_mon = int mon, tm_year = year, tm_wday = (t div 86400 + 4) mod 7,
             tm_yday = t div 86400 - year_start (1900 + year)\<rparr> else None)"
proof -
  define s0 T1 m0 T2 h0 T3 where "s0 = t smod 60" and "T1 = t sdiv 60" and "m0 = T1 smod 60"
    and "T2 = T1 sdiv 60" and "h0 = T2 smod 24" and "T3 = T2 sdiv 24"
  define e1 e2 where "e1 = (if s0 < 0 then 1 else 0 :: int)" and "e2 = (if m0 - e1 < 0 then 1 else 0 :: int)"
  have t: "t = 60 * T1 + s0" "T1 = 60 * T2 + m0" "T2 = 24 * T3 + h0"
    by (simp_all add: s0_def T1_def m0_def T2_def h0_def T3_def smod_sdiv)
  have b: "- 60 < s0 \<and> s0 < 60" "- 60 < m0 \<and> m0 < 60" "- 24 < h0 \<and> h0 < 24"
    unfolding s0_def m0_def h0_def by (intro smod_range; simp)+
  have e: "0 \<le> e1" "e1 \<le> 1" "0 \<le> e2" "e2 \<le> 1" by (simp_all add: e1_def e2_def)
  have w1: "WRAP_TIME64 s0 m0 60 = (t mod 60, m0 - e1)" "t div 60 = T1 - e1"
    unfolding e1_def using wrap_floor [of 60 s0 t T1] b t by simp_all
  have r2: "- 60 \<le> m0 - e1" "m0 - e1 < 60" "t div 60 = 60 * T2 + (m0 - e1)" using b e t(2) w1(2) by linarith+
  have w2: "WRAP_TIME64 (m0 - e1) h0 60 = (t div 60 mod 60, h0 - e2)" "t div 60 div 60 = T2 - e2"
    unfolding e2_def by (rule wrap_floor [OF r2])+
  have r3: "- 24 \<le> h0 - e2" "h0 - e2 < 24" "t div 60 div 60 = 24 * T3 + (h0 - e2)" using b e t(3) w2(2) by linarith+
  have w3: "WRAP_TIME64 (h0 - e2) T3 24 = (t div 60 div 60 mod 24, T3 - (if h0 - e2 < 0 then 1 else 0))"
    "t div 60 div 60 div 24 = T3 - (if h0 - e2 < 0 then 1 else 0)"
    by (rule wrap_floor [OF r3])+
  have hd: "t div 60 div 60 = t div 3600" "t div 60 div 60 div 24 = t div 86400"
    by (simp_all flip: zdiv_zmult2_eq)
  define d where "d = t div 86400"
  have w3': "WRAP_TIME64 (h0 - e2) T3 24 = (t div 3600 mod 24, d)"
    using w3 hd by (simp add: d_def)
  define my where "my = (if d \<ge> CHEAT_DAYS then (d - CHEAT_DAYS, CHEAT_YEARS) else (d, 70))"
  have start: "year_start (1900 + snd my) + fst my = d"
    by (simp add: my_def year_start_def CHEAT_DAYS_def CHEAT_YEARS_def sdiv_nonneg)
  obtain year mon m where r: "(if fst my \<ge> 0 then civil_up (fst my) (snd my) else civil_down (fst my) (snd my)) = Inr (year, mon, m)"
    "civil d (year, mon, m)"
    using civil_up_correct [of "fst my" "snd my"] civil_down_correct [of "fst my" "snd my"] start
    by (cases "fst my \<ge> 0") auto
  have "julian_days_by_month (IS_LEAP year) mon + m = d - year_start (1900 + year)"
    using r(2) by (auto simp: civil_def month_day_def)
  then have "ms_gmtime64_r t = Inr (if int_range year then
       Some \<lparr>tm_sec = t mod 60, tm_min = t div 60 mod 60, tm_hour = t div 3600 mod 24,
             tm_mday = m + 1, tm_mon = int mon, tm_year = year, tm_wday = (d + 4) mod 7,
             tm_yday = d - year_start (1900 + year)\<rparr> else None)"
    using r(1) weekday_floor [of d] unfolding my_def
    by (auto simp: ms_gmtime64_r_def Let_def w1(1) w2(1) w3' int_range_def
        simp flip: s0_def T1_def m0_def T2_def h0_def T3_def split: if_splits)
  then show ?thesis using r(2) unfolding d_def by blast
qed

text \<open>A day is in one year only.\<close>

lemma year_start_mono: "y \<le> z \<Longrightarrow> year_start y \<le> year_start z"
proof (induction z rule: int_ge_induct)
  case (step z)
  then show ?case using year_start_next [of z] length_of_year_bounds(1) [of "leap_year z"] by linarith
qed simp

lemma year_unique:
  assumes "year_start y + a = year_start z + b"
    and "0 \<le> a" "a < length_of_year (leap_year y)" "0 \<le> b" "b < length_of_year (leap_year z)"
  shows "y = z"
proof (rule ccontr)
  assume "y \<noteq> z"
  then consider "y + 1 \<le> z" | "z + 1 \<le> y" by linarith
  then show False
    using assms year_start_mono [of "y + 1" z] year_start_mono [of "z + 1" y]
      year_start_next [of y] year_start_next [of z] by cases linarith+
qed

lemma month_day_yday: "month_day leap mon m yday \<Longrightarrow> 0 \<le> yday \<and> yday < length_of_year leap"
proof -
  assume md: "month_day leap mon m yday"
  then have "mon < 12" by (simp add: month_day_def)
  then have "0 \<le> julian_days_by_month leap mon \<and>
      julian_days_by_month leap mon + days_in_month leap mon \<le> length_of_year leap"
    using less_12_cases [of mon] by (auto simp: julian_days_by_month_def days_in_month_def length_of_year_def)
  then show ?thesis using md by (auto simp: month_day_def)
qed

end
