(* ===== verification/NsTime.thy ===== *)
theory NsTime
  imports Gmtime
begin

text \<open>
  Calendar and epoch conversions of genutils.c: day of year against month and day, the
  nanosecond epoch time \<open>nstime_t\<close> against date and time fields. An \<open>nstime_t\<close> is an
  \<open>int\<close>; where the code could leave the 64-bit range the model has an \<open>Overflow\<close> branch.
  An \<open>nstime_t\<close> of \<open>NSTERROR\<close> is what the code returns for an error, a value as any other.
\<close>

definition NSTMODULUS :: int where
  "NSTMODULUS = 1000000000"

definition NSTERROR :: int where
  "NSTERROR = -2145916800000000000"

definition NSTUNSET :: int where
  "NSTUNSET = -2145916799999999999"

definition int64 :: "int \<Rightarrow> bool" where
  "int64 x \<longleftrightarrow> - (2 ^ 63) \<le> x \<and> x < 2 ^ 63"

subsection \<open>Range checks\<close>

definition monthdays :: "int list" where
  "monthdays = [31, 28, 31, 30, 31, 30, 31, 31, 30, 31, 30, 31]"

definition monthdays_leap :: "int list" where
  "monthdays_leap = [31, 29, 31, 30, 31, 30, 31, 31, 30, 31, 30, 31]"

definition LEAPYEAR :: "int \<Rightarrow> bool" where
  "LEAPYEAR year \<longleftrightarrow> (year smod 4 = 0 \<and> year smod 100 \<noteq> 0) \<or> year smod 400 = 0"

definition VALIDYEAR :: "int \<Rightarrow> bool" where
  "VALIDYEAR year \<longleftrightarrow> year \<ge> 1678 \<and> year \<le> 2262"

definition VALIDMONTH :: "int \<Rightarrow> bool" where
  "VALIDMONTH month \<longleftrightarrow> month \<ge> 1 \<and> month \<le> 12"

definition VALIDMONTHDAY :: "int \<Rightarrow> int \<Rightarrow> int \<Rightarrow> bool" where
  "VALIDMONTHDAY year month mday \<longleftrightarrow>
     mday \<ge> 0 \<and> mday \<le> (if LEAPYEAR year then monthdays_leap ! nat (month - 1) else monthdays ! nat (month - 1))"

definition VALIDYEARDAY :: "int \<Rightarrow> int \<Rightarrow> bool" where
  "VALIDYEARDAY year yday \<longleftrightarrow> yday \<ge> 1 \<and> yday \<le> 365 + (if LEAPYEAR year then 1 else 0)"

definition VALIDHOUR :: "int \<Rightarrow> bool" where
  "VALIDHOUR hour \<longleftrightarrow> hour \<ge> 0 \<and> hour \<le> 23"

definition VALIDMIN :: "int \<Rightarrow> bool" where
  "VALIDMIN minute \<longleftrightarrow> minute \<ge> 0 \<and> minute \<le> 59"

definition VALIDSEC :: "int \<Rightarrow> bool" where
  "VALIDSEC sec \<longleftrightarrow> sec \<ge> 0 \<and> sec \<le> 60"

definition VALIDNANOSEC :: "int \<Rightarrow> bool" where
  "VALIDNANOSEC nanosec \<longleftrightarrow> nanosec \<le> 999999999"

subsection \<open>Day of year, month and day\<close>

text \<open>The loop over the months; \<open>None\<close> when it ends without a break, nothing stored.\<close>

fun doy2md_loop :: "int list \<Rightarrow> int \<Rightarrow> int \<Rightarrow> (int \<times> int) option" where
  "doy2md_loop [] idx yday = None"
| "doy2md_loop (d # days) idx yday =
     (let yday = yday - d in
      if yday \<le> 0 then Some (idx + 1, d + yday) else doy2md_loop days (idx + 1) yday)"

definition ms_doy2md :: "int \<Rightarrow> int \<Rightarrow> bool \<Rightarrow> (int \<times> int) option result" where
  "ms_doy2md year yday dest_given =
     (if \<not> dest_given then Inl (ReturnError (-1))
      else if \<not> VALIDYEAR year then Inl (ReturnError (-1))
      else if \<not> VALIDYEARDAY year yday then Inl (ReturnError (-1))
      else Inr (doy2md_loop (if LEAPYEAR year then monthdays_leap else monthdays) 0 yday))"

fun md2doy_loop :: "int list \<Rightarrow> int \<Rightarrow> int \<Rightarrow> int \<Rightarrow> int \<Rightarrow> int" where
  "md2doy_loop [] idx month mday yday = yday"
| "md2doy_loop (d # days) idx month mday yday =
     (if idx = month then yday + mday else md2doy_loop days (idx + 1) month mday (yday + d))"

definition ms_md2doy :: "int \<Rightarrow> int \<Rightarrow> int \<Rightarrow> bool \<Rightarrow> int result" where
  "ms_md2doy year month mday dest_given =
     (if \<not> dest_given then Inl (ReturnError (-1))
      else if \<not> VALIDYEAR year then Inl (ReturnError (-1))
      else if \<not> VALIDMONTH month then Inl (ReturnError (-1))
      else if \<not> VALIDMONTHDAY year month mday then Inl (ReturnError (-1))
      else Inr (md2doy_loop (if LEAPYEAR year then monthdays_leap else monthdays) 0 (month - 1) mday 0))"

subsection \<open>Epoch time to fields\<close>

record date_time =
  dt_year :: int
  dt_yday :: int
  dt_hour :: int
  dt_min :: int
  dt_sec :: int
  dt_nsec :: int

text \<open>All destinations are given; they are a uint16_t, a uint16_t, three uint8_t and a uint32_t.\<close>

definition ms_nstime2time :: "int \<Rightarrow> date_time result" where
  "ms_nstime2time nstime =
     (let isec = nstime sdiv NSTMODULUS;
          ifract = nstime - isec * NSTMODULUS;
          (isec, ifract) =
            (if nstime < 0 \<and> ifract \<noteq> 0 then (isec - 1, NSTMODULUS - (- ifract)) else (isec, ifract))
      in case ms_gmtime64_r isec of
           Inl e \<Rightarrow> Inl e
         | Inr None \<Rightarrow> Inl (ReturnError (-1))
         | Inr (Some tms) \<Rightarrow>
             Inr \<lparr>dt_year = (tm_year tms + 1900) mod 2 ^ 16, dt_yday = (tm_yday tms + 1) mod 2 ^ 16,
                  dt_hour = tm_hour tms mod 2 ^ 8, dt_min = tm_min tms mod 2 ^ 8,
                  dt_sec = tm_sec tms mod 2 ^ 8, dt_nsec = ifract mod 2 ^ 32\<rparr>)"

subsection \<open>Fields to epoch time\<close>

text \<open>The days from the fields, in \<open>int\<close> arithmetic; a right shift of a negative number keeps its sign.\<close>

definition intervening_days :: "int \<Rightarrow> int \<Rightarrow> int" where
  "intervening_days year yday =
     (let shortyear = year - 1900;
          a4 = shortyear div 2 ^ 2 + 475 - (if shortyear mod 4 = 0 then 1 else 0);
          a100 = a4 sdiv 25 - (if a4 smod 25 < 0 then 1 else 0);
          a400 = a100 div 2 ^ 2;
          intervening_leap_days = (a4 - 492) - (a100 - 19) + (a400 - 4)
      in 365 * (shortyear - 70) + intervening_leap_days + (yday - 1))"

definition ms_time2nstime_int :: "int \<Rightarrow> int \<Rightarrow> int \<Rightarrow> int \<Rightarrow> int \<Rightarrow> int \<Rightarrow> int result" where
  "ms_time2nstime_int year yday hour minute sec nsec =
     (let days = intervening_days year yday;
          nstime = (60 * (60 * (24 * days + hour) + minute) + sec) * NSTMODULUS
      in if \<not> int64 nstime \<or> \<not> int64 (nstime + nsec) then Inl Overflow
         else Inr (nstime + nsec))"

definition ms_time2nstime :: "int \<Rightarrow> int \<Rightarrow> int \<Rightarrow> int \<Rightarrow> int \<Rightarrow> int \<Rightarrow> int result" where
  "ms_time2nstime year yday hour minute sec nsec =
     (if \<not> VALIDYEAR year then Inr NSTERROR
      else if \<not> VALIDYEARDAY year yday then Inr NSTERROR
      else if \<not> VALIDHOUR hour then Inr NSTERROR
      else if \<not> VALIDMIN minute then Inr NSTERROR
      else if \<not> VALIDSEC sec then Inr NSTERROR
      else if \<not> VALIDNANOSEC nsec then Inr NSTERROR
      else ms_time2nstime_int year yday hour minute sec nsec)"

subsection \<open>Lemmas\<close>

lemma LEAPYEAR_iff: "LEAPYEAR y \<longleftrightarrow> leap_year y"
  by (auto simp: LEAPYEAR_def leap_year_def smod_zero_iff dvd_eq_mod_eq_0)

lemma doy_loops:
  "1 \<le> yday \<Longrightarrow> yday \<le> sum_list days \<Longrightarrow>
   \<exists>month mday. doy2md_loop days idx yday = Some (month, mday) \<and>
     idx < month \<and> month \<le> idx + int (length days) \<and> 1 \<le> mday \<and> mday \<le> days ! nat (month - 1 - idx) \<and>
     md2doy_loop days idx (month - 1) mday acc = acc + yday"
proof (induction days arbitrary: idx yday acc)
  case (Cons d days)
  show ?case
  proof (cases "yday \<le> d")
    case True
    then show ?thesis using Cons.prems by (auto simp: Let_def)
  next
    case False
    obtain month mday where IH: "doy2md_loop days (idx + 1) (yday - d) = Some (month, mday)"
      "idx + 1 < month" "month \<le> idx + 1 + int (length days)" "1 \<le> mday" "mday \<le> days ! nat (month - 1 - (idx + 1))"
      "md2doy_loop days (idx + 1) (month - 1) mday (acc + d) = acc + d + (yday - d)"
      using Cons.IH [of "yday - d" "idx + 1" "acc + d"] Cons.prems False by auto
    have "(d # days) ! nat (month - 1 - idx) = days ! nat (month - 1 - (idx + 1))"
      using IH(2) by (subst nth_Cons') (auto simp: nat_diff_distrib diff_diff_eq intro: arg_cong [of _ _ "(!) days"])
    then show ?thesis using IH False by (auto simp: Let_def)
  qed
qed simp

lemma md_loops:
  "idx \<le> month \<Longrightarrow> month < idx + int (length days) \<Longrightarrow> 1 \<le> mday \<Longrightarrow> mday \<le> days ! nat (month - idx) \<Longrightarrow>
   \<forall>d \<in> set days. 0 < d \<Longrightarrow>
   \<exists>k. md2doy_loop days idx month mday acc = acc + k \<and> 1 \<le> k \<and> k \<le> sum_list days \<and>
     doy2md_loop days idx k = Some (month + 1, mday)"
proof (induction days arbitrary: idx acc)
  case (Cons d days)
  show ?case
  proof (cases "idx = month")
    case True
    moreover have "0 \<le> sum_list days" using Cons.prems(5) by (intro sum_list_nonneg) auto
    ultimately show ?thesis using Cons.prems by (intro exI [of _ mday]) (auto simp: Let_def)
  next
    case False
    then have lt: "idx < month" using Cons.prems(1) by simp
    have n: "(d # days) ! nat (month - idx) = days ! nat (month - (idx + 1))"
      using lt by (subst nth_Cons') (auto simp: nat_diff_distrib diff_diff_eq intro: arg_cong [of _ _ "(!) days"])
    obtain k where k: "md2doy_loop days (idx + 1) month mday (acc + d) = acc + d + k" "1 \<le> k" "k \<le> sum_list days"
      "doy2md_loop days (idx + 1) k = Some (month + 1, mday)"
      using Cons.IH [of "idx + 1" "acc + d"] Cons.prems lt n by auto
    then show ?thesis
      using Cons.prems(5) False by (intro exI [of _ "d + k"]) (auto simp: Let_def)
  qed
qed simp

lemma monthdays_facts:
  "length monthdays = 12" "length monthdays_leap = 12" "sum_list monthdays = 365" "sum_list monthdays_leap = 366"
  "\<forall>d \<in> set monthdays. 0 < d" "\<forall>d \<in> set monthdays_leap. 0 < d"
  by (simp_all add: monthdays_def monthdays_leap_def)

definition months_of :: "int \<Rightarrow> int list" where
  "months_of year = (if LEAPYEAR year then monthdays_leap else monthdays)"

lemma months_of_facts:
  "length (months_of y) = 12" "sum_list (months_of y) = 365 + (if LEAPYEAR y then 1 else 0)"
  "\<forall>d \<in> set (months_of y). 0 < d"
  by (simp_all add: months_of_def monthdays_facts)

lemma VALIDMONTHDAY_months: "VALIDMONTHDAY y m d \<longleftrightarrow> 0 \<le> d \<and> d \<le> months_of y ! nat (m - 1)"
  by (simp add: VALIDMONTHDAY_def months_of_def)

lemma intervening_days_start:
  assumes "1600 \<le> year"
  shows "intervening_days year yday = year_start year + (yday - 1)"
proof -
  define a4 where "a4 = (year - 1) div 4"
  have four: "(year - 1900) div 2 ^ 2 + 475 - (if (year - 1900) mod 4 = 0 then 1 else 0) = a4"
  proof -
    have "year - 1900 = year + 4 * (- 475)" by simp
    then have "(year - 1900) div 4 = year div 4 - 475" "(year - 1900) mod 4 = year mod 4"
      by (simp_all only: div_mult_self2 mod_mult_self2)
    then show ?thesis using div_step [of 4 year] by (simp add: a4_def)
  qed
  have "0 \<le> a4" unfolding a4_def using assms by simp
  then have "a4 sdiv 25 = a4 div 25" "\<not> a4 smod 25 < 0"
    by (simp_all add: sdiv_nonneg smod_sdiv minus_mult_div_eq_mod)
  then have hundred: "a4 sdiv 25 - (if a4 smod 25 < 0 then 1 else 0) = (year - 1) div 100"
    by (simp add: a4_def flip: zdiv_zmult2_eq)
  have "(year - 1) div 100 div 2 ^ 2 = (year - 1) div 400"
    by (simp flip: zdiv_zmult2_eq)
  then show ?thesis
    unfolding intervening_days_def Let_def four hundred by (simp add: year_start_def a4_def)
qed

definition epoch_ns :: "int \<Rightarrow> int \<Rightarrow> int \<Rightarrow> int \<Rightarrow> int \<Rightarrow> int \<Rightarrow> int" where
  "epoch_ns year yday hour minute sec nsec =
     ((year_start year + yday - 1) * 86400 + hour * 3600 + minute * 60 + sec) * NSTMODULUS + nsec"

definition valid_fields :: "int \<Rightarrow> int \<Rightarrow> int \<Rightarrow> int \<Rightarrow> int \<Rightarrow> int \<Rightarrow> bool" where
  "valid_fields year yday hour minute sec nsec \<longleftrightarrow>
     VALIDYEAR year \<and> VALIDYEARDAY year yday \<and> VALIDHOUR hour \<and> VALIDMIN minute \<and> VALIDSEC sec \<and>
     0 \<le> nsec \<and> VALIDNANOSEC nsec"

lemma year_start_bounds:
  assumes "VALIDYEAR year"
  shows "-106650 \<le> year_start year" "year_start year \<le> 106651"
  using assms year_start_mono [of 1678 year] year_start_mono [of year 2262]
  by (simp_all add: VALIDYEAR_def year_start_def)

lemma ms_time2nstime_value:
  assumes "valid_fields year yday hour minute sec nsec"
  shows "ms_time2nstime year yday hour minute sec nsec =
           (if epoch_ns year yday hour minute sec nsec < 2 ^ 63
            then Inr (epoch_ns year yday hour minute sec nsec) else Inl Overflow)"
proof -
  let ?s = "60 * (60 * (24 * (year_start year + (yday - 1)) + hour) + minute) + sec"
  have v: "1 \<le> yday" "0 \<le> hour" "0 \<le> minute" "0 \<le> sec" "0 \<le> nsec" and y: "VALIDYEAR year"
    using assms
    by (auto simp: valid_fields_def VALIDYEARDAY_def VALIDHOUR_def VALIDMIN_def VALIDSEC_def)
  have e: "?s * NSTMODULUS + nsec = epoch_ns year yday hour minute sec nsec"
    by (simp add: epoch_ns_def algebra_simps)
  have lo: "-9214560000 \<le> ?s" proof -
    have "?s = 86400 * (year_start year + (yday - 1)) + 3600 * hour + 60 * minute + sec" by simp
    then show ?thesis using year_start_bounds(1) [OF y] v by simp
  qed
  have "- (2 ^ 63) \<le> ?s * NSTMODULUS" using lo by (simp add: NSTMODULUS_def)
  moreover have "?s * NSTMODULUS \<le> ?s * NSTMODULUS + nsec" using v by simp
  ultimately have "int64 (?s * NSTMODULUS) \<and> int64 (?s * NSTMODULUS + nsec) \<longleftrightarrow> ?s * NSTMODULUS + nsec < 2 ^ 63"
    unfolding int64_def by linarith
  moreover have "intervening_days year yday = year_start year + (yday - 1)"
    using y by (intro intervening_days_start) (simp add: VALIDYEAR_def)
  ultimately have "ms_time2nstime_int year yday hour minute sec nsec =
      (if ?s * NSTMODULUS + nsec < 2 ^ 63 then Inr (?s * NSTMODULUS + nsec) else Inl Overflow)"
    by (simp only: ms_time2nstime_int_def Let_def) auto
  then show ?thesis using assms by (simp only: e) (simp add: ms_time2nstime_def valid_fields_def)
qed

lemma nstime_split:
  "\<exists>isec ifract. (if nstime < 0 \<and> nstime - nstime sdiv NSTMODULUS * NSTMODULUS \<noteq> 0
      then (nstime sdiv NSTMODULUS - 1, NSTMODULUS - (- (nstime - nstime sdiv NSTMODULUS * NSTMODULUS)))
      else (nstime sdiv NSTMODULUS, nstime - nstime sdiv NSTMODULUS * NSTMODULUS)) = (isec, ifract) \<and>
     isec = nstime div NSTMODULUS \<and> ifract = nstime mod NSTMODULUS"
proof -
  define x where "x = nstime smod NSTMODULUS"
  have x: "x = nstime - nstime sdiv NSTMODULUS * NSTMODULUS" by (simp add: x_def smod_sdiv mult.commute)
  have n: "nstime = NSTMODULUS * (nstime sdiv NSTMODULUS) + x" by (simp add: x)
  have r: "- NSTMODULUS < x" "x < NSTMODULUS" using smod_range [of NSTMODULUS nstime] by (simp_all add: x_def NSTMODULUS_def)
  have neg: "nstime < 0 \<and> x \<noteq> 0 \<longleftrightarrow> x < 0"
    by (auto simp: x_def signed_modulo_int_def sgn_if NSTMODULUS_def)
  have w: "WRAP_TIME64 x 0 NSTMODULUS = (nstime mod NSTMODULUS, 0 - (if x < 0 then 1 else 0))"
    "nstime div NSTMODULUS = nstime sdiv NSTMODULUS - (if x < 0 then 1 else 0)"
    using wrap_floor [OF _ r(2) n] r(1) by simp_all
  show ?thesis unfolding x [symmetric] neg using w by (auto simp: WRAP_TIME64_def split: if_splits)
qed

lemma ms_nstime2time_parts:
  assumes "int64 nstime"
  shows "\<exists>year mon m. civil (nstime div NSTMODULUS div 86400) (year, mon, m) \<and>
     1677 \<le> year + 1900 \<and> year + 1900 \<le> 2262 \<and>
     ms_nstime2time nstime = Inr
       \<lparr>dt_year = year + 1900, dt_yday = nstime div NSTMODULUS div 86400 - year_start (1900 + year) + 1,
        dt_hour = nstime div NSTMODULUS div 3600 mod 24, dt_min = nstime div NSTMODULUS div 60 mod 60,
        dt_sec = nstime div NSTMODULUS mod 60, dt_nsec = nstime mod NSTMODULUS\<rparr>"
proof -
  define isec where "isec = nstime div NSTMODULUS"
  define d where "d = isec div 86400"
  obtain year mon m where c: "civil d (year, mon, m)" and g: "ms_gmtime64_r isec = Inr (if int_range year then
       Some \<lparr>tm_sec = isec mod 60, tm_min = isec div 60 mod 60, tm_hour = isec div 3600 mod 24,
             tm_mday = m + 1, tm_mon = int mon, tm_year = year, tm_wday = (d + 4) mod 7,
             tm_yday = d - year_start (1900 + year)\<rparr> else None)"
    using gmtime_parts [of isec] unfolding d_def by blast
  obtain yday where y: "0 \<le> yday" "yday < length_of_year (IS_LEAP year)" "year_start (1900 + year) + yday = d"
    using c month_day_yday by (auto simp: civil_def)
  have "-9223372037 \<le> isec" "isec \<le> 9223372036"
  proof -
    have "-9223372036854775808 \<le> nstime" "nstime < 9223372036854775808" using assms by (simp_all add: int64_def)
    then show "-9223372037 \<le> isec" "isec \<le> 9223372036" unfolding isec_def NSTMODULUS_def by linarith+
  qed
  then have d: "-106752 \<le> d" "d \<le> 106751" unfolding d_def by linarith+
  have "1677 \<le> 1900 + year"
  proof (rule ccontr)
    assume "\<not> 1677 \<le> 1900 + year"
    then have "year_start (1900 + year + 1) \<le> year_start 1677" by (intro year_start_mono) simp
    then show False using y d year_start_next [of "1900 + year"] by (simp add: IS_LEAP_iff add.commute year_start_def [of 1677])
  qed
  moreover have "1900 + year \<le> 2262"
  proof (rule ccontr)
    assume "\<not> 1900 + year \<le> 2262"
    then have "year_start 2263 \<le> year_start (1900 + year)" by (intro year_start_mono) simp
    then show False using y d by (simp add: year_start_def [of 2263])
  qed
  moreover have "yday < 366" using y(2) length_of_year_bounds(2) [of "IS_LEAP year"] by simp
  ultimately have "ms_nstime2time nstime = Inr
       \<lparr>dt_year = year + 1900, dt_yday = d - year_start (1900 + year) + 1,
        dt_hour = isec div 3600 mod 24, dt_min = isec div 60 mod 60,
        dt_sec = isec mod 60, dt_nsec = nstime mod NSTMODULUS\<rparr>"
  proof -
    assume yr: "1677 \<le> 1900 + year" "1900 + year \<le> 2262" and yd: "yday < 366"
    have small: "x mod k mod m = x mod k" if "0 < k" "k \<le> m" for x k m :: int
    proof (rule mod_pos_pos_trivial)
      show "0 \<le> x mod k" using that by simp
      show "x mod k < m" using pos_mod_bound [OF that(1), of x] that(2) by linarith
    qed
    have "int_range year" using yr by (simp add: int_range_def)
    moreover obtain isec' ifract where s: "(if nstime < 0 \<and> nstime - nstime sdiv NSTMODULUS * NSTMODULUS \<noteq> 0
        then (nstime sdiv NSTMODULUS - 1, NSTMODULUS - (- (nstime - nstime sdiv NSTMODULUS * NSTMODULUS)))
        else (nstime sdiv NSTMODULUS, nstime - nstime sdiv NSTMODULUS * NSTMODULUS)) = (isec', ifract)"
      "isec' = isec" "ifract = nstime mod NSTMODULUS"
      using nstime_split [of nstime] unfolding isec_def by blast
    moreover have "(d - year_start (1900 + year) + 1) mod 2 ^ 16 = d - year_start (1900 + year) + 1"
      "(year + 1900) mod 2 ^ 16 = year + 1900"
      using y yr yd by simp_all
    moreover have "nstime mod NSTMODULUS mod 2 ^ 32 = nstime mod NSTMODULUS" by (rule small) (simp_all add: NSTMODULUS_def)
    ultimately show ?thesis
      unfolding ms_nstime2time_def Let_def s by (simp add: small g)
  qed
  then show ?thesis using c \<open>1677 \<le> 1900 + year\<close> \<open>1900 + year \<le> 2262\<close> unfolding isec_def d_def
    by (intro exI [of _ year] exI [of _ mon] exI [of _ m]) (simp add: add.commute)
qed

subsection \<open>Properties\<close>

text \<open>
  C14. The 64-bit gmtime terminates and stays inside its month tables for every input
  second count, and gives the Gregorian date: the year and day of year whose day number is
  the floor of the seconds over 86400, the month and day of that day of year, the time of
  day and the weekday. NULL comes back exactly when the year does not fit an int.
\<close>

theorem gmtime_gregorian:
  "\<exists>year mon m yday. month_day (IS_LEAP year) mon m yday \<and> year_start (1900 + year) + yday = t div 86400 \<and>
     ms_gmtime64_r t = Inr (if - (2 ^ 31) \<le> year \<and> year < 2 ^ 31 then
       Some \<lparr>tm_sec = t mod 60, tm_min = t div 60 mod 60, tm_hour = t div 3600 mod 24,
             tm_mday = m + 1, tm_mon = int mon, tm_year = year, tm_wday = (t div 86400 + 4) mod 7,
             tm_yday = yday\<rparr> else None)"
proof -
  obtain year mon m where c: "civil (t div 86400) (year, mon, m)" and g: "ms_gmtime64_r t = Inr (if int_range year then
       Some \<lparr>tm_sec = t mod 60, tm_min = t div 60 mod 60, tm_hour = t div 3600 mod 24,
             tm_mday = m + 1, tm_mon = int mon, tm_year = year, tm_wday = (t div 86400 + 4) mod 7,
             tm_yday = t div 86400 - year_start (1900 + year)\<rparr> else None)"
    using gmtime_parts [of t] by blast
  then obtain yday where "month_day (IS_LEAP year) mon m yday" "year_start (1900 + year) + yday = t div 86400"
    by (auto simp: civil_def)
  then show ?thesis using g by (intro exI [of _ year] exI [of _ mon] exI [of _ m] exI [of _ yday]) (simp add: int_range_def)
qed

text \<open>
  C13. Converting valid date and time fields (seconds to 59) to an epoch time and back
  gives the fields; the conversion leaves the 64-bit range, undefined behaviour in C,
  exactly when the fields are later than 2262-04-11T23:47:16.854775807.
\<close>

theorem time2nstime_roundtrip:
  assumes "valid_fields year yday hour minute sec nsec" "sec \<le> 59"
  shows "if epoch_ns year yday hour minute sec nsec < 2 ^ 63
         then \<exists>t. ms_time2nstime year yday hour minute sec nsec = Inr t \<and>
                ms_nstime2time t = Inr \<lparr>dt_year = year, dt_yday = yday, dt_hour = hour, dt_min = minute,
                  dt_sec = sec, dt_nsec = nsec\<rparr>
         else ms_time2nstime year yday hour minute sec nsec = Inl Overflow"
proof (cases "epoch_ns year yday hour minute sec nsec < 2 ^ 63")
  case True
  define t where "t = epoch_ns year yday hour minute sec nsec"
  define S where "S = hour * 3600 + minute * 60 + sec"
  define d where "d = year_start year + (yday - 1)"
  have v: "1 \<le> yday" "yday \<le> length_of_year (leap_year year)" "0 \<le> hour" "hour \<le> 23" "0 \<le> minute" "minute \<le> 59"
    "0 \<le> sec" "sec \<le> 59" "0 \<le> nsec" "nsec < NSTMODULUS" and y: "VALIDYEAR year"
    using assms by (auto simp: valid_fields_def VALIDYEARDAY_def VALIDHOUR_def VALIDMIN_def VALIDSEC_def
        VALIDNANOSEC_def NSTMODULUS_def LEAPYEAR_iff length_of_year_def)
  have S: "0 \<le> S" "S < 86400" unfolding S_def using v by linarith+
  have t_eq: "t = NSTMODULUS * (86400 * d + S) + nsec"
    by (simp add: t_def epoch_ns_def d_def S_def algebra_simps)
  have t1: "t div NSTMODULUS = 86400 * d + S" "t mod NSTMODULUS = nsec"
    using int_div_pos_eq [OF t_eq] int_mod_pos_eq [OF t_eq] v by simp_all
  have day: "(86400 * d + S) div 86400 = d" using S by (intro int_div_pos_eq [of _ _ _ S]) simp_all
  have "int64 t"
    using True year_start_bounds(1) [OF y] v S unfolding int64_def t_def [symmetric]
    by (simp add: t_eq d_def NSTMODULUS_def)
  then obtain year' mon m where c: "civil d (year', mon, m)" and n: "ms_nstime2time t = Inr
       \<lparr>dt_year = year' + 1900, dt_yday = d - year_start (1900 + year') + 1,
        dt_hour = (86400 * d + S) div 3600 mod 24, dt_min = (86400 * d + S) div 60 mod 60,
        dt_sec = (86400 * d + S) mod 60, dt_nsec = nsec\<rparr>"
    using ms_nstime2time_parts [of t] unfolding t1 day by blast
  have "1900 + year' = year"
  proof -
    obtain yd where yd: "0 \<le> yd" "yd < length_of_year (leap_year (1900 + year'))" "year_start (1900 + year') + yd = d"
      using c month_day_yday by (auto simp: civil_def IS_LEAP_iff add.commute)
    show ?thesis by (rule year_unique [of _ yd _ "yday - 1"]) (use yd v in \<open>simp_all add: d_def\<close>)
  qed
  moreover have "(86400 * d + S) div 3600 mod 24 = hour" "(86400 * d + S) div 60 mod 60 = minute"
    "(86400 * d + S) mod 60 = sec"
  proof -
    have "(86400 * d + S) div 3600 = 24 * d + hour"
      using v by (intro int_div_pos_eq [of _ _ _ "minute * 60 + sec"]) (simp_all add: S_def)
    then show "(86400 * d + S) div 3600 mod 24 = hour"
      using v by (simp only:) (intro int_mod_pos_eq [of _ _ d], simp_all)
    have "(86400 * d + S) div 60 = 1440 * d + 60 * hour + minute"
      using v by (intro int_div_pos_eq [of _ _ _ sec]) (simp_all add: S_def)
    then show "(86400 * d + S) div 60 mod 60 = minute"
      using v by (simp only:) (intro int_mod_pos_eq [of _ _ "24 * d + hour"], simp_all)
    show "(86400 * d + S) mod 60 = sec"
      using v by (intro int_mod_pos_eq [of _ _ "1440 * d + 60 * hour + minute"]) (simp_all add: S_def)
  qed
  ultimately show ?thesis
    using True n ms_time2nstime_value [OF assms(1)] by (simp add: d_def t_def add.commute)
next
  case False
  then show ?thesis using ms_time2nstime_value [OF assms(1)] by simp
qed

theorem time2nstime_roundtrip_witness:
  "if epoch_ns 2024 366 23 59 59 999999999 < 2 ^ 63
   then \<exists>t. ms_time2nstime 2024 366 23 59 59 999999999 = Inr t \<and>
          ms_nstime2time t = Inr \<lparr>dt_year = 2024, dt_yday = 366, dt_hour = 23, dt_min = 59,
            dt_sec = 59, dt_nsec = 999999999\<rparr>
   else ms_time2nstime 2024 366 23 59 59 999999999 = Inl Overflow"
  by (rule time2nstime_roundtrip)
    (simp_all add: valid_fields_def VALIDYEAR_def VALIDYEARDAY_def VALIDHOUR_def VALIDMIN_def VALIDSEC_def
      VALIDNANOSEC_def LEAPYEAR_iff leap_year_def)

lemma nstime2time_back:
  assumes "year_start 1678 * 86400 * NSTMODULUS \<le> t" "t < 2 ^ 63"
  shows "\<exists>f. ms_nstime2time t = Inr f \<and>
           ms_time2nstime (dt_year f) (dt_yday f) (dt_hour f) (dt_min f) (dt_sec f) (dt_nsec f) = Inr t"
proof -
  define isec where "isec = t div NSTMODULUS"
  define d where "d = isec div 86400"
  have "int64 t" using assms by (simp add: int64_def year_start_def NSTMODULUS_def)
  then obtain year mon m where c: "civil d (year, mon, m)" and yr: "year + 1900 \<le> 2262"
    and n: "ms_nstime2time t = Inr
       \<lparr>dt_year = year + 1900, dt_yday = d - year_start (1900 + year) + 1,
        dt_hour = isec div 3600 mod 24, dt_min = isec div 60 mod 60,
        dt_sec = isec mod 60, dt_nsec = t mod NSTMODULUS\<rparr>"
    using ms_nstime2time_parts [of t] unfolding isec_def d_def by blast
  obtain yday where y: "0 \<le> yday" "yday < length_of_year (leap_year (1900 + year))" "year_start (1900 + year) + yday = d"
    using c month_day_yday by (auto simp: civil_def IS_LEAP_iff add.commute)
  have "year_start 1678 * 86400 \<le> isec"
    using zdiv_mono1 [OF assms(1), of NSTMODULUS] by (simp add: isec_def NSTMODULUS_def)
  then have "year_start 1678 \<le> d" using zdiv_mono1 [of "year_start 1678 * 86400" isec 86400] by (simp add: d_def)
  have "1678 \<le> 1900 + year"
  proof (rule ccontr)
    assume "\<not> 1678 \<le> 1900 + year"
    then have "year_start (1900 + year + 1) \<le> year_start 1678" by (intro year_start_mono) simp
    then show False using y \<open>year_start 1678 \<le> d\<close> year_start_next [of "1900 + year"] by simp
  qed
  moreover have "VALIDYEARDAY (1900 + year) (yday + 1)"
    using y by (simp add: VALIDYEARDAY_def LEAPYEAR_iff length_of_year_def split: if_splits)
  moreover have "0 \<le> isec mod 60" "isec mod 60 < 60" "0 \<le> isec div 60 mod 60" "isec div 60 mod 60 < 60"
    "0 \<le> isec div 3600 mod 24" "isec div 3600 mod 24 < 24" "0 \<le> t mod NSTMODULUS" "t mod NSTMODULUS < NSTMODULUS"
    by (simp_all add: NSTMODULUS_def)
  ultimately have v: "valid_fields (1900 + year) (yday + 1) (isec div 3600 mod 24) (isec div 60 mod 60) (isec mod 60) (t mod NSTMODULUS)"
    using yr by (auto simp: valid_fields_def VALIDYEAR_def VALIDHOUR_def VALIDMIN_def VALIDSEC_def VALIDNANOSEC_def NSTMODULUS_def)
  have "isec = d * 86400 + isec div 3600 mod 24 * 3600 + isec div 60 mod 60 * 60 + isec mod 60"
  proof -
    have "isec div 60 div 60 = isec div 3600" "isec div 3600 div 24 = d" by (simp_all add: d_def flip: zdiv_zmult2_eq)
    then show ?thesis
      using div_mult_mod_eq [of isec 60] div_mult_mod_eq [of "isec div 60" 60] div_mult_mod_eq [of "isec div 3600" 24]
      by (simp only:)
  qed
  then have "epoch_ns (1900 + year) (yday + 1) (isec div 3600 mod 24) (isec div 60 mod 60) (isec mod 60) (t mod NSTMODULUS) = t"
    using y(3) div_mult_mod_eq [of t NSTMODULUS] by (simp add: epoch_ns_def isec_def [symmetric])
  then show ?thesis
    using n y(3) assms(2) ms_time2nstime_value [OF v] by (auto simp: add.commute)
qed

text \<open>
  C34. Every 64-bit epoch time from 1678 on is recovered from its fields.
\<close>

theorem nstime2time_roundtrip:
  assumes "year_start 1678 * 86400 * NSTMODULUS \<le> t" "t < 2 ^ 63"
  shows "\<exists>f. ms_nstime2time t = Inr f \<and>
           ms_time2nstime (dt_year f) (dt_yday f) (dt_hour f) (dt_min f) (dt_sec f) (dt_nsec f) = Inr t"
  by (rule nstime2time_back [OF assms])

theorem nstime2time_roundtrip_witness:
  "\<exists>f. ms_nstime2time (- 5000000001) = Inr f \<and>
     ms_time2nstime (dt_year f) (dt_yday f) (dt_hour f) (dt_min f) (dt_sec f) (dt_nsec f) = Inr (- 5000000001)"
  by (rule nstime2time_roundtrip) (simp_all add: year_start_def NSTMODULUS_def)

text \<open>
  C35. Day of year and month with day of month are inverse to each other on every valid
  date, in both directions, and the routines succeed on all of them.
\<close>

theorem doy_md_inverse:
  assumes "VALIDYEAR year"
  shows "(VALIDYEARDAY year yday \<longrightarrow>
            (\<exists>month mday. ms_doy2md year yday True = Inr (Some (month, mday)) \<and> VALIDMONTH month \<and> 1 \<le> mday \<and>
               VALIDMONTHDAY year month mday \<and> ms_md2doy year month mday True = Inr yday)) \<and>
         (VALIDMONTH month \<and> 1 \<le> mday \<and> VALIDMONTHDAY year month mday \<longrightarrow>
            (\<exists>yday. ms_md2doy year month mday True = Inr yday \<and> VALIDYEARDAY year yday \<and>
               ms_doy2md year yday True = Inr (Some (month, mday))))"
proof (intro conjI impI)
  assume v: "VALIDYEARDAY year yday"
  then obtain month mday where l: "doy2md_loop (months_of year) 0 yday = Some (month, mday)" "0 < month" "month \<le> 12"
    "1 \<le> mday" "mday \<le> months_of year ! nat (month - 1)" "md2doy_loop (months_of year) 0 (month - 1) mday 0 = yday"
    using doy_loops [of yday "months_of year" 0 0] by (auto simp: months_of_facts VALIDYEARDAY_def)
  then show "\<exists>month mday. ms_doy2md year yday True = Inr (Some (month, mday)) \<and> VALIDMONTH month \<and> 1 \<le> mday \<and>
               VALIDMONTHDAY year month mday \<and> ms_md2doy year month mday True = Inr yday"
    using v assms by (intro exI [of _ month] exI [of _ mday])
      (simp add: ms_doy2md_def ms_md2doy_def VALIDMONTH_def VALIDMONTHDAY_months flip: months_of_def)
next
  assume v: "VALIDMONTH month \<and> 1 \<le> mday \<and> VALIDMONTHDAY year month mday"
  then obtain k where k: "md2doy_loop (months_of year) 0 (month - 1) mday 0 = k" "1 \<le> k" "k \<le> sum_list (months_of year)"
    "doy2md_loop (months_of year) 0 k = Some (month, mday)"
    using md_loops [of 0 "month - 1" "months_of year" mday 0] by (auto simp: months_of_facts VALIDMONTH_def VALIDMONTHDAY_months)
  then show "\<exists>yday. ms_md2doy year month mday True = Inr yday \<and> VALIDYEARDAY year yday \<and>
               ms_doy2md year yday True = Inr (Some (month, mday))"
    using v assms by (intro exI [of _ k])
      (simp add: ms_doy2md_def ms_md2doy_def VALIDYEARDAY_def months_of_facts flip: months_of_def)
qed

theorem doy_md_inverse_witness:
  "(\<exists>month mday. ms_doy2md 2000 60 True = Inr (Some (month, mday)) \<and> VALIDMONTH month \<and> 1 \<le> mday \<and>
      VALIDMONTHDAY 2000 month mday \<and> ms_md2doy 2000 month mday True = Inr 60) \<and>
   (\<exists>yday. ms_md2doy 2000 2 29 True = Inr yday \<and> VALIDYEARDAY 2000 yday \<and>
      ms_doy2md 2000 yday True = Inr (Some (2, 29)))"
proof -
  have v: "VALIDYEAR 2000" "VALIDYEARDAY 2000 60" "VALIDMONTH 2" "VALIDMONTHDAY 2000 2 29"
    by (simp_all add: VALIDYEAR_def VALIDYEARDAY_def VALIDMONTH_def VALIDMONTHDAY_def LEAPYEAR_iff leap_year_def
        monthdays_leap_def)
  then show ?thesis using doy_md_inverse [OF v(1), of 60 2 29] by simp
qed

text \<open>
  Day 0 of a month passes the range check and gives the last day of the month
  before, for January the day of year 0, which the day of year routine rejects.
\<close>

theorem md2doy_day_zero:
  assumes "VALIDYEAR year" "VALIDMONTH month"
  shows "ms_md2doy year month 0 True = Inr (sum_list (take (nat (month - 1)) (months_of year)))"
proof -
  have loop: "idx \<le> k \<Longrightarrow> k < idx + int (length days) \<Longrightarrow>
      md2doy_loop days idx k 0 acc = acc + sum_list (take (nat (k - idx)) days)" for days idx k acc
  proof (induction days arbitrary: idx acc)
    case (Cons d days)
    show ?case
    proof (cases "idx = k")
      case False
      then have "nat (k - idx) = Suc (nat (k - (idx + 1)))" using Cons.prems by simp
      then show ?thesis using Cons False by simp
    qed simp
  qed simp
  have "0 \<le> months_of year ! nat (month - 1)"
  proof -
    have "nat (month - 1) < length (months_of year)" using assms(2) unfolding months_of_facts(1) VALIDMONTH_def by linarith
    then have "0 < months_of year ! nat (month - 1)" using months_of_facts(3) [of year] by simp
    then show ?thesis by simp
  qed
  then show ?thesis
    using assms loop [of 0 "month - 1" "months_of year" 0]
    by (simp add: ms_md2doy_def VALIDMONTHDAY_months VALIDMONTH_def months_of_facts flip: months_of_def)
qed

theorem md2doy_day_zero_witness:
  "ms_md2doy 2023 3 0 True = Inr (sum_list (take (nat (3 - 1)) (months_of 2023)))"
  by (rule md2doy_day_zero) (simp_all add: VALIDYEAR_def VALIDMONTH_def)

end
