(* ===== verification/Glob.thy ===== *)
theory Glob
  imports Prelude "HOL-Library.Char_ord" "HOL-Library.Sublist"
begin

text \<open>
  Globbing of selection.c. Strings and patterns are the lists of their characters; the
  pointer to the NUL is the empty list. The loop of \<open>ms_globmatch\<close> is one step function and
  its iteration, its two backtracking pointers a pair. The meaning of a pattern is the
  inductive relation \<open>glob\<close>, and the loop decides it.
\<close>

subsection \<open>Character classes\<close>

text \<open>The main loop: what is left of the pattern and whether the character was matched.\<close>

function class_loop :: "string \<Rightarrow> char \<Rightarrow> bool \<Rightarrow> string \<times> bool" where
  "class_loop p c matched =
     (if p \<noteq> [] \<and> hd p \<noteq> CHR '']'' then
        if 2 < length p \<and> p ! 1 = CHR ''-'' \<and> p ! 2 \<noteq> CHR '']'' \<and> hd p \<le> p ! 2
        then class_loop (drop 3 p) c (matched \<or> (hd p \<le> c \<and> c \<le> p ! 2))
        else class_loop (tl p) c (matched \<or> c = hd p)
      else (p, matched))"
  by pat_completeness auto
termination by (relation "measure (\<lambda>(p, c, m). length p)") auto

declare class_loop.simps [simp del]

text \<open>The value is the pattern behind the class, and whether the class matches.\<close>

text \<open>What comes first: the negation, a literal \<open>]\<close> and a literal \<open>-\<close>, and what is left.\<close>

definition skip_leading :: "bool \<Rightarrow> string \<Rightarrow> string" where
  "skip_leading b p = (if b then tl p else p)"

definition class_start :: "string \<Rightarrow> bool \<times> bool \<times> bool \<times> string" where
  "class_start p =
     (let negate = (p \<noteq> [] \<and> (hd p = CHR ''^'' \<or> hd p = CHR ''!''));
          p = skip_leading negate p;
          bracket = (p \<noteq> [] \<and> hd p = CHR '']'');
          p = skip_leading bracket p;
          dash = (p \<noteq> [] \<and> hd p = CHR ''-'')
      in (negate, bracket, dash, skip_leading dash p))"

definition match_charclass :: "string \<Rightarrow> char \<Rightarrow> string \<times> bool" where
  "match_charclass p c =
     (case class_start p of (negate, bracket, dash, p) \<Rightarrow>
        let (p, matched) = class_loop p c (bracket \<and> c = CHR '']'' \<or> dash \<and> c = CHR ''-'')
        in if p = [] then ([], False) else (tl p, if negate then \<not> matched else matched))"

subsection \<open>The matching loop\<close>

text \<open>
  A configuration is the pattern, the string and, once a \<open>*\<close> was seen, the pattern behind
  it (\<open>star_p + 1\<close>) with the string it is tried at (\<open>star_s\<close>). A step ends the loop with
  its result or gives the next configuration.
\<close>

type_synonym glob_conf = "string \<times> string \<times> (string \<times> string) option"

definition star_backtrack :: "(string \<times> string) option \<Rightarrow> bool + glob_conf" where
  "star_backtrack star =
     (case star of
        None \<Rightarrow> Inl False
      | Some (p, []) \<Rightarrow> Inl False
      | Some (p, _ # s) \<Rightarrow> Inr (p, s, Some (p, s)))"

text \<open>The fast-forward to the next literal of the pattern.\<close>

definition fast_forward :: "string \<Rightarrow> string \<Rightarrow> string" where
  "fast_forward p s =
     (let next = (if hd p = CHR 0x5C \<and> 1 < length p then p ! 1 else hd p)
      in if next \<noteq> CHR ''?'' \<and> next \<noteq> CHR ''['' \<and> next \<noteq> CHR ''*''
         then dropWhile (\<lambda>c. c \<noteq> next) s else s)"

definition literal_step :: "char \<Rightarrow> string \<Rightarrow> string \<Rightarrow> (string \<times> string) option \<Rightarrow> bool + glob_conf" where
  "literal_step c p s star =
     (case s of x # s' \<Rightarrow> if x = c then Inr (p, s', star) else star_backtrack star
      | [] \<Rightarrow> star_backtrack star)"

fun glob_step :: "glob_conf \<Rightarrow> bool + glob_conf" where
  "glob_step ([], s, star) =
     (if s = [] then Inl True else if star \<noteq> None then star_backtrack star else Inl False)"
| "glob_step (c # p, s, star) =
     (if c = CHR ''?'' then
        if s = [] then star_backtrack star else Inr (p, tl s, star)
      else if c = CHR ''*'' then
        let p = dropWhile (\<lambda>x. x = CHR ''*'') p
        in if p = [] then Inl True else Inr (p, fast_forward p s, Some (p, fast_forward p s))
      else if c = CHR ''['' then
        if s = [] then star_backtrack star
        else let (pp, matched) = match_charclass p (hd s)
             in if matched then Inr (pp, tl s, star) else star_backtrack star
      else if c = CHR 0x5C \<and> p \<noteq> [] then literal_step (hd p) (tl p) s star
      else literal_step c p s star)"

lemma class_loop_length: "length (fst (class_loop p c m)) \<le> length p"
proof (induction p c m rule: class_loop.induct)
  case (1 p c m)
  then show ?case by (subst class_loop.simps) (auto intro: order.trans)
qed


lemma class_start_length: "class_start p = (negate, bracket, dash, q) \<Longrightarrow> length q \<le> length p"
  by (auto simp: class_start_def skip_leading_def Let_def split: if_splits)

lemma match_charclass_length: "length (fst (match_charclass p c)) \<le> length p"
proof -
  obtain negate bracket dash q where s: "class_start p = (negate, bracket, dash, q)" by (cases "class_start p") auto
  have "length q' \<le> length p" if "class_loop q c m = (q', r)" for m q' r
    using class_loop_length [of q c m] that class_start_length [OF s] by simp
  then show ?thesis
    unfolding match_charclass_def s Let_def by (auto split: prod.split) (metis le_diff_conv trans_le_add1)
qed

text \<open>A step shortens the pattern, or tries the one behind the last \<open>*\<close> on a shorter string.\<close>

definition glob_measure :: "(glob_conf \<times> glob_conf) set" where
  "glob_measure = measures
     [\<lambda>(p, s, star). max (length p) (case star of None \<Rightarrow> 0 | Some (q, t) \<Rightarrow> length q),
      \<lambda>(p, s, star). case star of None \<Rightarrow> 0 | Some (q, t) \<Rightarrow> length t,
      \<lambda>(p, s, star). length p]"

lemma star_backtrack_measure:
  "star_backtrack star = Inr conf' \<Longrightarrow> (conf', (p, s, star)) \<in> glob_measure"
  by (auto simp: star_backtrack_def glob_measure_def split: option.splits list.splits)

lemma shorter_measure: "length p' < length p \<Longrightarrow> ((p', s', star), (p, s, star)) \<in> glob_measure"
  by (auto simp: glob_measure_def split: option.splits)

lemma literal_step_measure:
  "literal_step c p' s star = Inr conf' \<Longrightarrow> length p' < length p \<Longrightarrow> (conf', (p, s, star)) \<in> glob_measure"
  by (auto simp: literal_step_def split: list.splits if_splits intro: star_backtrack_measure shorter_measure)

lemma glob_step_measure: "glob_step conf = Inr conf' \<Longrightarrow> (conf', conf) \<in> glob_measure"
proof (induction conf rule: glob_step.induct)
  case (1 s star)
  then show ?case by (auto split: if_splits intro: star_backtrack_measure)
next
  case (2 c p s star)
  have new: "((q, t, Some (q, t)), (c' # p, s, star)) \<in> glob_measure" if "length q \<le> length p" for q t c'
    using that by (auto simp: glob_measure_def split: option.splits)
  have pp: "length pp \<le> length p" if "match_charclass p x = (pp, b)" for pp x b
    using match_charclass_length [of p x] that by simp
  have drop: "length (dropWhile (\<lambda>x. x = CHR ''*'') p) \<le> length p" by (rule length_dropWhile_le)
  show ?case
    using 2
    by (auto split: if_splits prod.splits simp: Let_def new drop le_imp_less_Suc
        intro: star_backtrack_measure shorter_measure literal_step_measure dest!: pp simp del: dropWhile_eq_Nil_conv)
qed

function ms_globmatch_loop :: "glob_conf \<Rightarrow> bool" where
  "ms_globmatch_loop conf = (case glob_step conf of Inl b \<Rightarrow> b | Inr conf' \<Rightarrow> ms_globmatch_loop conf')"
  by pat_completeness auto
termination
  by (relation glob_measure) (simp_all add: glob_step_measure, simp add: glob_measure_def)


declare ms_globmatch_loop.simps [simp del]

definition ms_globmatch :: "string option \<Rightarrow> string option \<Rightarrow> bool" where
  "ms_globmatch s pattern =
     (case (s, pattern) of (Some s, Some p) \<Rightarrow> ms_globmatch_loop (p, s, None) | _ \<Rightarrow> False)"

subsection \<open>The meaning of a pattern\<close>

text \<open>
  A class is a set of characters: its ranges, a single character \<open>c\<close> being \<open>(c, c)\<close>, or
  their complement. It ends at the first \<open>]\<close> that is not its first character; without one it
  is malformed.
\<close>

definition add_range :: "char \<Rightarrow> char \<Rightarrow> ((char \<times> char) list \<times> string) option \<Rightarrow> ((char \<times> char) list \<times> string) option" where
  "add_range lo hi = map_option (\<lambda>(rs, rest). ((lo, hi) # rs, rest))"

function class_ranges :: "string \<Rightarrow> ((char \<times> char) list \<times> string) option" where
  "class_ranges p =
     (if p = [] then None
      else if hd p = CHR '']'' then Some ([], tl p)
      else if 2 < length p \<and> p ! 1 = CHR ''-'' \<and> p ! 2 \<noteq> CHR '']'' \<and> hd p \<le> p ! 2
      then add_range (hd p) (p ! 2) (class_ranges (drop 3 p))
      else add_range (hd p) (hd p) (class_ranges (tl p)))"
  by pat_completeness auto
termination by (relation "measure length") auto

declare class_ranges.simps [simp del]

definition in_ranges :: "(char \<times> char) list \<Rightarrow> char \<Rightarrow> bool" where
  "in_ranges rs c = (\<exists>(lo, hi) \<in> set rs. lo \<le> c \<and> c \<le> hi)"

text \<open>
  The ranges of a class from its first character on: a \<open>]\<close> there and a \<open>-\<close> there or behind
  it are members. A \<open>^\<close> or \<open>!\<close> in front of them negates the class.
\<close>

definition dash_ranges :: "string \<Rightarrow> ((char \<times> char) list \<times> string) option" where
  "dash_ranges p =
     (case p of c # q \<Rightarrow> if c = CHR ''-'' then add_range (CHR ''-'') (CHR ''-'') (class_ranges q) else class_ranges p | [] \<Rightarrow> None)"

definition first_ranges :: "string \<Rightarrow> ((char \<times> char) list \<times> string) option" where
  "first_ranges p =
     (case p of c # q \<Rightarrow> if c = CHR '']'' then add_range (CHR '']'') (CHR '']'') (dash_ranges q) else dash_ranges p | [] \<Rightarrow> None)"

definition bracket_class :: "string \<Rightarrow> (char set \<times> string) option" where
  "bracket_class p =
     (case p of
        [] \<Rightarrow> None
      | c # q \<Rightarrow>
          if c \<in> {CHR ''^'', CHR ''!''} then map_option (\<lambda>(rs, rest). (- {c. in_ranges rs c}, rest)) (first_ranges q)
          else map_option (\<lambda>(rs, rest). ({c. in_ranges rs c}, rest)) (first_ranges p))"

text \<open>The first piece of a pattern that stands for one character: a set, and what follows.\<close>

fun atom :: "string \<Rightarrow> char set \<times> string" where
  "atom [] = ({}, [])"
| "atom (c # p) =
     (if c = CHR ''?'' then (UNIV, p)
      else if c = CHR ''['' then (case bracket_class p of None \<Rightarrow> ({}, []) | Some cl \<Rightarrow> cl)
      else if c = CHR 0x5C \<and> p \<noteq> [] then ({hd p}, tl p)
      else ({c}, p))"

inductive glob :: "string \<Rightarrow> string \<Rightarrow> bool" where
  glob_end: "glob [] []"
| glob_star: "glob p s \<Longrightarrow> glob (CHR ''*'' # p) (t @ s)"
| glob_atom: "c \<noteq> CHR ''*'' \<Longrightarrow> atom (c # p) = (cs, q) \<Longrightarrow> x \<in> cs \<Longrightarrow> glob q s \<Longrightarrow> glob (c # p) (x # s)"

inductive_simps glob_Nil [simp]: "glob [] s"
inductive_cases glob_ConsE: "glob (c # p) s"

lemma glob_star_iff: "glob (CHR ''*'' # p) s \<longleftrightarrow> (\<exists>k \<le> length s. glob p (drop k s))"
proof
  assume "glob (CHR ''*'' # p) s"
  then obtain t u where "s = t @ u" "glob p u" by (auto elim: glob_ConsE)
  then show "\<exists>k \<le> length s. glob p (drop k s)" by (intro exI [of _ "length t"]) simp
next
  assume "\<exists>k \<le> length s. glob p (drop k s)"
  then show "glob (CHR ''*'' # p) s" by (metis append_take_drop_id glob_star)
qed

lemma glob_atom_iff:
  assumes "c \<noteq> CHR ''*''"
  shows "glob (c # p) s \<longleftrightarrow> (\<exists>x s'. s = x # s' \<and> x \<in> fst (atom (c # p)) \<and> glob (snd (atom (c # p))) s')"
proof
  assume "glob (c # p) s"
  then show "\<exists>x s'. s = x # s' \<and> x \<in> fst (atom (c # p)) \<and> glob (snd (atom (c # p))) s'"
    using assms by (cases rule: glob.cases) (simp_all del: atom.simps)
next
  assume "\<exists>x s'. s = x # s' \<and> x \<in> fst (atom (c # p)) \<and> glob (snd (atom (c # p))) s'"
  then show "glob (c # p) s" using assms by (metis glob_atom prod.collapse)
qed

lemma in_ranges_Cons: "in_ranges ((lo, hi) # rs) c \<longleftrightarrow> lo \<le> c \<and> c \<le> hi \<or> in_ranges rs c"
  by (auto simp: in_ranges_def)

lemma in_ranges_append: "in_ranges (rs @ rs') c \<longleftrightarrow> in_ranges rs c \<or> in_ranges rs' c"
  by (auto simp: in_ranges_def)

lemma in_ranges_Nil [simp]: "\<not> in_ranges [] c"
  by (simp add: in_ranges_def)

definition class_result :: "((char \<times> char) list \<times> string) option \<Rightarrow> char \<Rightarrow> bool \<Rightarrow> string \<times> bool \<Rightarrow> bool" where
  "class_result cr c m res =
     (case cr of None \<Rightarrow> fst res = [] | Some (rs, rest) \<Rightarrow> res = (CHR '']'' # rest, m \<or> in_ranges rs c))"

lemma class_result_add:
  "class_result cr c (m \<or> lo \<le> c \<and> c \<le> hi) res \<Longrightarrow> class_result (add_range lo hi cr) c m res"
  by (auto simp: class_result_def add_range_def in_ranges_Cons split: option.splits)

lemma class_result_single:
  "class_result cr c (m \<or> c = d) res \<Longrightarrow> class_result (add_range d d cr) c m res"
  by (rule class_result_add) (simp add: eq_iff conj_commute)

lemma class_loop_ranges: "class_result (class_ranges p) c m (class_loop p c m)"
proof (induction p c m rule: class_loop.induct)
  case (1 p c m)
  show ?case
  proof (cases "p \<noteq> [] \<and> hd p \<noteq> CHR '']''")
    case True
    then show ?thesis
      using 1(1) [OF True] 1(2) [OF True]
      by (subst class_loop.simps, subst class_ranges.simps) (simp add: class_result_add class_result_single)
  next
    case False
    then show ?thesis
      by (subst class_loop.simps, subst class_ranges.simps) (cases p; auto simp: class_result_def)
  qed
qed

lemma class_ranges_Nil [simp]: "class_ranges [] = None"
  by (subst class_ranges.simps) simp

lemma first_ranges_Nil: "first_ranges [] = None"
  by (simp add: first_ranges_def)

text \<open>What the code skips at the start of a class, against the ranges of the class.\<close>

lemma bracket_class_start:
  assumes "class_start p = (negate, bracket, dash, q)"
  shows "bracket_class p = map_option (\<lambda>(rs, rest). ({c. (bracket \<and> c = CHR '']'' \<or> dash \<and> c = CHR ''-'' \<or> in_ranges rs c) \<noteq> negate}, rest))
    (class_ranges q)"
proof -
  have dash_ok: "map_option f (dash_ranges p) = map_option (\<lambda>(rs, rest). f ((if d then [(CHR ''-'', CHR ''-'')] else []) @ rs, rest)) (class_ranges q)"
    if "d = (p \<noteq> [] \<and> hd p = CHR ''-'')" "q = skip_leading d p" for f :: "(char \<times> char) list \<times> string \<Rightarrow> char set \<times> string" and p q d
    using that by (cases p; cases "class_ranges q")
      (auto simp: dash_ranges_def skip_leading_def add_range_def split: option.splits)
  have first_ok: "map_option f (first_ranges p) =
      map_option (\<lambda>(rs, rest). f ((if b then [(CHR '']'', CHR '']'')] else []) @ (if d then [(CHR ''-'', CHR ''-'')] else []) @ rs, rest)) (class_ranges q)"
    if b: "b = (p \<noteq> [] \<and> hd p = CHR '']'')" and d: "d = (skip_leading b p \<noteq> [] \<and> hd (skip_leading b p) = CHR ''-'')"
      and q: "q = skip_leading d (skip_leading b p)" for f :: "(char \<times> char) list \<times> string \<Rightarrow> char set \<times> string" and p q b d
  proof (cases b)
    case True
    then obtain p' where p: "p = CHR '']'' # p'" using b True by (cases p) auto
    then have "map_option f (first_ranges p) = map_option (\<lambda>(rs, rest). f ((CHR '']'', CHR '']'') # rs, rest)) (dash_ranges p')"
      by (cases "dash_ranges p'") (auto simp: first_ranges_def add_range_def)
    then show ?thesis using dash_ok [of d p' q] d q True p by (simp add: skip_leading_def case_prod_beta')
  next
    case False
    then have "first_ranges p = dash_ranges p" using b False by (cases p) (auto simp: first_ranges_def dash_ranges_def)
    then show ?thesis using dash_ok [of d p q f] d q False by (simp add: skip_leading_def)
  qed
  define p1 where "p1 = skip_leading negate p"
  have start: "negate = (p \<noteq> [] \<and> (hd p = CHR ''^'' \<or> hd p = CHR ''!''))" "bracket = (p1 \<noteq> [] \<and> hd p1 = CHR '']'')"
    "dash = (skip_leading bracket p1 \<noteq> [] \<and> hd (skip_leading bracket p1) = CHR ''-'')" "q = skip_leading dash (skip_leading bracket p1)"
    using assms by (auto simp: class_start_def Let_def p1_def)
  have first: "in_ranges ((if bracket then [(CHR '']'', CHR '']'')] else []) @ (if dash then [(CHR ''-'', CHR ''-'')] else []) @ rs) c \<longleftrightarrow>
      bracket \<and> c = CHR '']'' \<or> dash \<and> c = CHR ''-'' \<or> in_ranges rs c" for rs c
    unfolding in_ranges_append by (simp add: in_ranges_Cons eq_iff conj_commute)
  have "bracket_class p = map_option (\<lambda>(rs, rest). ({c. in_ranges rs c \<noteq> negate}, rest)) (first_ranges p1)"
    using start(1) by (cases p) (simp_all add: bracket_class_def p1_def skip_leading_def first_ranges_Nil Compl_eq)
  then show ?thesis using first_ok [OF start(2-4)] by (simp add: first)
qed

lemma match_charclass_iff:
  "match_charclass p c = (q, True) \<longleftrightarrow> (\<exists>cs. bracket_class p = Some (cs, q) \<and> c \<in> cs)"
proof -
  obtain negate bracket dash p3 where s: "class_start p = (negate, bracket, dash, p3)" by (cases "class_start p") auto
  show ?thesis
    using class_loop_ranges [of p3 c "bracket \<and> c = CHR '']'' \<or> dash \<and> c = CHR ''-''"]
    unfolding match_charclass_def bracket_class_start [OF s] s prod.case Let_def
    by (auto simp: class_result_def split: option.splits prod.splits if_splits)
qed

lemma match_charclass_atom:
  assumes "match_charclass p x = (q, matched)"
  shows "matched \<longleftrightarrow> x \<in> fst (atom (CHR ''['' # p))" "matched \<Longrightarrow> snd (atom (CHR ''['' # p)) = q"
proof -
  have "matched \<longleftrightarrow> (\<exists>cs r. bracket_class p = Some (cs, r) \<and> x \<in> cs)"
    using match_charclass_iff [of p x] assms by (metis (full_types) prod.inject)
  then show "matched \<longleftrightarrow> x \<in> fst (atom (CHR ''['' # p))" by (auto split: option.split)
  assume matched
  then show "snd (atom (CHR ''['' # p)) = q" using match_charclass_iff [of p x q] assms by (auto split: option.split)
qed

subsection \<open>The loop decides the relation\<close>

text \<open>
  What the last \<open>*\<close> still has in store, and the invariant that ties the current
  configuration to it: the pattern between them takes a fixed number of characters.
\<close>

definition later :: "(string \<times> string) option \<Rightarrow> bool" where
  "later star = (case star of None \<Rightarrow> False | Some (q, t) \<Rightarrow> \<exists>k > 0. k \<le> length t \<and> glob q (drop k t))"

definition star_inv :: "glob_conf \<Rightarrow> bool" where
  "star_inv conf = (case conf of (p, s, star) \<Rightarrow> (case star of None \<Rightarrow> True
     | Some (q, t) \<Rightarrow> \<exists>n \<le> length t. s = drop n t \<and> (\<forall>u. glob q u \<longrightarrow> n \<le> length u \<and> glob p (drop n u))))"

definition outcome :: "glob_conf \<Rightarrow> bool" where
  "outcome conf = (case conf of (p, s, star) \<Rightarrow> glob p s \<or> later star)"

text \<open>A step that keeps the invariant and the outcome.\<close>

definition step_ok :: "glob_conf \<Rightarrow> bool + glob_conf \<Rightarrow> bool" where
  "step_ok conf res = (case res of Inl b \<Rightarrow> b = outcome conf | Inr conf' \<Rightarrow> star_inv conf' \<and> outcome conf' = outcome conf)"

lemma star_inv_start: "star_inv (q, t, Some (q, t))"
  unfolding star_inv_def by (simp add: exI [of _ 0])

lemma later_start: "(\<exists>k \<le> length t. glob q (drop k t)) \<longleftrightarrow> glob q t \<or> later (Some (q, t))"
  unfolding later_def by (auto simp: gr0_conv_Suc) (metis drop0 not0_implies_Suc)

lemma backtrack_ok: "\<not> glob p s \<Longrightarrow> step_ok (p, s, star) (star_backtrack star)"
proof (cases star)
  case (Some qt)
  assume no: "\<not> glob p s"
  obtain q t where star: "star = Some (q, t)" using Some by (cases qt) auto
  show ?thesis
  proof (cases t)
    case Nil
    then show ?thesis using no by (auto simp: star star_backtrack_def step_ok_def outcome_def later_def)
  next
    case (Cons x t')
    have "later (Some (q, x # t')) \<longleftrightarrow> (\<exists>k \<le> length t'. glob q (drop k t'))"
      by (auto simp: later_def gr0_conv_Suc)
    then show ?thesis
      using no by (simp add: star Cons star_backtrack_def step_ok_def outcome_def star_inv_start later_start)
  qed
qed (simp add: star_backtrack_def step_ok_def outcome_def later_def)

lemma atom_step_ok:
  assumes "c \<noteq> CHR ''*''" "star_inv (c # p, x # s, star)" "x \<in> fst (atom (c # p))" "snd (atom (c # p)) = q"
  shows "step_ok (c # p, x # s, star) (Inr (q, s, star))"
proof -
  have glob: "glob (c # p) u \<longleftrightarrow> (\<exists>y v. u = y # v \<and> y \<in> fst (atom (c # p)) \<and> glob q v)" for u
    using glob_atom_iff [OF assms(1)] assms(4) by simp
  have "star_inv (q, s, star)"
  proof (cases star)
    case (Some rt)
    obtain r t where star: "star = Some (r, t)" using Some by (cases rt) auto
    obtain n where n: "n \<le> length t" "x # s = drop n t"
      "\<And>u. glob r u \<Longrightarrow> n \<le> length u \<and> glob (c # p) (drop n u)"
      using assms(2) by (auto simp: star_inv_def star)
    have "Suc n \<le> length t" using n(1,2) by (metis Suc_leI drop_all le_neq_implies_less list.distinct(1) order_refl)
    moreover have "s = drop (Suc n) t" using n(2) by (metis drop_Suc list.sel(3) tl_drop)
    moreover have "Suc n \<le> length u \<and> glob q (drop (Suc n) u)" if "glob r u" for u
    proof -
      have "n \<le> length u \<and> glob (c # p) (drop n u)" by (rule n(3) [OF that])
      then obtain y v where "drop n u = y # v" "glob q v" using glob by blast
      then show ?thesis by (metis Suc_leI drop_Suc drop_all leI list.distinct(1) list.sel(3) tl_drop)
    qed
    ultimately show ?thesis by (auto simp: star_inv_def star)
  qed (simp add: star_inv_def)
  then show ?thesis using glob [of "x # s"] assms(3) by (simp add: step_ok_def outcome_def)
qed

lemma literal_step_ok:
  assumes "c \<noteq> CHR ''*''" "star_inv (c # p, s, star)" "atom (c # p) = ({x}, q)"
  shows "step_ok (c # p, s, star) (literal_step x q s star)"
proof (cases s)
  case Nil
  then show ?thesis using assms by (simp add: literal_step_def backtrack_ok glob_atom_iff del: atom.simps)
next
  case (Cons y t)
  then show ?thesis
    using assms atom_step_ok [OF assms(1), of p y t star q]
    by (auto simp: literal_step_def backtrack_ok glob_atom_iff simp del: atom.simps)
qed

subsubsection \<open>The star\<close>

lemma glob_stars: "glob (CHR ''*'' # dropWhile (\<lambda>x. x = CHR ''*'') p) s = glob (CHR ''*'' # p) s"
proof (induction p arbitrary: s)
  case (Cons c p)
  have "glob (CHR ''*'' # CHR ''*'' # p) s = glob (CHR ''*'' # p) s" for s
    unfolding glob_star_iff [of "CHR ''*'' # p"]
    by (auto simp: glob_star_iff) (metis Nat.le_diff_conv2, metis add_0 le0)
  then show ?case using Cons by (cases "c = CHR ''*''") simp_all
qed simp

lemma glob_star_all: "glob [CHR ''*''] s"
  by (auto simp: glob_star_iff)


text \<open>Moving the string forward to the literal that comes next drops no match.\<close>

lemma glob_literal_hd:
  assumes "glob p s" "p = CHR 0x5C # c # r \<or> (p = c # r \<and> (r = [] \<or> c \<noteq> CHR 0x5C))"
    "c \<noteq> CHR ''?''" "c \<noteq> CHR ''[''" "c \<noteq> CHR ''*''"
  shows "\<exists>s'. s = c # s'"
  using assms by (auto simp: glob_atom_iff split: if_splits)

lemma fast_forward_glob:
  assumes "p \<noteq> []" "hd p \<noteq> CHR ''*''"
  shows "(\<exists>k \<le> length s. glob p (drop k s)) \<longleftrightarrow> (\<exists>k \<le> length (fast_forward p s). glob p (drop k (fast_forward p s)))"
proof -
  define next_c where "next_c = (if hd p = CHR 0x5C \<and> 1 < length p then p ! 1 else hd p)"
  show ?thesis
  proof (cases "next_c \<noteq> CHR ''?'' \<and> next_c \<noteq> CHR ''['' \<and> next_c \<noteq> CHR ''*''")
    case True
    have shape: "\<exists>r. p = CHR 0x5C # next_c # r \<or> (p = next_c # r \<and> (r = [] \<or> next_c \<noteq> CHR 0x5C))"
      using assms(1) by (cases p; cases "tl p") (auto simp: next_c_def)
    have hd: "\<exists>s'. u = next_c # s'" if "glob p u" for u
      using shape glob_literal_hd [OF that] True by blast
    have ff: "fast_forward p s = dropWhile (\<lambda>c. c \<noteq> next_c) s"
      using True unfolding fast_forward_def next_c_def [symmetric] Let_def by simp
    have "(\<exists>k \<le> length s. glob p (drop k s)) \<longleftrightarrow>
        (\<exists>k \<le> length (dropWhile (\<lambda>c. c \<noteq> next_c) s). glob p (drop k (dropWhile (\<lambda>c. c \<noteq> next_c) s)))"
    proof (induction s)
      case (Cons c s)
      show ?case
      proof (cases "c = next_c")
        case False
        then have "\<not> glob p (c # s)" using hd by blast
        then have "(\<exists>k \<le> length (c # s). glob p (drop k (c # s))) \<longleftrightarrow> (\<exists>k \<le> length s. glob p (drop k s))"
          by (metis Suc_le_mono drop0 drop_Suc_Cons length_Cons not0_implies_Suc)
        then show ?thesis using Cons.IH False by simp
      qed simp
    qed simp
    then show ?thesis by (simp only: ff)
  next
    case False
    then have "fast_forward p s = s" unfolding fast_forward_def next_c_def [symmetric] Let_def by auto
    then show ?thesis by simp
  qed
qed

lemma later_drop:
  assumes "star_inv (p, s, star)" "later star" "p = CHR ''*'' # p'"
  shows "glob p s"
proof (cases star)
  case (Some rt)
  obtain r t where star: "star = Some (r, t)" using Some by (cases rt) auto
  obtain n where n: "n \<le> length t" "s = drop n t" "\<And>u. glob r u \<Longrightarrow> n \<le> length u \<and> glob p (drop n u)"
    using assms(1) by (auto simp: star_inv_def star)
  obtain k where k: "k \<le> length t" "glob r (drop k t)" using assms(2) by (auto simp: later_def star)
  have "n \<le> length (drop k t)" "glob p (drop n (drop k t))" using n(3) [OF k(2)] by auto
  then have "glob p (drop k s)" "k \<le> length s" using n k by (auto simp: drop_drop add.commute)
  then obtain j where "j \<le> length (drop k s)" "glob p' (drop j (drop k s))" by (auto simp: assms(3) glob_star_iff)
  then show ?thesis unfolding assms(3) glob_star_iff using \<open>k \<le> length s\<close> by (intro exI [of _ "j + k"]) simp
qed (use assms in \<open>simp add: later_def\<close>)

lemma glob_step_ok: "star_inv conf \<Longrightarrow> step_ok conf (glob_step conf)"
proof (induction conf rule: glob_step.induct)
  case (1 s star)
  then show ?case using backtrack_ok [of "[]" s star]
    by (cases star) (auto simp: step_ok_def outcome_def later_def split: sum.split)
next
  case (2 c p s star)
  note inv = 2
  consider (any) "c = CHR ''?''" | (star) "c = CHR ''*''" | (cl) "c = CHR ''[''"
    | (escape) "c = CHR 0x5C" "p \<noteq> []" | (literal) "c \<notin> {CHR ''?'', CHR ''*'', CHR ''[''}" "c = CHR 0x5C \<Longrightarrow> p = []"
    by blast
  then show ?case
  proof cases
    case any
    then show ?thesis
      using inv atom_step_ok [of c p "hd s" "tl s" star p] by (cases s) (simp_all add: backtrack_ok glob_atom_iff)
  next
    case star
    define q where "q = dropWhile (\<lambda>x. x = CHR ''*'') p"
    define t where "t = fast_forward q s"
    have all: "glob (c # p) s = glob (CHR ''*'' # q) s" by (simp add: star q_def glob_stars)
    show ?thesis
    proof (cases "q = []")
      case True
      then show ?thesis using all glob_star_all [of s] by (simp only: True star) (simp add: q_def [symmetric] True step_ok_def outcome_def Let_def del: dropWhile_eq_Nil_conv)
    next
      case False
      then have "hd q \<noteq> CHR ''*''" unfolding q_def by (rule hd_dropWhile)
      then have "glob (c # p) s \<longleftrightarrow> glob q t \<or> later (Some (q, t))"
        using fast_forward_glob [OF False, of s] all by (simp add: glob_star_iff t_def later_start)
      moreover have "later star \<Longrightarrow> glob (c # p) s" using later_drop inv star by blast
      moreover have "glob_step (c # p, s, star) = Inr (q, t, Some (q, t))"
        using False by (simp add: star q_def t_def Let_def)
      ultimately show ?thesis by (auto simp: step_ok_def outcome_def star_inv_start)
    qed
  next
    case cl
    obtain q matched where m: "match_charclass p (hd s) = (q, matched)" by (cases "match_charclass p (hd s)")
    show ?thesis
    proof (cases s)
      case Nil
      then show ?thesis using cl by (simp add: backtrack_ok glob_atom_iff)
    next
      case (Cons x u)
      then show ?thesis
        using cl inv m match_charclass_atom [OF m] atom_step_ok [of c p x u star q]
        by (cases matched) (auto simp: backtrack_ok glob_atom_iff Let_def simp del: atom.simps)
    qed
  next
    case escape
    then show ?thesis using inv literal_step_ok [of c p s star "hd p" "tl p"] by simp
  next
    case literal
    then have "\<not> (c = CHR 0x5C \<and> p \<noteq> [])" by blast
    then have at: "atom (c # p) = ({c}, p)" "glob_step (c # p, s, star) = literal_step c p s star"
      using literal(1) by (auto simp: Let_def)
    have "c \<noteq> CHR ''*''" using literal(1) by simp
    then show ?thesis unfolding at(2) using inv at(1) by (rule literal_step_ok)
  qed
qed

lemma ms_globmatch_loop_outcome: "star_inv conf \<Longrightarrow> ms_globmatch_loop conf = outcome conf"
proof (induction conf rule: ms_globmatch_loop.induct)
  case (1 conf)
  show ?case
    using glob_step_ok [OF 1(2)] 1(1) by (subst ms_globmatch_loop.simps) (auto simp: step_ok_def split: sum.splits)
qed

lemma ms_globmatch_iff: "ms_globmatch (Some s) (Some p) = glob p s"
  by (simp add: ms_globmatch_def ms_globmatch_loop_outcome star_inv_def outcome_def later_def)


subsection \<open>Properties\<close>

text \<open>
  C10. \<open>ms_globmatch\<close> terminates on every string and pattern, and is true exactly when the
  pattern, read as a sequence of literals, one-character pieces and stars, derives the
  string: neither the jump to the next literal nor keeping only the last star loses a match.
\<close>

theorem globmatch_correct: "ms_globmatch (Some s) (Some p) \<longleftrightarrow> glob p s"
  by (rule ms_globmatch_iff)

end
