(* ===== verification/SourceId.thy ===== *)
theory SourceId
  imports Prelude
begin

text \<open>
  Source identifiers and channel codes of genutils.c. A C string that is only read is the
  list of its characters before the terminating NUL; a destination that is written with
  a size limit is a buffer, a list of characters that holds the NUL, and \<open>cstr\<close> reads the
  string in it. An access behind the end of a buffer shows as \<open>OutOfBounds\<close>.
\<close>

abbreviation (input) NUL :: char where "NUL \<equiv> CHR 0x00"

definition cstr :: "char list \<Rightarrow> string" where
  "cstr buf = takeWhile (\<lambda>c. c \<noteq> NUL) buf"

subsection \<open>Removing spaces in place\<close>

text \<open>
  The loop \<open>for (in = 0, out = 0; in < size; in++)\<close> both routines end with: what is not a
  space is moved down, the NUL included, where the loop stops. The value is \<open>out\<close> after
  the NUL was moved, \<open>None\<close> when there is none.
\<close>

function squeeze :: "nat \<Rightarrow> nat \<Rightarrow> nat \<Rightarrow> char list \<Rightarrow> (nat option \<times> char list) result" where
  "squeeze size_buf i out buf =
     (if i < size_buf then
        if length buf \<le> i \<or> buf ! i \<noteq> CHR '' '' \<and> length buf \<le> out then Inl OutOfBounds
        else
          let buf' = (if buf ! i \<noteq> CHR '' '' then buf[out := buf ! i] else buf);
              out' = (if buf ! i \<noteq> CHR '' '' then Suc out else out)
          in if buf' ! i = NUL then Inr (Some out', buf') else squeeze size_buf (Suc i) out' buf'
      else Inr (None, buf))"
  by pat_completeness auto
termination by (relation "measure (\<lambda>(n, i, out, buf). n - i)") auto

declare squeeze.simps [simp del]

subsection \<open>Channel codes\<close>

definition ms_seedchan2xchan :: "string option \<Rightarrow> bool \<Rightarrow> char list result" where
  "ms_seedchan2xchan seedchan xchan_given =
     (case seedchan of
        None \<Rightarrow> Inl (ReturnError (-1))
      | Some s \<Rightarrow>
          if \<not> xchan_given then Inl (ReturnError (-1))
          else (case s of
            [band, source, position] \<Rightarrow>
              (case squeeze 6 0 0 [band, CHR ''_'', source, CHR ''_'', position, NUL] of
                 Inl e \<Rightarrow> Inl e
               | Inr (out, buf) \<Rightarrow> Inr buf)
          | _ \<Rightarrow> Inl (ReturnError (-1))))"

text \<open>The four characters stored when a destination is given are the three codes and the NUL.\<close>

definition ms_xchan2seedchan :: "string option \<Rightarrow> string result" where
  "ms_xchan2seedchan xchan =
     (case xchan of
        Some [band, u1, source, u2, position] \<Rightarrow>
          if u1 = CHR ''_'' \<and> u2 = CHR ''_'' then Inr [band, source, position]
          else Inl (ReturnError (-1))
      | _ \<Rightarrow> Inl (ReturnError (-1)))"

subsection \<open>Source identifier to codes\<close>

text \<open>\<open>strrchr (sid, ':') + 1\<close> and the split at the next underscore.\<close>

fun after_last :: "char \<Rightarrow> string \<Rightarrow> string option" where
  "after_last c [] = None"
| "after_last c (x # xs) =
     (case after_last c xs of Some r \<Rightarrow> Some r | None \<Rightarrow> if x = c then Some xs else None)"

definition split_code :: "string \<Rightarrow> (string \<times> string) option" where
  "split_code cur =
     (case dropWhile (\<lambda>c. c \<noteq> CHR ''_'') cur of
        [] \<Rightarrow> None
      | _ # rest \<Rightarrow> Some (takeWhile (\<lambda>c. c \<noteq> CHR ''_'') cur, rest))"

text \<open>
  A bounded copy into a destination of the given size, \<open>None\<close> for a NULL destination;
  a size of 0 writes before or far past the buffer.
\<close>

definition copy_code :: "nat option \<Rightarrow> string \<Rightarrow> string option result" where
  "copy_code dest_size s =
     (case dest_size of
        None \<Rightarrow> Inr None
      | Some n \<Rightarrow> if n = 0 then Inl OutOfBounds else Inr (Some (take (n - 1) s)))"

definition copy_channel :: "nat option \<Rightarrow> string \<Rightarrow> string option result" where
  "copy_channel chansize cur =
     (case chansize of
        None \<Rightarrow> Inr None
      | Some n \<Rightarrow>
          if cur = [] then Inr None
          else (case ms_xchan2seedchan (Some cur) of
                  Inr chan \<Rightarrow> if n < 4 then Inl OutOfBounds else Inr (Some chan)
                | Inl _ \<Rightarrow> copy_code chansize cur))"

record nslc =
  nslc_net :: "string option"
  nslc_sta :: "string option"
  nslc_loc :: "string option"
  nslc_chan :: "string option"

text \<open>One code: split at the delimiter if there is one, copy, and go on behind it.\<close>

definition next_code :: "nat option \<Rightarrow> string \<Rightarrow> (string option \<times> string) result" where
  "next_code dest_size cur =
     (case split_code cur of
        None \<Rightarrow> Inr (None, cur)
      | Some (code, rest) \<Rightarrow>
          (case copy_code dest_size code of Inl e \<Rightarrow> Inl e | Inr s \<Rightarrow> Inr (s, rest)))"

definition ms_sid2nslc_n ::
  "bool \<Rightarrow> string option \<Rightarrow> nat option \<Rightarrow> nat option \<Rightarrow> nat option \<Rightarrow> nat option \<Rightarrow> nslc result" where
  "ms_sid2nslc_n alloc_ok sid netsize stasize locsize chansize =
     (case sid of
        None \<Rightarrow> Inl (ReturnError (-1))
      | Some s \<Rightarrow>
          if take 5 s \<noteq> ''FDSN:'' then Inl (ReturnError (-1))
          else (case after_last (CHR '':'') s of
            None \<Rightarrow> Inl NullDeref
          | Some cid \<Rightarrow>
              if length (filter (\<lambda>c. c = CHR ''_'') cid) \<noteq> 5 then Inl (ReturnError (-1))
              else if \<not> alloc_ok then Inl (ReturnError (-1))
              else (case next_code netsize cid of Inl e \<Rightarrow> Inl e | Inr (net, cur) \<Rightarrow>
                   (case next_code stasize cur of Inl e \<Rightarrow> Inl e | Inr (sta, cur) \<Rightarrow>
                   (case next_code locsize cur of Inl e \<Rightarrow> Inl e | Inr (loc, cur) \<Rightarrow>
                   (case copy_channel chansize cur of Inl e \<Rightarrow> Inl e | Inr chan \<Rightarrow>
                      Inr \<lparr>nslc_net = net, nslc_sta = sta, nslc_loc = loc, nslc_chan = chan\<rparr>))))))"

definition ms_sid2nslc :: "bool \<Rightarrow> string option \<Rightarrow> bool \<Rightarrow> bool \<Rightarrow> bool \<Rightarrow> bool \<Rightarrow> nslc result" where
  "ms_sid2nslc alloc_ok sid net sta loc chan =
     ms_sid2nslc_n alloc_ok sid (if net then Some 3 else None) (if sta then Some 6 else None)
       (if loc then Some 3 else None) (if chan then Some 4 else None)"

subsection \<open>Codes to source identifier\<close>

text \<open>
  The destination buffer, the position in it and the count of the bytes needed, which is
  an \<open>int\<close>.
\<close>

record sid_state =
  sid_buf :: "char list"
  sid_pos :: nat
  sid_needed :: int

definition store_char :: "nat \<Rightarrow> char \<Rightarrow> char list \<Rightarrow> char list result" where
  "store_char pos c buf = (if length buf \<le> pos then Inl OutOfBounds else Inr (buf[pos := c]))"

definition one_more :: "int \<Rightarrow> int result" where
  "one_more n = (if n = 2 ^ 31 - 1 then Inl Overflow else Inr (n + 1))"

definition put_char :: "nat \<Rightarrow> sid_state \<Rightarrow> char \<Rightarrow> sid_state result" where
  "put_char sidlen s c =
     (case (if sid_pos s < sidlen then
              (case store_char (sid_pos s) c (sid_buf s) of
                 Inl e \<Rightarrow> Inl e
               | Inr buf \<Rightarrow> Inr (s\<lparr>sid_buf := buf, sid_pos := Suc (sid_pos s)\<rparr>))
            else Inr s) of
        Inl e \<Rightarrow> Inl e
      | Inr s \<Rightarrow> (case one_more (sid_needed s) of Inl e \<Rightarrow> Inl e | Inr n \<Rightarrow> Inr (s\<lparr>sid_needed := n\<rparr>)))"

fun put_string :: "nat \<Rightarrow> sid_state \<Rightarrow> string \<Rightarrow> sid_state result" where
  "put_string sidlen s [] = Inr s"
| "put_string sidlen s (c # cs) =
     (case put_char sidlen s c of Inl e \<Rightarrow> Inl e | Inr s \<Rightarrow> put_string sidlen s cs)"

text \<open>The channel after the mapping to an extended one, where that succeeds.\<close>

definition map_channel :: "string \<Rightarrow> string result" where
  "map_channel chan =
     (case ms_seedchan2xchan (Some chan) True of
        Inr xchan \<Rightarrow> Inr (cstr xchan)
      | Inl (ReturnError e) \<Rightarrow> Inr chan
      | Inl e \<Rightarrow> Inl e)"

text \<open>The codes and the delimiters behind the first five characters, which are stored without a test.\<close>

definition ms_nslc2sid ::
  "char list option \<Rightarrow> nat \<Rightarrow> string option \<Rightarrow> string option \<Rightarrow> string option \<Rightarrow> string option \<Rightarrow>
   (int \<times> char list) result" where
  "ms_nslc2sid sid sidlen net sta loc chan =
     (case (sid, net, sta, chan) of
        (Some buf, Some net, Some sta, Some chan) \<Rightarrow>
          if sidlen < 16 then Inl (ReturnError (-1))
          else if length buf < 5 then Inl OutOfBounds
          else (case put_string sidlen \<lparr>sid_buf = ''FDSN:'' @ drop 5 buf, sid_pos = 5, sid_needed = 5\<rparr>
                  (net @ ''_'' @ sta @ ''_'' @ (case loc of None \<Rightarrow> [] | Some l \<Rightarrow> l) @ ''_'') of
            Inl e \<Rightarrow> Inl e
          | Inr s \<Rightarrow> (case map_channel chan of Inl e \<Rightarrow> Inl e
          | Inr chan \<Rightarrow> (case put_string sidlen s chan of Inl e \<Rightarrow> Inl e
          | Inr s \<Rightarrow> (case store_char (if sid_pos s < sidlen then sid_pos s else sid_pos s - 1) NUL (sid_buf s) of Inl e \<Rightarrow> Inl e
          | Inr buf \<Rightarrow> (case one_more (sid_needed s) of Inl e \<Rightarrow> Inl e
          | Inr needed \<Rightarrow>
              if needed > int sidlen then Inl (ReturnError (-1))
              else (case squeeze sidlen 0 0 buf of
                      Inl e \<Rightarrow> Inl e
                    | Inr (Some out, buf) \<Rightarrow> Inr (int out - 1, buf)
                    | Inr (None, buf) \<Rightarrow> Inr (-1, buf)))))))
      | _ \<Rightarrow> Inl (ReturnError (-1)))"

subsection \<open>Squeezing\<close>

text \<open>The in-place loop leaves the string without its spaces and finds its length.\<close>

lemma squeeze_cstr:
  assumes "out \<le> i" "i + length s < size_buf" "size_buf \<le> length buf" "NUL \<notin> set s"
    and "drop i buf = s @ NUL # rest"
  shows "\<exists>buf'. squeeze size_buf i out buf = Inr (Some (out + length (filter (\<lambda>c. c \<noteq> CHR '' '') s) + 1), buf') \<and>
           take (out + length (filter (\<lambda>c. c \<noteq> CHR '' '') s) + 1) buf' =
             take out buf @ filter (\<lambda>c. c \<noteq> CHR '' '') s @ [NUL]"
  using assms
proof (induction s arbitrary: i out buf)
  case Nil
  then have i: "i < length buf" by simp
  then have "buf ! i = NUL" using Nil.prems(5) by (metis append_Nil hd_drop_conv_nth list.sel(1))
  moreover have "out < length buf" using Nil.prems i by simp
  moreover have "(buf[out := NUL]) ! i = NUL" using \<open>buf ! i = NUL\<close> i by (cases "i = out") simp_all
  ultimately show ?case
    using Nil.prems(2) i by (subst squeeze.simps) (simp add: Let_def take_Suc_conv_app_nth)
next
  case (Cons c s)
  have i: "i < size_buf" "i < length buf" using Cons.prems by simp_all
  have c: "buf ! i = c" using Cons.prems(5) i by (metis append_Cons hd_drop_conv_nth list.sel(1))
  have drop: "drop (Suc i) buf = s @ NUL # rest" using Cons.prems(5) by (metis append_Cons drop_Suc list.sel(3) tl_drop)
  have "c \<noteq> NUL" using Cons.prems(4) by auto
  show ?case
  proof (cases "c = CHR '' ''")
    case True
    then have "squeeze size_buf i out buf = squeeze size_buf (Suc i) out buf"
      using i c by (subst squeeze.simps) (simp add: Let_def)
    then show ?thesis using Cons.IH [of out "Suc i" buf] Cons.prems drop True by simp
  next
    case False
    have upd: "(buf[out := c]) ! i \<noteq> NUL" using c i \<open>c \<noteq> NUL\<close> by (cases "i = out") simp_all
    then have "squeeze size_buf i out buf = squeeze size_buf (Suc i) (Suc out) (buf[out := c])"
      using i c False Cons.prems(1) by (subst squeeze.simps) (simp add: Let_def)
    moreover have "drop (Suc i) (buf[out := c]) = s @ NUL # rest"
      using drop Cons.prems(1) by simp
    moreover have "take (Suc out) (buf[out := c]) = take out buf @ [c]"
      using Cons.prems(1) i by (simp add: take_Suc_conv_app_nth)
    ultimately show ?thesis using Cons.IH [of "Suc out" "Suc i" "buf[out := c]"] Cons.prems False by simp
  qed
qed

abbreviation (input) despace :: "string \<Rightarrow> string" where
  "despace s \<equiv> filter (\<lambda>c. c \<noteq> CHR '' '') s"

lemma cstr_append_NUL: "NUL \<notin> set s \<Longrightarrow> cstr (s @ NUL # rest) = s"
  by (induction s) (auto simp: cstr_def)

lemma squeeze_string:
  assumes "take (Suc (length s)) buf = s @ [NUL]" "NUL \<notin> set s" "length s < size_buf" "size_buf \<le> length buf"
  shows "\<exists>buf'. squeeze size_buf 0 0 buf = Inr (Some (Suc (length (despace s))), buf') \<and> cstr buf' = despace s"
proof -
  have dd: "drop 0 buf = s @ NUL # drop (Suc (length s)) buf"
    using assms(1) by (metis append.assoc append_Cons append_Nil append_take_drop_id drop_0)
  obtain buf' where b: "squeeze size_buf 0 0 buf = Inr (Some (0 + length (despace s) + 1), buf')"
    "take (0 + length (despace s) + 1) buf' = take 0 buf @ despace s @ [NUL]"
    using squeeze_cstr [OF _ _ assms(4,2) dd, of 0] assms(3) by auto
  have "buf' = despace s @ NUL # drop (Suc (length (despace s))) buf'"
    using b(2) by (metis Suc_eq_plus1 add_0 append.assoc append_Cons append_Nil append_take_drop_id take0)
  then have "cstr buf' = despace s" using assms(2) cstr_append_NUL by (metis filter_is_subset subset_iff)
  then show ?thesis using b(1) by simp
qed

text \<open>Storing a string in a buffer of at least \<open>sidlen\<close> characters.\<close>

lemma put_char_ok:
  assumes "sidlen \<le> length (sid_buf s)" "sid_needed s < 2 ^ 31 - 1"
  shows "put_char sidlen s c =
    Inr (if sid_pos s < sidlen
         then s\<lparr>sid_buf := (sid_buf s)[sid_pos s := c], sid_pos := Suc (sid_pos s), sid_needed := sid_needed s + 1\<rparr>
         else s\<lparr>sid_needed := sid_needed s + 1\<rparr>)"
  using assms by (auto simp: put_char_def store_char_def one_more_def)

lemma put_string_ok:
  assumes "sidlen \<le> length (sid_buf s)" "sid_needed s + int (length cs) \<le> 2 ^ 31 - 1"
  shows "\<exists>s'. put_string sidlen s cs = Inr s' \<and> sid_needed s' = sid_needed s + int (length cs) \<and>
    length (sid_buf s') = length (sid_buf s) \<and> sid_pos s \<le> sid_pos s' \<and> (sid_pos s \<le> sidlen \<longrightarrow> sid_pos s' \<le> sidlen) \<and>
    (sid_pos s + length cs \<le> sidlen \<longrightarrow>
       sid_pos s' = sid_pos s + length cs \<and> take (sid_pos s') (sid_buf s') = take (sid_pos s) (sid_buf s) @ cs)"
  using assms
proof (induction cs arbitrary: s)
  case (Cons c cs)
  obtain s1 where s1: "put_char sidlen s c = Inr s1" using put_char_ok [OF Cons.prems(1)] Cons.prems(2) by simp
  then have f: "sid_needed s1 = sid_needed s + 1" "length (sid_buf s1) = length (sid_buf s)" "sid_pos s \<le> sid_pos s1"
    "sid_pos s \<le> sidlen \<longrightarrow> sid_pos s1 \<le> sidlen"
    "sid_pos s < sidlen \<Longrightarrow> sid_pos s1 = Suc (sid_pos s) \<and> take (sid_pos s1) (sid_buf s1) = take (sid_pos s) (sid_buf s) @ [c]"
    using put_char_ok [OF Cons.prems(1), of c] Cons.prems by (auto simp: take_Suc_conv_app_nth split: if_splits)
  have "sidlen \<le> length (sid_buf s1)" "sid_needed s1 + int (length cs) \<le> 2 ^ 31 - 1" using Cons.prems f(1,2) by simp_all
  from Cons.IH [OF this] show ?case using s1 f by fastforce
qed simp

lemma put_string_overflow:
  assumes "sidlen \<le> length (sid_buf s)" "2 ^ 31 - 1 < sid_needed s + int (length cs)" "sid_needed s \<le> 2 ^ 31 - 1"
  shows "put_string sidlen s cs = Inl Overflow"
  using assms
proof (induction cs arbitrary: s)
  case (Cons c cs)
  show ?case
  proof (cases "sid_needed s < 2 ^ 31 - 1")
    case True
    let ?s = "if sid_pos s < sidlen
         then s\<lparr>sid_buf := (sid_buf s)[sid_pos s := c], sid_pos := Suc (sid_pos s), sid_needed := sid_needed s + 1\<rparr>
         else s\<lparr>sid_needed := sid_needed s + 1\<rparr>"
    have "put_string sidlen ?s cs = Inl Overflow" using Cons.prems True by (intro Cons.IH) auto
    then show ?thesis using put_char_ok [OF Cons.prems(1) True, of c] by simp
  next
    case False
    then have "sid_needed s = 2 ^ 31 - 1" using Cons.prems(3) by simp
    then show ?thesis using Cons.prems(1) by (auto simp: put_char_def store_char_def one_more_def)
  qed
qed simp

lemma put_string_append:
  "put_string sidlen s (xs @ ys) = (case put_string sidlen s xs of Inl e \<Rightarrow> Inl e | Inr s \<Rightarrow> put_string sidlen s ys)"
  by (induction xs arbitrary: s) (simp_all split: sum.split)

text \<open>The identifier the codes make, before spaces are removed.\<close>

definition extended_channel :: "string \<Rightarrow> string" where
  "extended_channel chan =
     (case chan of [b, s, p] \<Rightarrow> despace [b, CHR ''_'', s, CHR ''_'', p] | _ \<Rightarrow> chan)"

definition sid_string :: "string \<Rightarrow> string \<Rightarrow> string \<Rightarrow> string \<Rightarrow> string" where
  "sid_string net sta loc chan =
     ''FDSN:'' @ net @ ''_'' @ sta @ ''_'' @ loc @ ''_'' @ extended_channel chan"

lemma seedchan2xchan_channel:
  assumes "NUL \<notin> set chan"
  shows "(case ms_seedchan2xchan (Some chan) True of Inr xchan \<Rightarrow> cstr xchan | Inl _ \<Rightarrow> chan) = extended_channel chan"
proof (cases "\<exists>b s p. chan = [b, s, p]")
  case True
  then obtain b s p where chan: "chan = [b, s, p]" by blast
  let ?x = "[b, CHR ''_'', s, CHR ''_'', p]"
  have "\<exists>buf'. squeeze 6 0 0 (?x @ [NUL]) = Inr (Some (Suc (length (despace ?x))), buf') \<and> cstr buf' = despace ?x"
    using assms chan by (intro squeeze_string) auto
  then show ?thesis by (auto simp: chan ms_seedchan2xchan_def extended_channel_def)
next
  case False
  then show ?thesis
    by (auto simp: ms_seedchan2xchan_def extended_channel_def split: list.split)
qed

lemma map_channel_value:
  assumes "NUL \<notin> set chan"
  shows "map_channel chan = Inr (extended_channel chan)"
proof -
  have "ms_seedchan2xchan (Some chan) True = Inl (ReturnError (-1)) \<or> (\<exists>x. ms_seedchan2xchan (Some chan) True = Inr x)"
  proof (cases "\<exists>b s p. chan = [b, s, p]")
    case True
    then obtain b s p where chan: "chan = [b, s, p]" by blast
    let ?x = "[b, CHR ''_'', s, CHR ''_'', p]"
    have "\<exists>buf'. squeeze 6 0 0 (?x @ [NUL]) = Inr (Some (Suc (length (despace ?x))), buf') \<and> cstr buf' = despace ?x"
      using assms chan by (intro squeeze_string) auto
    then show ?thesis by (auto simp: chan ms_seedchan2xchan_def)
  qed (auto simp: ms_seedchan2xchan_def split: list.split)
  then show ?thesis using seedchan2xchan_channel [OF assms] by (auto simp: map_channel_def)
qed

text \<open>The routine on codes whose identifier is \<open>full\<close>.\<close>

lemma ms_nslc2sid_value:
  assumes "16 \<le> sidlen" "sidlen \<le> length buf" "sidlen < 2 ^ 31" "NUL \<notin> set (net @ sta @ l @ chan)"
    and "l = (case loc of None \<Rightarrow> [] | Some l \<Rightarrow> l)" "full = sid_string net sta l chan"
  shows "if length full < sidlen
         then \<exists>buf'. ms_nslc2sid (Some buf) sidlen (Some net) (Some sta) loc (Some chan) = Inr (int (length (despace full)), buf') \<and>
                cstr buf' = despace full
         else if length full < 2 ^ 31 - 1 then ms_nslc2sid (Some buf) sidlen (Some net) (Some sta) loc (Some chan) = Inl (ReturnError (-1))
         else ms_nslc2sid (Some buf) sidlen (Some net) (Some sta) loc (Some chan) = Inl Overflow"
proof -
  define codes where "codes = net @ ''_'' @ sta @ ''_'' @ l @ ''_''"
  define s0 where "s0 = \<lparr>sid_buf = ''FDSN:'' @ drop 5 buf, sid_pos = 5, sid_needed = 5\<rparr>"
  have nul: "NUL \<notin> set full"
    using assms(4) by (auto simp: assms(6) sid_string_def extended_channel_def split: list.splits)
  have full: "full = ''FDSN:'' @ codes @ extended_channel chan" by (simp add: assms(6) sid_string_def codes_def)
  have s0: "sidlen \<le> length (sid_buf s0)" "sid_needed s0 = 5" "sid_pos s0 = 5" "length (sid_buf s0) = length buf"
    "take 5 (sid_buf s0) = ''FDSN:''"
    using assms(1,2) by (simp_all add: s0_def)
  have all: "put_string sidlen s0 (codes @ extended_channel chan) =
      (case put_string sidlen s0 codes of Inl e \<Rightarrow> Inl e | Inr s \<Rightarrow> put_string sidlen s (extended_channel chan))"
    by (rule put_string_append)
  have "map_channel chan = Inr (extended_channel chan)" using assms(4) by (intro map_channel_value) simp
  then have run: "ms_nslc2sid (Some buf) sidlen (Some net) (Some sta) loc (Some chan) =
     (case put_string sidlen s0 (codes @ extended_channel chan) of Inl e \<Rightarrow> Inl e
      | Inr s \<Rightarrow> (case store_char (if sid_pos s < sidlen then sid_pos s else sid_pos s - 1) NUL (sid_buf s) of Inl e \<Rightarrow> Inl e
      | Inr buf \<Rightarrow> (case one_more (sid_needed s) of Inl e \<Rightarrow> Inl e
      | Inr needed \<Rightarrow>
          if needed > int sidlen then Inl (ReturnError (-1))
          else (case squeeze sidlen 0 0 buf of Inl e \<Rightarrow> Inl e | Inr (Some out, buf) \<Rightarrow> Inr (int out - 1, buf)
                | Inr (None, buf) \<Rightarrow> Inr (-1, buf)))))"
    using assms(1,2) unfolding all by (simp add: ms_nslc2sid_def s0_def codes_def assms(5) split: sum.split)
  show ?thesis
  proof (cases "length full \<le> 2 ^ 31 - 1")
    case False
    then have "put_string sidlen s0 (codes @ extended_channel chan) = Inl Overflow"
      using s0 full by (intro put_string_overflow) simp_all
    then show ?thesis using False assms(3) by (auto simp: run)
  next
    case True
    then have fits: "sid_needed s0 + int (length (codes @ extended_channel chan)) \<le> 2 ^ 31 - 1" using s0(2) full by simp
    have lf: "length full = 5 + length (codes @ extended_channel chan)" "full = take 5 (sid_buf s0) @ codes @ extended_channel chan"
      by (simp_all add: full s0(5))
    obtain s where s: "put_string sidlen s0 (codes @ extended_channel chan) = Inr s" "sid_needed s = int (length full)"
      "length (sid_buf s) = length buf" "5 \<le> sid_pos s" "sid_pos s \<le> sidlen"
      "length full \<le> sidlen \<Longrightarrow> sid_pos s = length full \<and> take (length full) (sid_buf s) = full"
      using put_string_ok [OF s0(1) fits] assms(1) unfolding s0(2-4) lf(1) [symmetric] lf(2) [symmetric] by (auto simp: lf(1))
    have store: "store_char (if sid_pos s < sidlen then sid_pos s else sid_pos s - 1) NUL (sid_buf s) =
        Inr ((sid_buf s)[(if sid_pos s < sidlen then sid_pos s else sid_pos s - 1) := NUL])"
      using assms(1,2) s(3-5) by (auto simp: store_char_def)
    show ?thesis
    proof (cases "length full < sidlen")
      case short: True
      let ?b = "(sid_buf s)[length full := NUL]"
      have "take (Suc (length full)) ?b = full @ [NUL]"
        using s(3,6) short assms(2) by (simp add: take_Suc_conv_app_nth)
      then obtain buf' where "squeeze sidlen 0 0 ?b = Inr (Some (Suc (length (despace full))), buf')" "cstr buf' = despace full"
        using squeeze_string [of full ?b sidlen] nul short assms(2) s(3) by auto
      moreover have "sid_pos s = length full" using s(6) short by simp
      ultimately show ?thesis using short assms(3) s(1,2) store by (simp add: run one_more_def)
    next
      case False
      then show ?thesis using True s(1,2) store by (auto simp: run one_more_def)
    qed
  qed
qed

subsection \<open>Splitting\<close>

definition plain_code :: "string \<Rightarrow> bool" where
  "plain_code s \<longleftrightarrow> set s \<inter> {CHR ''_'', CHR '':'', CHR '' '', NUL} = {}"

lemma plain_codeD:
  "plain_code s \<Longrightarrow> CHR ''_'' \<notin> set s" "plain_code s \<Longrightarrow> CHR '':'' \<notin> set s"
  "plain_code s \<Longrightarrow> CHR '' '' \<notin> set s" "plain_code s \<Longrightarrow> NUL \<notin> set s"
  by (auto simp: plain_code_def)

lemma plain_despace: "plain_code s \<Longrightarrow> despace s = s"
  by (auto simp: plain_code_def filter_id_conv)

lemma after_last_none: "c \<notin> set xs \<Longrightarrow> after_last c xs = None"
  by (induction xs) auto

lemma after_last_some: "c \<notin> set ys \<Longrightarrow> after_last c (xs @ c # ys) = Some ys"
  by (induction xs) (auto simp: after_last_none)

lemma split_at_delimiter:
  "c \<notin> set s \<Longrightarrow> dropWhile (\<lambda>x. x \<noteq> c) (s @ c # rest) = c # rest"
  "c \<notin> set s \<Longrightarrow> takeWhile (\<lambda>x. x \<noteq> c) (s @ c # rest) = s"
  by (induction s) auto

lemma split_code_some: "CHR ''_'' \<notin> set s \<Longrightarrow> split_code (s @ CHR ''_'' # rest) = Some (s, rest)"
  by (simp add: split_code_def split_at_delimiter)

lemma filter_none: "c \<notin> set s \<Longrightarrow> filter (\<lambda>x. x = c) s = []"
  by (induction s) auto

lemma sid2nslc_plain:
  assumes "plain_code net" "plain_code sta" "plain_code loc" "plain_code [b, s, p]"
    and "0 < netsize" "0 < stasize" "0 < locsize"
  shows "ms_sid2nslc_n True (Some (sid_string net sta loc [b, s, p])) (Some netsize) (Some stasize) (Some locsize) (Some chansize) =
     (if chansize < 4 then Inl OutOfBounds
      else Inr \<lparr>nslc_net = Some (take (netsize - 1) net), nslc_sta = Some (take (stasize - 1) sta),
                nslc_loc = Some (take (locsize - 1) loc), nslc_chan = Some [b, s, p]\<rparr>)"
proof -
  let ?chan = "[b, CHR ''_'', s, CHR ''_'', p]"
  let ?rest = "net @ CHR ''_'' # sta @ CHR ''_'' # loc @ CHR ''_'' # ?chan"
  have ch: "extended_channel [b, s, p] = ?chan"
    using assms(4) by (auto simp: extended_channel_def plain_code_def)
  have sid: "sid_string net sta loc [b, s, p] = ''FDSN'' @ CHR '':'' # ?rest"
    by (simp add: sid_string_def ch)
  have "CHR '':'' \<notin> set ?rest" using assms(1-4) by (auto simp: plain_code_def)
  then have last: "after_last (CHR '':'') (''FDSN'' @ CHR '':'' # ?rest) = Some ?rest" by (rule after_last_some)
  have "b \<noteq> CHR ''_''" "s \<noteq> CHR ''_''" "p \<noteq> CHR ''_''" using assms(4) by (auto simp: plain_code_def)
  then have count: "length (filter (\<lambda>c. c = CHR ''_'') ?rest) = 5"
    using assms(1-3) by (simp add: filter_none plain_codeD)
  show ?thesis
    unfolding ms_sid2nslc_n_def sid option.case last count
    using assms(1-3,5-7)
    by (simp add: next_code_def split_code_some plain_codeD copy_code_def copy_channel_def ms_xchan2seedchan_def)
qed

subsection \<open>Properties\<close>

text \<open>
  C36. For codes of any content and a destination of at least the stated size the identifier
  is the codes joined with underscores behind \<open>FDSN:\<close>, a three-character channel expanded,
  all spaces removed, and the length returned is its length. When it does not fit the
  destination before spaces are removed, the routine fails. It never writes behind the
  destination, not even one of exactly the stated size; only codes of 2 to the 31 characters
  and more make the count of needed bytes overflow.
\<close>

theorem nslc2sid_correct:
  assumes "16 \<le> sidlen" "sidlen \<le> length buf" "sidlen < 2 ^ 31" "NUL \<notin> set (net @ sta @ loc @ chan)"
    and "full = sid_string net sta loc chan"
  shows "if length full < sidlen
         then \<exists>buf'. ms_nslc2sid (Some buf) sidlen (Some net) (Some sta) (Some loc) (Some chan) =
                Inr (int (length (filter (\<lambda>c. c \<noteq> CHR '' '') full)), buf') \<and> cstr buf' = filter (\<lambda>c. c \<noteq> CHR '' '') full
         else if length full < 2 ^ 31 - 1
         then ms_nslc2sid (Some buf) sidlen (Some net) (Some sta) (Some loc) (Some chan) = Inl (ReturnError (-1))
         else ms_nslc2sid (Some buf) sidlen (Some net) (Some sta) (Some loc) (Some chan) = Inl Overflow"
  using ms_nslc2sid_value [OF assms(1-3), of net sta loc chan "Some loc"] assms(4,5) by simp

theorem nslc2sid_correct_witness:
  "(\<exists>buf'. ms_nslc2sid (Some (replicate 16 NUL)) 16 (Some ''XX'') (Some ''T '') (Some ''00'') (Some ''B'') =
      Inr (14, buf') \<and> cstr buf' = ''FDSN:XX_T_00_B'') \<and>
   ms_nslc2sid (Some (replicate 16 NUL)) 16 (Some ''XX'') (Some ''TEST '') (Some ''00'') (Some ''BHZ'') = Inl (ReturnError (-1))"
proof -
  have "sid_string ''XX'' ''T '' ''00'' ''B'' = ''FDSN:XX_T _00_B''"
    "sid_string ''XX'' ''TEST '' ''00'' ''BHZ'' = ''FDSN:XX_TEST _00_B_H_Z''" by code_simp+
  with nslc2sid_correct [of 16 "replicate 16 NUL" "''XX''" "''T ''" "''00''" "''B''"]
    nslc2sid_correct [of 16 "replicate 16 NUL" "''XX''" "''TEST ''" "''00''" "''BHZ''"]
  show ?thesis by simp
qed

text \<open>
  C17. Codes without delimiters or spaces and with a three-character channel survive the
  way into a source identifier and back, whenever the destinations are large enough; the
  size of the identifier is an \<open>int\<close>.
\<close>

theorem sid_roundtrip:
  assumes "plain_code net" "plain_code sta" "plain_code loc" "plain_code chan" "length chan = 3"
    and "16 \<le> sidlen" "sidlen \<le> length buf" "sidlen < 2 ^ 31" "length net + length sta + length loc + 13 < sidlen"
    and "length net < netsize" "length sta < stasize" "length loc < locsize" "4 \<le> chansize"
  shows "\<exists>len buf'. ms_nslc2sid (Some buf) sidlen (Some net) (Some sta) (Some loc) (Some chan) = Inr (len, buf') \<and>
           len = int (length (cstr buf')) \<and>
           ms_sid2nslc_n True (Some (cstr buf')) (Some netsize) (Some stasize) (Some locsize) (Some chansize) =
             Inr \<lparr>nslc_net = Some net, nslc_sta = Some sta, nslc_loc = Some loc, nslc_chan = Some chan\<rparr>"
proof -
  obtain b s p where chan: "chan = [b, s, p]" using assms(5) by (auto simp: length_Suc_conv numeral_3_eq_3)
  have ch: "extended_channel chan = [b, CHR ''_'', s, CHR ''_'', p]"
    using assms(4) by (auto simp: extended_channel_def plain_code_def chan)
  have nul: "NUL \<notin> set (net @ sta @ loc @ chan)" using assms(1-4) by (auto simp: plain_code_def)
  have len: "length (sid_string net sta loc chan) < sidlen" using assms(9) by (simp add: sid_string_def ch)
  have d: "despace (sid_string net sta loc chan) = sid_string net sta loc chan"
    using assms(1-4) by (simp add: sid_string_def ch plain_despace) (auto simp: chan plain_code_def)
  show ?thesis
    using ms_nslc2sid_value [OF assms(6-8) nul, of "Some loc"] len d
      sid2nslc_plain [of net sta loc b s p netsize stasize locsize chansize] assms
    by (auto simp: chan)
qed

theorem sid_roundtrip_witness:
  "\<exists>len buf'. ms_nslc2sid (Some (replicate 64 NUL)) 64 (Some ''IU'') (Some ''COLA'') (Some ''00'') (Some ''LHZ'') = Inr (len, buf') \<and>
     len = int (length (cstr buf')) \<and>
     ms_sid2nslc_n True (Some (cstr buf')) (Some 3) (Some 6) (Some 3) (Some 4) =
       Inr \<lparr>nslc_net = Some ''IU'', nslc_sta = Some ''COLA'', nslc_loc = Some ''00'', nslc_chan = Some ''LHZ''\<rparr>"
  by (rule sid_roundtrip) (simp_all add: plain_code_def)

text \<open>
  C37. The mapping to a SEED channel does not look at the size given for the channel:
  for a destination of one to three bytes the routine writes past its end.
\<close>

theorem sid2nslc_channel_overflow:
  assumes "plain_code net" "plain_code sta" "plain_code loc" "plain_code [b, s, p]"
    and "0 < netsize" "0 < stasize" "0 < locsize" "0 < chansize" "chansize < 4"
  shows "ms_sid2nslc_n True (Some (sid_string net sta loc [b, s, p])) (Some netsize) (Some stasize) (Some locsize)
           (Some chansize) = Inl OutOfBounds"
  using sid2nslc_plain [OF assms(1-7), of chansize] assms(9) by simp

theorem sid2nslc_channel_overflow_witness:
  "ms_sid2nslc_n True (Some (sid_string ''IU'' ''COLA'' ''00'' [CHR ''L'', CHR ''H'', CHR ''Z''])) (Some 3) (Some 6)
     (Some 3) (Some 3) = Inl OutOfBounds"
  by (rule sid2nslc_channel_overflow) (simp_all add: plain_code_def)

end
