(* ===== verification/Selection.thy ===== *)
theory Selection
  imports Glob SourceId NsTime
begin

text \<open>
  Data selections of selection.c. The linked lists are Isabelle lists, NULL the empty one;
  the names are strings, \<open>sidpattern\<close> the string in its 100-byte member.
\<close>

record MS3SelectTime =
  st_starttime :: int
  st_endtime :: int

record MS3Selections =
  sidpattern :: string
  timewindows :: "MS3SelectTime list"
  sl_pubversion :: int

subsection \<open>Matching\<close>

definition skips_start :: "int \<Rightarrow> int \<Rightarrow> MS3SelectTime \<Rightarrow> bool" where
  "skips_start starttime endtime w \<longleftrightarrow>
     starttime \<noteq> NSTERROR \<and> starttime \<noteq> NSTUNSET \<and> st_starttime w \<noteq> NSTERROR \<and> st_starttime w \<noteq> NSTUNSET \<and>
     (starttime < st_starttime w \<and> \<not> (starttime \<le> st_starttime w \<and> endtime \<ge> st_starttime w))"

definition skips_end :: "int \<Rightarrow> int \<Rightarrow> MS3SelectTime \<Rightarrow> bool" where
  "skips_end starttime endtime w \<longleftrightarrow>
     endtime \<noteq> NSTERROR \<and> endtime \<noteq> NSTUNSET \<and> st_endtime w \<noteq> NSTERROR \<and> st_endtime w \<noteq> NSTUNSET \<and>
     (endtime > st_endtime w \<and> \<not> (starttime \<le> st_endtime w \<and> endtime \<ge> st_endtime w))"

fun match_times :: "int \<Rightarrow> int \<Rightarrow> MS3SelectTime list \<Rightarrow> MS3SelectTime option" where
  "match_times starttime endtime [] = None"
| "match_times starttime endtime (w # ws) =
     (if skips_start starttime endtime w then match_times starttime endtime ws
      else if skips_end starttime endtime w then match_times starttime endtime ws
      else Some w)"

text \<open>The entry found, with the matching time window when it has windows.\<close>

fun ms3_matchselect ::
  "MS3Selections list \<Rightarrow> string option \<Rightarrow> int \<Rightarrow> int \<Rightarrow> int \<Rightarrow> (MS3Selections \<times> MS3SelectTime option) option" where
  "ms3_matchselect [] sid starttime endtime pubversion = None"
| "ms3_matchselect (sl # sls) sid starttime endtime pubversion =
     (if ms_globmatch sid (Some (sidpattern sl)) then
        if sl_pubversion sl > 0 \<and> sl_pubversion sl \<noteq> pubversion
        then ms3_matchselect sls sid starttime endtime pubversion
        else if timewindows sl = [] then Some (sl, None)
        else (case match_times starttime endtime (timewindows sl) of
                Some w \<Rightarrow> Some (sl, Some w)
              | None \<Rightarrow> ms3_matchselect sls sid starttime endtime pubversion)
      else ms3_matchselect sls sid starttime endtime pubversion)"

subsection \<open>Adding\<close>

definition new_selection :: "string \<Rightarrow> MS3SelectTime \<Rightarrow> int \<Rightarrow> MS3Selections" where
  "new_selection pattern w pubversion =
     \<lparr>sidpattern = take 99 pattern, timewindows = [w], sl_pubversion = pubversion\<rparr>"

text \<open>The search for an entry with the pattern and version, and the window put in front.\<close>

fun add_window :: "string \<Rightarrow> int \<Rightarrow> MS3SelectTime \<Rightarrow> MS3Selections list \<Rightarrow> MS3Selections list option" where
  "add_window pattern pubversion w [] = None"
| "add_window pattern pubversion w (sl # sls) =
     (if sidpattern sl = pattern \<and> sl_pubversion sl = pubversion
      then Some (sl\<lparr>timewindows := w # timewindows sl\<rparr> # sls)
      else map_option ((#) sl) (add_window pattern pubversion w sls))"

text \<open>\<open>None\<close> is a NULL pointer; the two allocations succeed or fail.\<close>

definition ms3_addselect ::
  "bool \<Rightarrow> bool \<Rightarrow> MS3Selections list option \<Rightarrow> string option \<Rightarrow> int \<Rightarrow> int \<Rightarrow> int \<Rightarrow> MS3Selections list result" where
  "ms3_addselect time_ok entry_ok ppselections pattern starttime endtime pubversion =
     (case (ppselections, pattern) of
        (Some sls, Some pattern) \<Rightarrow>
          if \<not> time_ok then Inl (ReturnError (-1))
          else
            let w = \<lparr>st_starttime = starttime, st_endtime = endtime\<rparr> in
            if sls = [] then
              if \<not> entry_ok then Inl (ReturnError (-1)) else Inr [new_selection pattern w pubversion]
            else (case add_window pattern pubversion w sls of
                    Some sls \<Rightarrow> Inr sls
                  | None \<Rightarrow> if \<not> entry_ok then Inl (ReturnError (-1))
                            else Inr (new_selection pattern w pubversion # sls))
      | _ \<Rightarrow> Inl (ReturnError (-1)))"

text \<open>A code copied to its 20-byte buffer, or the wildcard.\<close>

definition select_code :: "string option \<Rightarrow> string" where
  "select_code code = (case code of Some c \<Rightarrow> take 19 c | None \<Rightarrow> ''*'')"

definition select_location :: "string option \<Rightarrow> string" where
  "select_location location =
     (case location of
        Some l \<Rightarrow> if l = ''--'' then [] else take 19 l
      | None \<Rightarrow> ''*'')"

definition seed_channel_pattern :: string where
  "seed_channel_pattern = ''[?*a-zA-Z0-9][?*a-zA-Z0-9][?*a-zA-Z0-9]''"

definition select_channel :: "string option \<Rightarrow> string" where
  "select_channel channel =
     (case channel of
        Some c \<Rightarrow>
          if ms_globmatch (Some c) (Some seed_channel_pattern)
          then (case ms_seedchan2xchan (Some c) True of Inr x \<Rightarrow> cstr x | Inl _ \<Rightarrow> [])
          else take 19 c
      | None \<Rightarrow> ''*'')"

definition ms3_addselect_comp ::
  "bool \<Rightarrow> bool \<Rightarrow> char list \<Rightarrow> MS3Selections list option \<Rightarrow> string option \<Rightarrow> string option \<Rightarrow> string option \<Rightarrow>
   string option \<Rightarrow> int \<Rightarrow> int \<Rightarrow> int \<Rightarrow> MS3Selections list result" where
  "ms3_addselect_comp time_ok entry_ok buf ppselections network station location channel starttime endtime pubversion =
     (if ppselections = None then Inl (ReturnError (-1))
      else (case ms_nslc2sid (Some buf) 100 (Some (select_code network)) (Some (select_code station))
                   (Some (select_location location)) (Some (select_channel channel)) of
              Inl e \<Rightarrow> Inl e
            | Inr (len, buf) \<Rightarrow>
                if len < 0 then Inl (ReturnError (-1))
                else ms3_addselect time_ok entry_ok ppselections (Some (cstr buf)) starttime endtime pubversion))"

subsection \<open>What is selected\<close>

text \<open>A time that leaves a window open, and windows that share a time with a range.\<close>

definition open_time :: "int \<Rightarrow> bool" where
  "open_time t \<longleftrightarrow> t = NSTERROR \<or> t = NSTUNSET"

definition overlaps :: "int \<Rightarrow> int \<Rightarrow> MS3SelectTime \<Rightarrow> bool" where
  "overlaps starttime endtime w \<longleftrightarrow>
     (open_time (st_starttime w) \<or> st_starttime w \<le> endtime) \<and> (open_time (st_endtime w) \<or> starttime \<le> st_endtime w)"

definition version_ok :: "int \<Rightarrow> int \<Rightarrow> bool" where
  "version_ok wanted pubversion \<longleftrightarrow> wanted \<le> 0 \<or> wanted = pubversion"

definition selects :: "string \<Rightarrow> int \<Rightarrow> int \<Rightarrow> int \<Rightarrow> MS3Selections \<Rightarrow> bool" where
  "selects sid starttime endtime pubversion sl \<longleftrightarrow>
     glob (sidpattern sl) sid \<and> version_ok (sl_pubversion sl) pubversion \<and>
     (timewindows sl = [] \<or> (\<exists>w \<in> set (timewindows sl). overlaps starttime endtime w))"

text \<open>The lists the library builds have a window in every entry.\<close>

definition windowed :: "MS3Selections list \<Rightarrow> bool" where
  "windowed sls \<longleftrightarrow> (\<forall>sl \<in> set sls. timewindows sl \<noteq> [])"

lemma skips_overlaps:
  assumes "\<not> open_time starttime" "\<not> open_time endtime" "starttime \<le> endtime"
  shows "skips_start starttime endtime w \<or> skips_end starttime endtime w \<longleftrightarrow> \<not> overlaps starttime endtime w"
  using assms by (auto simp: skips_start_def skips_end_def overlaps_def open_time_def)

lemma match_times_find:
  assumes "\<not> open_time starttime" "\<not> open_time endtime" "starttime \<le> endtime"
  shows "match_times starttime endtime ws = find (overlaps starttime endtime) ws"
  using skips_overlaps [OF assms] by (induction ws) auto

lemma matchselect_find:
  assumes "\<not> open_time starttime" "\<not> open_time endtime" "starttime \<le> endtime"
  shows "map_option fst (ms3_matchselect sls (Some sid) starttime endtime pubversion) =
         find (selects sid starttime endtime pubversion) sls"
proof (induction sls)
  case (Cons sl sls)
  show ?case
    using Cons find_None_iff [of "overlaps starttime endtime" "timewindows sl"]
    by (auto simp: match_times_find [OF assms] ms_globmatch_iff selects_def version_ok_def not_less split: option.split)
qed simp

lemma matchselect_exists:
  assumes "\<not> open_time st" "\<not> open_time en" "st \<le> en"
  shows "ms3_matchselect l (Some sid) st en v \<noteq> None \<longleftrightarrow> (\<exists>sl \<in> set l. selects sid st en v sl)"
  using matchselect_find [OF assms, of l sid v] find_None_iff [of "selects sid st en v" l]
  by (metis option.map_disc_iff)

lemma add_window_selects:
  assumes "windowed sls" "add_window pattern pv w sls = Some sls'"
  shows "(\<exists>sl \<in> set sls'. selects sid st en v sl) \<longleftrightarrow>
         (\<exists>sl \<in> set sls. selects sid st en v sl) \<or> glob pattern sid \<and> version_ok pv v \<and> overlaps st en w"
    and "windowed sls'"
proof -
  show "(\<exists>sl \<in> set sls'. selects sid st en v sl) \<longleftrightarrow>
         (\<exists>sl \<in> set sls. selects sid st en v sl) \<or> glob pattern sid \<and> version_ok pv v \<and> overlaps st en w"
    using assms by (induction sls arbitrary: sls') (auto simp: selects_def windowed_def split: if_splits)
  show "windowed sls'"
    using assms by (induction sls arbitrary: sls') (auto simp: windowed_def split: if_splits)
qed

lemma addselect_selects:
  assumes "windowed sls" "length pattern < 100"
  shows "\<exists>sls'. ms3_addselect True True (Some sls) (Some pattern) st0 en0 pv = Inr sls' \<and> windowed sls' \<and>
           ((\<exists>sl \<in> set sls'. selects sid st en v sl) \<longleftrightarrow>
            (\<exists>sl \<in> set sls. selects sid st en v sl) \<or>
            glob pattern sid \<and> version_ok pv v \<and> overlaps st en \<lparr>st_starttime = st0, st_endtime = en0\<rparr>)"
proof -
  let ?w = "\<lparr>st_starttime = st0, st_endtime = en0\<rparr>"
  show ?thesis
  proof (cases "add_window pattern pv ?w sls")
    case None
    then show ?thesis
      using assms by (auto simp: ms3_addselect_def Let_def new_selection_def windowed_def selects_def)
  next
    case (Some sls')
    then have "sls \<noteq> []" by auto
    then show ?thesis
      using Some add_window_selects [OF assms(1) Some] by (simp add: ms3_addselect_def Let_def)
  qed
qed

subsection \<open>Selections by code\<close>

lemma seed_class: "bracket_class (''?*a-zA-Z0-9]'' @ rest) = Some (fst (the (bracket_class (''?*a-zA-Z0-9]'' @ rest))), rest)"
proof -
  have start: "first_ranges (''?*a-zA-Z0-9]'' @ rest) = class_ranges (''?*a-zA-Z0-9]'' @ rest)"
    by (simp add: first_ranges_def dash_ranges_def)
  have "\<exists>rs. class_ranges (''?*a-zA-Z0-9]'' @ rest) = Some (rs, rest)"
    by (subst class_ranges.simps, simp add: add_range_def)+
  then obtain rs where "class_ranges (''?*a-zA-Z0-9]'' @ rest) = Some (rs, rest)" by blast
  then show ?thesis using start by (simp add: bracket_class_def)
qed

lemma seed_channel_length:
  assumes "ms_globmatch (Some c) (Some seed_channel_pattern)"
  shows "\<exists>b s p. c = [b, s, p]"
proof -
  let ?cl = "''?*a-zA-Z0-9]''"
  have at: "snd (atom (CHR ''['' # ?cl @ rest)) = rest" for rest
    using seed_class [of rest] by (simp only: atom.simps) (auto split: option.split)
  have step: "glob (CHR ''['' # ?cl @ rest) u \<Longrightarrow> \<exists>x v. u = x # v \<and> glob rest v" for rest u
    using glob_atom_iff [of "CHR ''[''" "?cl @ rest" u] at [of rest] by auto
  have "glob (CHR ''['' # ?cl @ CHR ''['' # ?cl @ CHR ''['' # ?cl @ []) c"
    using assms by (simp add: ms_globmatch_iff seed_channel_pattern_def)
  then show ?thesis using step by (metis glob_Nil)
qed

text \<open>The pattern for codes: a wildcard for a missing one, nothing for the location \<open>--\<close>.\<close>

definition wanted_code :: "string option \<Rightarrow> string" where
  "wanted_code code = (case code of Some c \<Rightarrow> c | None \<Rightarrow> ''*'')"

definition wanted_location :: "string option \<Rightarrow> string" where
  "wanted_location location = (if location = Some ''--'' then [] else wanted_code location)"

definition wanted_channel :: "string option \<Rightarrow> string" where
  "wanted_channel channel =
     (case wanted_code channel of [b, s, p] \<Rightarrow> [b, CHR ''_'', s, CHR ''_'', p] | c \<Rightarrow> c)"

definition wanted_pattern :: "string option \<Rightarrow> string option \<Rightarrow> string option \<Rightarrow> string option \<Rightarrow> string" where
  "wanted_pattern network station location channel =
     ''FDSN:'' @ wanted_code network @ ''_'' @ wanted_code station @ ''_'' @ wanted_location location @ ''_'' @
     wanted_channel channel"

text \<open>Codes that fit the buffers and have no spaces.\<close>

definition short_code :: "string option \<Rightarrow> bool" where
  "short_code code \<longleftrightarrow> length (wanted_code code) < 20 \<and> set (wanted_code code) \<inter> {CHR '' '', NUL} = {}"

lemma select_code_wanted: "short_code code \<Longrightarrow> select_code code = wanted_code code"
  by (auto simp: short_code_def select_code_def wanted_code_def split: option.split)

lemma select_location_wanted: "short_code code \<Longrightarrow> select_location code = wanted_location code"
  by (auto simp: short_code_def select_location_def wanted_location_def wanted_code_def split: option.splits)

lemma select_channel_wanted:
  assumes "short_code channel"
  shows "extended_channel (select_channel channel) = wanted_channel channel"
proof (cases channel)
  case (Some c)
  have c: "CHR '' '' \<notin> set c" "NUL \<notin> set c" "length c < 20" using assms by (auto simp: short_code_def wanted_code_def Some)
  show ?thesis
  proof (cases "\<exists>b s p. c = [b, s, p]")
    case True
    then obtain b s p where bsp: "c = [b, s, p]" by blast
    have ext: "extended_channel c = [b, CHR ''_'', s, CHR ''_'', p]"
      using c by (auto simp: bsp extended_channel_def)
    have "select_channel channel = c \<or> select_channel channel = [b, CHR ''_'', s, CHR ''_'', p]"
      using seedchan2xchan_channel [OF c(2)] ext
      by (auto simp: select_channel_def Some bsp ms_seedchan2xchan_def split: sum.splits)
    then show ?thesis using ext by (auto simp: wanted_channel_def wanted_code_def Some bsp) (simp add: extended_channel_def)
  next
    case False
    then have "select_channel channel = c"
      using seed_channel_length [of c] c(3) by (auto simp: select_channel_def Some)
    then show ?thesis using False by (auto simp: extended_channel_def wanted_channel_def wanted_code_def Some split: list.split)
  qed
qed (simp add: select_channel_def extended_channel_def wanted_channel_def wanted_code_def)


lemma nul_extended: "NUL \<notin> set (extended_channel x) \<Longrightarrow> NUL \<notin> set x"
  by (auto simp: extended_channel_def split: list.splits if_splits)

lemma wanted_channel_cases: "wanted_channel channel = wanted_code channel \<or>
    (\<exists>b s p. wanted_code channel = [b, s, p] \<and> wanted_channel channel = [b, CHR ''_'', s, CHR ''_'', p])"
  by (auto simp: wanted_channel_def split: list.split)

lemma wanted_short:
  assumes "short_code network" "short_code station" "short_code location" "short_code channel"
  shows "length (wanted_pattern network station location channel) < 100"
    and "set (wanted_pattern network station location channel) \<inter> {CHR '' '', NUL} = {}"
proof -
  have "length (wanted_channel channel) < 20" "set (wanted_channel channel) \<inter> {CHR '' '', NUL} = {}"
    using assms(4) wanted_channel_cases [of channel] by (auto simp: short_code_def)
  moreover have "length (wanted_location location) < 20" "set (wanted_location location) \<inter> {CHR '' '', NUL} = {}"
    using assms(3) by (auto simp: short_code_def wanted_location_def)
  ultimately show "length (wanted_pattern network station location channel) < 100"
    "set (wanted_pattern network station location channel) \<inter> {CHR '' '', NUL} = {}"
    using assms(1,2) by (auto simp: wanted_pattern_def short_code_def)
qed

lemma comp_pattern:
  assumes "short_code network" "short_code station" "short_code location" "short_code channel" "100 \<le> length buf"
  shows "\<exists>len buf'. ms_nslc2sid (Some buf) 100 (Some (select_code network)) (Some (select_code station))
           (Some (select_location location)) (Some (select_channel channel)) = Inr (int len, buf') \<and>
         cstr buf' = wanted_pattern network station location channel"
proof -
  let ?net = "select_code network" and ?sta = "select_code station" and ?loc = "select_location location"
    and ?chan = "select_channel channel"
  let ?full = "wanted_pattern network station location channel"
  have full: "sid_string ?net ?sta ?loc ?chan = ?full"
    using assms by (simp add: sid_string_def wanted_pattern_def select_code_wanted select_location_wanted select_channel_wanted)
  have free: "set ?full \<inter> {CHR '' '', NUL} = {}" and len: "length ?full < 100"
    using wanted_short [OF assms(1-4)] by auto
  have "NUL \<notin> set (sid_string ?net ?sta ?loc ?chan)" using free by (auto simp: full)
  then have nul: "NUL \<notin> set (?net @ ?sta @ ?loc @ ?chan)" using nul_extended [of ?chan] by (auto simp: sid_string_def)
  have "despace ?full = ?full" using free by (auto simp: filter_id_conv)
  then show ?thesis
    using ms_nslc2sid_value [OF _ assms(5) _ nul, of "Some ?loc" ?full] len by (auto simp: full)
qed

subsection \<open>Properties\<close>

text \<open>
  C12. Adding a selection keeps every entry windowed and adds to what is selected exactly
  the records whose identifier the pattern matches, whose version is the one wanted (0 for
  any) and whose time range shares a time with the window, where an unset or error time
  leaves the window open; \<open>ms3_matchselect\<close> finds the first entry that selects. This is for
  patterns of less than 100 characters, the room of an entry, and records whose start and
  end times are set and in order.
\<close>

theorem addselect_matchselect:
  assumes "windowed sls" "length pattern < 100" "\<not> open_time st" "\<not> open_time en" "st \<le> en"
  shows "\<exists>sls'. ms3_addselect True True (Some sls) (Some pattern) st0 en0 pv = Inr sls' \<and> windowed sls' \<and>
           map_option fst (ms3_matchselect sls' (Some sid) st en v) = find (selects sid st en v) sls' \<and>
           (ms3_matchselect sls' (Some sid) st en v \<noteq> None \<longleftrightarrow>
            ms3_matchselect sls (Some sid) st en v \<noteq> None \<or>
            glob pattern sid \<and> version_ok pv v \<and> overlaps st en \<lparr>st_starttime = st0, st_endtime = en0\<rparr>)"
proof -
  note found = matchselect_exists [OF assms(3-5)]
  show ?thesis
    using addselect_selects [OF assms(1,2), of st0 en0 pv sid st en v] matchselect_find [OF assms(3-5)]
    unfolding found by blast
qed

theorem addselect_matchselect_witness:
  "\<exists>sls'. ms3_addselect True True (Some []) (Some ''FDSN:IU_*'') NSTUNSET 100 0 = Inr sls' \<and> windowed sls' \<and>
     map_option fst (ms3_matchselect sls' (Some ''FDSN:IU_COLA'') 50 150 1) = find (selects ''FDSN:IU_COLA'' 50 150 1) sls' \<and>
     (ms3_matchselect sls' (Some ''FDSN:IU_COLA'') 50 150 1 \<noteq> None \<longleftrightarrow>
      ms3_matchselect [] (Some ''FDSN:IU_COLA'') 50 150 1 \<noteq> None \<or>
      glob ''FDSN:IU_*'' ''FDSN:IU_COLA'' \<and> version_ok 0 1 \<and> overlaps 50 150 \<lparr>st_starttime = NSTUNSET, st_endtime = 100\<rparr>)"
  by (rule addselect_matchselect) (simp_all add: windowed_def open_time_def NSTERROR_def NSTUNSET_def)

text \<open>
  C21. A selection by codes of fewer than 20 characters selects by the source identifier
  pattern they make: a wildcard for each code not given, the location \<open>--\<close> for an empty one,
  a three-character channel in its extended form. It never fails for lack of room.
\<close>

theorem addselect_comp_selects:
  assumes "windowed sls" "100 \<le> length buf"
    and "short_code network" "short_code station" "short_code location" "short_code channel"
    and "\<not> open_time st" "\<not> open_time en" "st \<le> en"
  shows "\<exists>sls'. ms3_addselect_comp True True buf (Some sls) network station location channel st0 en0 pv = Inr sls' \<and>
           windowed sls' \<and>
           (ms3_matchselect sls' (Some sid) st en v \<noteq> None \<longleftrightarrow>
            ms3_matchselect sls (Some sid) st en v \<noteq> None \<or>
            glob (wanted_pattern network station location channel) sid \<and> version_ok pv v \<and>
            overlaps st en \<lparr>st_starttime = st0, st_endtime = en0\<rparr>)"
proof -
  note found = matchselect_exists [OF assms(7-9)]
  obtain len buf' where "ms_nslc2sid (Some buf) 100 (Some (select_code network)) (Some (select_code station))
      (Some (select_location location)) (Some (select_channel channel)) = Inr (int len, buf')"
    "cstr buf' = wanted_pattern network station location channel"
    using comp_pattern [OF assms(3-6,2)] by blast
  then have "ms3_addselect_comp True True buf (Some sls) network station location channel st0 en0 pv =
      ms3_addselect True True (Some sls) (Some (wanted_pattern network station location channel)) st0 en0 pv"
    by (simp add: ms3_addselect_comp_def)
  then show ?thesis
    using addselect_selects [OF assms(1) wanted_short(1) [OF assms(3-6)], of st0 en0 pv sid st en v]
    unfolding found by metis
qed

theorem addselect_comp_selects_witness:
  "\<exists>sls'. ms3_addselect_comp True True (replicate 100 NUL) (Some []) (Some ''IU'') None (Some ''--'') (Some ''LH?'') NSTUNSET NSTUNSET 2 =
       Inr sls' \<and> windowed sls' \<and>
     (ms3_matchselect sls' (Some ''FDSN:IU_COLA__L_H_Z'') 50 150 2 \<noteq> None \<longleftrightarrow>
      ms3_matchselect [] (Some ''FDSN:IU_COLA__L_H_Z'') 50 150 2 \<noteq> None \<or>
      glob (wanted_pattern (Some ''IU'') None (Some ''--'') (Some ''LH?'')) ''FDSN:IU_COLA__L_H_Z'' \<and> version_ok 2 2 \<and>
      overlaps 50 150 \<lparr>st_starttime = NSTUNSET, st_endtime = NSTUNSET\<rparr>)"
  by (rule addselect_comp_selects)
    (simp_all add: windowed_def open_time_def NSTERROR_def NSTUNSET_def short_code_def wanted_code_def)

end
