(* ===== verification/Memory.thy ===== *)
theory Memory
  imports Bytes
begin

text \<open>
  Raw records: a buffer is the list of its bytes, and the typed pointers of mseedformat.h
  read and write machine words in it in the byte order of the host. An access that leaves
  the buffer is \<open>OutOfBounds\<close>. The stored fields of a format are in one byte order,
  and the lemmas below say that a swap for the host makes the host disappear.
\<close>

subsection \<open>Words and their bytes\<close>

definition le_bytes :: "nat \<Rightarrow> 'a::len word \<Rightarrow> u8 list" where
  "le_bytes n w = map (\<lambda>i. ucast (drop_bit (8 * i) w)) [0..<n]"

primrec le_word :: "u8 list \<Rightarrow> 'a::len word" where
  "le_word [] = 0"
| "le_word (b # bs) = ucast b OR push_bit 8 (le_word bs)"

text \<open>A word of \<open>n\<close> bytes in the memory of the host, and back.\<close>

definition host_bytes :: "byteorder \<Rightarrow> nat \<Rightarrow> 'a::len word \<Rightarrow> u8 list" where
  "host_bytes h n w = (case h of LittleEndian \<Rightarrow> le_bytes n w | BigEndian \<Rightarrow> rev (le_bytes n w))"

definition host_word :: "byteorder \<Rightarrow> u8 list \<Rightarrow> 'a::len word" where
  "host_word h bs = (case h of LittleEndian \<Rightarrow> le_word bs | BigEndian \<Rightarrow> le_word (rev bs))"

lemma length_le_bytes [simp]: "length (le_bytes n w) = n"
  by (simp add: le_bytes_def)

lemma length_host_bytes [simp]: "length (host_bytes h n w) = n"
  by (simp add: host_bytes_def split: byteorder.split)

lemma le_word_bit:
  "8 * length bs \<le> LENGTH('a) \<Longrightarrow>
   bit (le_word bs :: 'a::len word) k \<longleftrightarrow> k < 8 * length bs \<and> bit (bs ! (k div 8)) (k mod 8)"
proof (induction bs arbitrary: k)
  case (Cons b bs)
  show ?case
  proof (cases "k < 8")
    case True
    then show ?thesis using Cons.prems by (simp add: bit_simps)
  next
    case False
    then obtain j where j: "k = j + 8" by (metis add.commute le_Suc_ex not_le)
    have "\<not> bit b (j + 8)" using bit_imp_le_length [of b "j + 8"] by auto
    then have "bit (le_word (b # bs) :: 'a word) k \<longleftrightarrow> j + 8 < LENGTH('a) \<and> bit (le_word bs :: 'a word) j"
      by (simp add: j bit_simps)
    also have "\<dots> \<longleftrightarrow> j < 8 * length bs \<and> bit (bs ! (j div 8)) (j mod 8)"
      using Cons.prems Cons.IH [of j] by auto
    finally have bit: "bit (le_word (b # bs) :: 'a word) k \<longleftrightarrow> j < 8 * length bs \<and> bit (bs ! (j div 8)) (j mod 8)" .
    have "k div 8 = Suc (j div 8)" "k mod 8 = j mod 8" by (simp_all add: j)
    then show ?thesis unfolding bit by (simp only: nth_Cons_Suc) (simp add: j)
  qed
qed simp

lemma le_word_le_bytes [simp]: "LENGTH('a) = 8 * n \<Longrightarrow> le_word (le_bytes n w) = (w :: 'a::len word)"
  by (rule bit_word_eqI) (auto simp: le_word_bit le_bytes_def bit_simps div_mod_decomp [symmetric] less_mult_imp_div_less)

lemma le_bytes_le_word: "LENGTH('a) = 8 * length bs \<Longrightarrow> le_bytes (length bs) (le_word bs :: 'a::len word) = bs"
proof (rule nth_equalityI)
  fix i assume len: "LENGTH('a) = 8 * length bs" and "i < length (le_bytes (length bs) (le_word bs :: 'a::len word))"
  then have i: "i < length bs" by simp
  show "le_bytes (length bs) (le_word bs :: 'a word) ! i = bs ! i"
  proof (rule bit_word_eqI)
    fix k assume "k < LENGTH(8)"
    then have k: "k < 8" by simp
    have "bit (le_bytes (length bs) (le_word bs :: 'a word) ! i) k \<longleftrightarrow> bit (le_word bs :: 'a word) (8 * i + k)"
      using i k by (simp add: le_bytes_def bit_simps)
    also have "\<dots> \<longleftrightarrow> bit (bs ! i) k" using i k len by (subst le_word_bit) simp_all
    finally show "bit (le_bytes (length bs) (le_word bs :: 'a word) ! i) k \<longleftrightarrow> bit (bs ! i) k" .
  qed
qed simp

lemma host_word_host_bytes [simp]: "LENGTH('a) = 8 * n \<Longrightarrow> host_word h (host_bytes h n w) = (w :: 'a::len word)"
  by (simp add: host_word_def host_bytes_def split: byteorder.split)

lemma host_bytes_host_word:
  "LENGTH('a) = 8 * length bs \<Longrightarrow> host_bytes h (length bs) (host_word h bs :: 'a::len word) = bs"
  using le_bytes_le_word [of bs, where 'a = 'a] le_bytes_le_word [of "rev bs", where 'a = 'a]
  by (auto simp: host_word_def host_bytes_def split: byteorder.split)

lemma upt_small: "[0..<2] = [0, 1]" "[0..<4] = [0, 1, 2, 3]" "[0..<8] = [0, 1, 2, 3, 4, 5, 6, 7]"
  by (simp_all add: upt_rec)

lemma le_bytes_gswap2: "le_bytes 2 (ms_gswap2 w) = rev (le_bytes 2 w)"
  by (simp add: le_bytes_def upt_small) (auto intro!: bit_word_eqI simp: bit_simps ms_gswap2_bit add.commute)

lemma le_bytes_gswap4: "le_bytes 4 (ms_gswap4 w) = rev (le_bytes 4 w)"
  by (simp add: le_bytes_def upt_small) (auto intro!: bit_word_eqI simp: bit_simps ms_gswap4_bit add.commute)

lemma le_bytes_gswap8: "le_bytes 8 (ms_gswap8 w) = rev (le_bytes 8 w)"
  by (simp add: le_bytes_def upt_small) (auto intro!: bit_word_eqI simp: bit_simps ms_gswap8_bit add.commute)


text \<open>A field written or read with its swap: the bytes in the file are those of one order.\<close>

lemma host_bytes_little:
  "host_bytes h 2 (swap2_if (ms_bigendianhost h) v) = le_bytes 2 v"
  "host_bytes h 4 (swap4_if (ms_bigendianhost h) w) = le_bytes 4 w"
  "host_bytes h 8 (swap8_if (ms_bigendianhost h) x) = le_bytes 8 x"
  by (cases h; simp add: host_bytes_def ms_bigendianhost_iff swap2_if_def swap4_if_def swap8_if_def
      le_bytes_gswap2 le_bytes_gswap4 le_bytes_gswap8)+

lemma host_word_little:
  "swap2_if (ms_bigendianhost h) (host_word h (le_bytes 2 v)) = v"
  "swap4_if (ms_bigendianhost h) (host_word h (le_bytes 4 w)) = w"
  "swap8_if (ms_bigendianhost h) (host_word h (le_bytes 8 x)) = x"
proof -
  show "swap2_if (ms_bigendianhost h) (host_word h (le_bytes 2 v)) = v"
    using host_word_host_bytes [of 2 h "swap2_if (ms_bigendianhost h) v"] by (simp only: host_bytes_little) simp
  show "swap4_if (ms_bigendianhost h) (host_word h (le_bytes 4 w)) = w"
    using host_word_host_bytes [of 4 h "swap4_if (ms_bigendianhost h) w"] by (simp only: host_bytes_little) simp
  show "swap8_if (ms_bigendianhost h) (host_word h (le_bytes 8 x)) = x"
    using host_word_host_bytes [of 8 h "swap8_if (ms_bigendianhost h) x"] by (simp only: host_bytes_little) simp
qed

lemma le_bytes_1 [simp]: "le_bytes 1 (b :: u8) = [b]" "le_bytes (Suc 0) b = [b]"
  by (simp_all add: le_bytes_def)

subsection \<open>Buffers\<close>

definition peek :: "nat \<Rightarrow> nat \<Rightarrow> u8 list \<Rightarrow> u8 list" where
  "peek off n mem = take n (drop off mem)"

definition poke :: "nat \<Rightarrow> u8 list \<Rightarrow> u8 list \<Rightarrow> u8 list" where
  "poke off bs mem = take off mem @ bs @ drop (off + length bs) mem"

text \<open>Reading a word and storing a sequence of fields, with the bounds checked.\<close>

definition read_mem :: "nat \<Rightarrow> nat \<Rightarrow> u8 list \<Rightarrow> u8 list result" where
  "read_mem off n mem = (if off + n \<le> length mem then Inr (peek off n mem) else Inl OutOfBounds)"

fun store_all :: "(nat \<times> u8 list) list \<Rightarrow> u8 list \<Rightarrow> u8 list result" where
  "store_all [] mem = Inr mem"
| "store_all ((off, bs) # fields) mem =
     (if off + length bs \<le> length mem then store_all fields (poke off bs mem) else Inl OutOfBounds)"

lemma length_poke [simp]: "off + length bs \<le> length mem \<Longrightarrow> length (poke off bs mem) = length mem"
  by (simp add: poke_def)

lemma length_peek [simp]: "length (peek off n mem) = min n (length mem - off)"
  by (simp add: peek_def)

lemma peek_poke_same: "off + length bs \<le> length mem \<Longrightarrow> n = length bs \<Longrightarrow> peek off n (poke off bs mem) = bs"
  by (simp add: peek_def poke_def)

lemma nth_poke_other:
  "off + length bs \<le> length mem \<Longrightarrow> j < off \<or> off + length bs \<le> j \<Longrightarrow> poke off bs mem ! j = mem ! j"
  by (auto simp: poke_def nth_append)

lemma nth_poke_same: "off + length bs \<le> length mem \<Longrightarrow> k < length bs \<Longrightarrow> poke off bs mem ! (off + k) = bs ! k"
  by (simp add: poke_def nth_append)

lemma peek_poke_other:
  assumes "off + length bs \<le> length mem" "i + n \<le> off \<or> off + length bs \<le> i"
  shows "peek i n (poke off bs mem) = peek i n mem"
proof (rule nth_equalityI)
  show "length (peek i n (poke off bs mem)) = length (peek i n mem)" using assms(1) by simp
  fix k assume "k < length (peek i n (poke off bs mem))"
  then have k: "k < n \<and> i + k < length mem" using assms(1) by (simp add: less_diff_conv add.commute)
  then have "poke off bs mem ! (i + k) = mem ! (i + k)" using assms by (intro nth_poke_other) auto
  then show "peek i n (poke off bs mem) ! k = peek i n mem ! k" using k assms(1) by (simp add: peek_def)
qed

lemma poke_append: "length xs = off \<Longrightarrow> length ys = length bs \<Longrightarrow> poke off bs (xs @ ys @ zs) = xs @ bs @ zs"
  by (simp add: poke_def)

lemma peek_append: "length xs = off \<Longrightarrow> length ys = n \<Longrightarrow> peek off n (xs @ ys @ zs) = ys"
  by (simp add: peek_def)

lemma peek_0_append: "length ys = n \<Longrightarrow> peek 0 n (ys @ zs) = ys"
  by (simp add: peek_def)

definition in_bounds :: "u8 list \<Rightarrow> nat \<times> u8 list \<Rightarrow> bool" where
  "in_bounds mem field = (case field of (off, bs) \<Rightarrow> off + length bs \<le> length mem)"

definition poke_all :: "(nat \<times> u8 list) list \<Rightarrow> u8 list \<Rightarrow> u8 list" where
  "poke_all fields mem = foldl (\<lambda>m (off, bs). poke off bs m) mem fields"

lemma poke_all_simps [simp]:
  "poke_all [] mem = mem" "poke_all ((off, bs) # fields) mem = poke_all fields (poke off bs mem)"
  by (simp_all add: poke_all_def)

lemma store_all_ok:
  "list_all (in_bounds mem) fields \<Longrightarrow> store_all fields mem = Inr (poke_all fields mem) \<and> length (poke_all fields mem) = length mem"
proof (induction fields arbitrary: mem)
  case (Cons field fields)
  obtain off bs where f: "field = (off, bs)" by (cases field)
  have "list_all (in_bounds (poke off bs mem)) fields"
    using Cons.prems by (auto simp: f in_bounds_def list_all_iff)
  then show ?case using Cons by (simp add: f in_bounds_def)
qed simp

text \<open>Fields stored at ascending places do not disturb each other.\<close>

fun ascending :: "(nat \<times> u8 list) list \<Rightarrow> bool" where
  "ascending [] = True"
| "ascending ((off, bs) # fields) \<longleftrightarrow> list_all (\<lambda>(off', _). off + length bs \<le> off') fields \<and> ascending fields"

lemma peek_poke_all_before:
  "list_all (in_bounds mem) fields \<Longrightarrow> list_all (\<lambda>(off', _). i + n \<le> off') fields \<Longrightarrow>
   peek i n (poke_all fields mem) = peek i n mem"
proof (induction fields arbitrary: mem)
  case (Cons field fields)
  obtain off bs where f: "field = (off, bs)" by (cases field)
  have "list_all (in_bounds (poke off bs mem)) fields" using Cons.prems by (auto simp: f in_bounds_def list_all_iff)
  then have "peek i n (poke_all fields (poke off bs mem)) = peek i n (poke off bs mem)" using Cons by simp
  also have "\<dots> = peek i n mem" using Cons.prems by (intro peek_poke_other) (auto simp: f in_bounds_def)
  finally show ?case by (simp add: f)
qed simp

lemma peek_poke_all:
  "list_all (in_bounds mem) fields \<Longrightarrow> ascending fields \<Longrightarrow>
   list_all (\<lambda>(off, bs). peek off (length bs) (poke_all fields mem) = bs) fields"
proof (induction fields arbitrary: mem)
  case (Cons field fields)
  obtain off bs where f: "field = (off, bs)" by (cases field)
  have b: "list_all (in_bounds (poke off bs mem)) fields" using Cons.prems by (auto simp: f in_bounds_def list_all_iff)
  moreover have "peek off (length bs) (poke_all fields (poke off bs mem)) = peek off (length bs) (poke off bs mem)"
    using Cons.prems b by (intro peek_poke_all_before) (simp_all add: f)
  ultimately show ?case using Cons by (simp add: f in_bounds_def peek_poke_same)
qed simp

lemma nth_peek: "i < n \<Longrightarrow> off + n \<le> length mem \<Longrightarrow> peek off n mem ! i = mem ! (off + i)"
  by (simp add: peek_def)

lemma peek_Suc: "off < length mem \<Longrightarrow> peek off (Suc n) mem = mem ! off # peek (Suc off) n mem"
  by (simp add: peek_def Cons_nth_drop_Suc [symmetric])

lemma peek_0 [simp]: "peek off 0 mem = []"
  by (simp add: peek_def)

lemma peek_split: "peek off (m + n) mem = peek off m mem @ peek (off + m) n mem"
  by (simp add: peek_def take_add drop_drop add.commute)

lemma peek_all: "peek 0 (length mem) mem = mem"
  by (simp add: peek_def)

end
