(* ===== verification/Detect.thy ===== *)
theory Detect
  imports Memory
begin

text \<open>
  Detection of records: the header signatures of libmseed.h, the byte order test of
  mseedformat.h and \<open>ms3_detect\<close> of parseutils.c. A buffer is the list of its bytes and
  \<open>recbuflen\<close> its length, so that a read behind it shows as \<open>OutOfBounds\<close>.
\<close>

abbreviation (input) "MINRECLEN \<equiv> 40 :: nat"
abbreviation (input) "MAXRECLEN \<equiv> 10485760 :: nat"
abbreviation (input) "MS3FSDH_LENGTH \<equiv> 40 :: nat"

subsection \<open>Fields in host order\<close>

definition HO2u :: "u16 \<Rightarrow> bool \<Rightarrow> u16" where
  "HO2u value swapflag = (if swapflag then ms_gswap2 value else value)"

definition HO4u :: "u32 \<Rightarrow> bool \<Rightarrow> u32" where
  "HO4u value swapflag = (if swapflag then ms_gswap4 value else value)"

definition HO8f :: "u64 \<Rightarrow> bool \<Rightarrow> u64" where
  "HO8f value swapflag = (if swapflag then ms_gswap8 value else value)"

subsection \<open>Signatures\<close>

definition MS2_ISDATAINDICATOR :: "u8 \<Rightarrow> bool" where
  "MS2_ISDATAINDICATOR x \<longleftrightarrow> x = 0x44 \<or> x = 0x52 \<or> x = 0x51 \<or> x = 0x4D"

definition MS3_ISVALIDHEADER :: "u8 list \<Rightarrow> bool" where
  "MS3_ISVALIDHEADER X \<longleftrightarrow>
     X ! 0 = 0x4D \<and> X ! 1 = 0x53 \<and> X ! 2 = 3 \<and> X ! 12 \<ge> 0 \<and> X ! 12 \<le> 23 \<and> X ! 13 \<ge> 0 \<and> X ! 13 \<le> 59 \<and>
     X ! 14 \<ge> 0 \<and> X ! 14 \<le> 60"

definition sequence_char :: "u8 \<Rightarrow> bool" where
  "sequence_char x \<longleftrightarrow> (0x30 \<le> x \<and> x \<le> 0x39) \<or> x = 0x20 \<or> x = 0"

definition MS2_ISVALIDHEADER :: "u8 list \<Rightarrow> bool" where
  "MS2_ISVALIDHEADER X \<longleftrightarrow>
     sequence_char (X ! 0) \<and> sequence_char (X ! 1) \<and> sequence_char (X ! 2) \<and> sequence_char (X ! 3) \<and>
     sequence_char (X ! 4) \<and> sequence_char (X ! 5) \<and> MS2_ISDATAINDICATOR (X ! 6) \<and> (X ! 7 = 0x20 \<or> X ! 7 = 0) \<and>
     X ! 24 \<ge> 0 \<and> X ! 24 \<le> 23 \<and> X ! 25 \<ge> 0 \<and> X ! 25 \<le> 59 \<and> X ! 26 \<ge> 0 \<and> X ! 26 \<le> 60"

definition MS_ISVALIDYEARDAY :: "u16 \<Rightarrow> u16 \<Rightarrow> bool" where
  "MS_ISVALIDYEARDAY Y D \<longleftrightarrow> Y \<ge> 1900 \<and> Y \<le> 2100 \<and> D \<ge> 1 \<and> D \<le> 366"

subsection \<open>Fields of the headers\<close>

text \<open>A field is read where its pointer macro points.\<close>

definition u16_at :: "byteorder \<Rightarrow> u8 list \<Rightarrow> nat \<Rightarrow> u16" where
  "u16_at h mem off = host_word h (peek off 2 mem)"

definition u32_at :: "byteorder \<Rightarrow> u8 list \<Rightarrow> nat \<Rightarrow> u32" where
  "u32_at h mem off = host_word h (peek off 4 mem)"

definition u64_at :: "byteorder \<Rightarrow> u8 list \<Rightarrow> nat \<Rightarrow> u64" where
  "u64_at h mem off = host_word h (peek off 8 mem)"

subsection \<open>The chain of blockettes\<close>

text \<open>
  The loop that looks for a 1000 blockette: the record length it gives, \<open>None\<close> at the end
  of the chain, or the error return for an offset that does not advance. The length is
  \<open>(uint64_t)1 << value\<close>, undefined from 64 on, stored in an \<open>int64_t\<close>.
\<close>

function blockette_loop :: "byteorder \<Rightarrow> bool \<Rightarrow> u8 list \<Rightarrow> nat \<Rightarrow> int option result" where
  "blockette_loop h swapflag mem blkt_offset =
     (if blkt_offset \<noteq> 0 \<and> 47 < blkt_offset \<and> blkt_offset \<le> length mem then
        if length mem < blkt_offset + 4 then Inl OutOfBounds
        else
          let blkt_type = HO2u (u16_at h mem blkt_offset) swapflag;
              next_blkt = unat (HO2u (u16_at h mem (blkt_offset + 2)) swapflag)
          in if blkt_type = 1000 \<and> blkt_offset + 8 \<le> length mem then
               if 64 \<le> unat (mem ! (blkt_offset + 6)) then Inl Overflow
               else Inr (Some (sint (push_bit (unat (mem ! (blkt_offset + 6))) (1 :: u64))))
             else if next_blkt \<noteq> 0 \<and> (next_blkt < 4 \<or> next_blkt - 4 \<le> blkt_offset) then Inl (ReturnError (-1))
             else blockette_loop h swapflag mem next_blkt
      else Inr None)"
  by pat_completeness auto
termination
  by (relation "measure (\<lambda>(h, s, mem, off). if off = 0 then 0 else Suc (length mem) - off)") auto

declare blockette_loop.simps [simp del]

text \<open>The scan for the next header, at multiples of 64 bytes.\<close>

function next_header :: "u8 list \<Rightarrow> nat \<Rightarrow> nat option" where
  "next_header mem nextfsdh =
     (if nextfsdh + 48 < length mem then
        if MS2_ISVALIDHEADER (drop nextfsdh mem) then Some nextfsdh
        else next_header mem (nextfsdh + 64)
      else None)"
  by pat_completeness auto
termination by (relation "measure (\<lambda>(mem, n). length mem - n)") auto

declare next_header.simps [simp del]

subsection \<open>Detection\<close>

text \<open>
  The value returned and the format version stored, \<open>None\<close> where nothing was stored. The
  sum of the version 3 lengths is an unsigned 32-bit sum, because \<open>datalength\<close> is one.
\<close>

definition ms3_detect :: "byteorder \<Rightarrow> u8 list option \<Rightarrow> (int \<times> nat option) result" where
  "ms3_detect h record =
     (case record of
        None \<Rightarrow> Inr (-1, None)
      | Some mem \<Rightarrow>
          if length mem < MINRECLEN then Inr (-1, None)
          else if MS3_ISVALIDHEADER mem then
            let swapflag = ms_bigendianhost h;
                sidlength = mem ! 33;
                extralength = HO2u (u16_at h mem 34) swapflag;
                datalength = HO4u (u32_at h mem 36) swapflag
            in Inr (uint (of_nat MS3FSDH_LENGTH + ucast sidlength + ucast extralength + datalength :: u32), Some 3)
          else if MS2_ISVALIDHEADER mem then
            if length mem < 48 then Inl OutOfBounds
            else
            let swapflag = \<not> MS_ISVALIDYEARDAY (u16_at h mem 20) (u16_at h mem 22)
            in (case blockette_loop h swapflag mem (unat (HO2u (u16_at h mem 46) swapflag)) of
                  Inl (ReturnError e) \<Rightarrow> Inr (e, Some 2)
                | Inl e \<Rightarrow> Inl e
                | Inr (Some reclen) \<Rightarrow> Inr (reclen, Some 2)
                | Inr None \<Rightarrow>
                    (case next_header mem 64 of
                       Some reclen \<Rightarrow> Inr (int reclen, Some 2)
                     | None \<Rightarrow> Inr (0, Some 2)))
          else Inr (-1, Some 0))"


subsection \<open>The little-endian fields of version 3\<close>

lemma HO_swap: "HO2u v s = swap2_if s v" "HO4u w s = swap4_if s w" "HO8f x s = swap8_if s x"
  by (simp_all add: HO2u_def HO4u_def HO8f_def swap2_if_def swap4_if_def swap8_if_def)

definition le_u16 :: "u8 list \<Rightarrow> nat \<Rightarrow> u16" where
  "le_u16 mem off = le_word (peek off 2 mem)"

definition le_u32 :: "u8 list \<Rightarrow> nat \<Rightarrow> u32" where
  "le_u32 mem off = le_word (peek off 4 mem)"

definition le_u64 :: "u8 list \<Rightarrow> nat \<Rightarrow> u64" where
  "le_u64 mem off = le_word (peek off 8 mem)"

lemma fields_little:
  "off + 2 \<le> length mem \<Longrightarrow> HO2u (u16_at h mem off) (ms_bigendianhost h) = le_u16 mem off"
  "off + 4 \<le> length mem \<Longrightarrow> HO4u (u32_at h mem off) (ms_bigendianhost h) = le_u32 mem off"
  "off + 8 \<le> length mem \<Longrightarrow> HO8f (u64_at h mem off) (ms_bigendianhost h) = le_u64 mem off"
proof -
  assume "off + 2 \<le> length mem"
  then have "le_bytes 2 (le_u16 mem off) = peek off 2 mem"
    using le_bytes_le_word [of "peek off 2 mem", where 'a = 16] by (simp add: le_u16_def)
  then show "HO2u (u16_at h mem off) (ms_bigendianhost h) = le_u16 mem off"
    unfolding HO_swap u16_at_def by (metis host_word_little(1))
next
  assume "off + 4 \<le> length mem"
  then have "le_bytes 4 (le_u32 mem off) = peek off 4 mem"
    using le_bytes_le_word [of "peek off 4 mem", where 'a = 32] by (simp add: le_u32_def)
  then show "HO4u (u32_at h mem off) (ms_bigendianhost h) = le_u32 mem off"
    unfolding HO_swap u32_at_def by (metis host_word_little(2))
next
  assume "off + 8 \<le> length mem"
  then have "le_bytes 8 (le_u64 mem off) = peek off 8 mem"
    using le_bytes_le_word [of "peek off 8 mem", where 'a = 64] by (simp add: le_u64_def)
  then show "HO8f (u64_at h mem off) (ms_bigendianhost h) = le_u64 mem off"
    unfolding HO_swap u64_at_def by (metis host_word_little(3))
qed

text \<open>The length the fields of a version 3 header describe.\<close>

definition v3_length :: "u8 list \<Rightarrow> nat" where
  "v3_length mem = MS3FSDH_LENGTH + unat (mem ! 33) + unat (le_u16 mem 34) + unat (le_u32 mem 36)"

lemma detect_v3:
  assumes "MINRECLEN \<le> length mem" "MS3_ISVALIDHEADER mem"
  shows "ms3_detect h (Some mem) = Inr (int (v3_length mem mod 2 ^ 32), Some 3)"
proof -
  define s where "s = (of_nat MS3FSDH_LENGTH + ucast (mem ! 33) + ucast (le_u16 mem 34) + le_u32 mem 36 :: u32)"
  have "s = of_nat (v3_length mem)"
    unfolding s_def v3_length_def of_nat_add of_nat_unat by simp
  then have "uint s = int (v3_length mem mod 2 ^ 32)"
    by (simp add: uint_nat unat_of_nat)
  moreover have "ms3_detect h (Some mem) = Inr (uint s, Some 3)"
    using assms by (simp add: ms3_detect_def Let_def fields_little s_def)
  ultimately show ?thesis by simp
qed

subsection \<open>The chain as a relation\<close>

text \<open>One blockette to the next: inside the buffer, not a whole 1000 blockette, and advancing.\<close>

inductive next_blockette :: "byteorder \<Rightarrow> bool \<Rightarrow> u8 list \<Rightarrow> nat \<Rightarrow> nat \<Rightarrow> bool" for h s mem where
  "47 < off \<Longrightarrow> off + 4 \<le> length mem \<Longrightarrow>
   \<not> (HO2u (u16_at h mem off) s = 1000 \<and> off + 8 \<le> length mem) \<Longrightarrow>
   next_off = unat (HO2u (u16_at h mem (off + 2)) s) \<Longrightarrow> next_off = 0 \<or> off + 4 < next_off \<Longrightarrow>
   next_blockette h s mem off next_off"

inductive_cases next_blocketteE: "next_blockette h s mem off next_off"

lemma stuck: "(\<And>y. \<not> R x y) \<Longrightarrow> R\<^sup>*\<^sup>* x z \<longleftrightarrow> z = x"
  by (auto elim: converse_rtranclpE)

lemma blockette_loop_overread:
  "blockette_loop h s mem off = Inl OutOfBounds \<longleftrightarrow>
   (\<exists>o'. (next_blockette h s mem)\<^sup>*\<^sup>* off o' \<and> 47 < o' \<and> o' \<le> length mem \<and> length mem < o' + 4)"
  (is "_ \<longleftrightarrow> ?over off")
proof (induction h s mem off rule: blockette_loop.induct)
  case (1 h s mem off)
  define ty where "ty = HO2u (u16_at h mem off) s"
  define nb where "nb = unat (HO2u (u16_at h mem (off + 2)) s)"
  consider (out) "\<not> (47 < off \<and> off \<le> length mem)" | (over) "47 < off" "off \<le> length mem" "length mem < off + 4"
    | (b1000) "47 < off" "off + 4 \<le> length mem" "ty = 1000 \<and> off + 8 \<le> length mem"
    | (bad) "47 < off" "off + 4 \<le> length mem" "\<not> (ty = 1000 \<and> off + 8 \<le> length mem)" "nb \<noteq> 0 \<and> (nb < 4 \<or> nb - 4 \<le> off)"
    | (go) "47 < off" "off + 4 \<le> length mem" "\<not> (ty = 1000 \<and> off + 8 \<le> length mem)" "\<not> (nb \<noteq> 0 \<and> (nb < 4 \<or> nb - 4 \<le> off))"
    by linarith
  then show ?case
  proof cases
    case out
    then have "(next_blockette h s mem)\<^sup>*\<^sup>* off o' \<longleftrightarrow> o' = off" for o'
      by (intro stuck) (auto elim: next_blocketteE)
    then show ?thesis using out by (subst blockette_loop.simps) auto
  next
    case over
    then show ?thesis by (subst blockette_loop.simps) auto
  next
    case b1000
    then have "(next_blockette h s mem)\<^sup>*\<^sup>* off o' \<longleftrightarrow> o' = off" for o'
      by (intro stuck) (auto simp: ty_def elim: next_blocketteE)
    then show ?thesis using b1000 by (subst blockette_loop.simps) (auto simp: Let_def ty_def)
  next
    case bad
    then have "(next_blockette h s mem)\<^sup>*\<^sup>* off o' \<longleftrightarrow> o' = off" for o'
      by (intro stuck) (auto simp: nb_def elim!: next_blocketteE)
    then show ?thesis using bad by (subst blockette_loop.simps) (auto simp: Let_def ty_def nb_def)
  next
    case go
    have step: "next_blockette h s mem off o' \<longleftrightarrow> o' = nb" for o'
      using go by (auto simp: next_blockette.simps ty_def nb_def)
    have "blockette_loop h s mem off = blockette_loop h s mem nb"
      using go by (subst blockette_loop.simps) (auto simp: Let_def ty_def nb_def)
    moreover have "(\<exists>o'. (next_blockette h s mem)\<^sup>*\<^sup>* off o' \<and> 47 < o' \<and> o' \<le> length mem \<and> length mem < o' + 4) \<longleftrightarrow>
        (\<exists>o'. (next_blockette h s mem)\<^sup>*\<^sup>* nb o' \<and> 47 < o' \<and> o' \<le> length mem \<and> length mem < o' + 4)"
      using go(2) step by (metis converse_rtranclpE converse_rtranclp_into_rtranclp not_le)
    moreover have "blockette_loop h s mem nb = Inl OutOfBounds \<longleftrightarrow>
        (\<exists>o'. (next_blockette h s mem)\<^sup>*\<^sup>* nb o' \<and> 47 < o' \<and> o' \<le> length mem \<and> length mem < o' + 4)"
      using 1 [of ty nb] go by (simp add: ty_def nb_def)
    ultimately show ?thesis by simp
  qed
qed

subsection \<open>Properties\<close>

text \<open>
  C38. The length detected for a version 3 record is the sum of its four lengths modulo
  2 to the 32: a payload length close to the 32-bit limit makes the record look short.
\<close>

theorem detect_length_wraps:
  assumes "MINRECLEN \<le> length mem" "MS3_ISVALIDHEADER mem"
  shows "ms3_detect h (Some mem) = Inr (int (v3_length mem mod 2 ^ 32), Some 3)"
  by (rule detect_v3 [OF assms])

text \<open>A header whose payload length is 2 to the 32 minus 1.\<close>

definition long_header :: "u8 list" where
  "long_header = [0x4D, 0x53, 3] @ replicate 9 0 @ [0, 0, 0] @ replicate 18 0 @ [0, 0, 0, 0xFF, 0xFF, 0xFF, 0xFF]"

theorem detect_length_wraps_witness:
  "ms3_detect BigEndian (Some long_header) = Inr (int (v3_length long_header mod 2 ^ 32), Some 3) \<and>
   v3_length long_header = 2 ^ 32 + 39"
proof -
  have "le_u32 long_header 36 = 0xFFFFFFFF" "le_u16 long_header 34 = 0" "long_header ! 33 = 0" "MS3_ISVALIDHEADER long_header"
    by code_simp+
  then have "v3_length long_header = 2 ^ 32 + 39" "MS3_ISVALIDHEADER long_header" by (simp_all add: v3_length_def)
  moreover have "MINRECLEN \<le> length long_header" by (simp add: long_header_def)
  ultimately show ?thesis using detect_length_wraps by blast
qed


text \<open>
  C39. For a version 2 header the detection reads outside the buffer exactly when the
  buffer ends before the fixed header of 48 bytes does, or the chain of blockettes comes
  to an offset inside the buffer with less than four bytes left.
\<close>

theorem detect_overread:
  assumes "MINRECLEN \<le> length mem" "\<not> MS3_ISVALIDHEADER mem" "MS2_ISVALIDHEADER mem"
    "s = (\<not> MS_ISVALIDYEARDAY (u16_at h mem 20) (u16_at h mem 22))"
  shows "ms3_detect h (Some mem) = Inl OutOfBounds \<longleftrightarrow>
         length mem < 48 \<or>
         (\<exists>off. (next_blockette h s mem)\<^sup>*\<^sup>* (unat (HO2u (u16_at h mem 46) s)) off \<and>
            47 < off \<and> off \<le> length mem \<and> length mem < off + 4)"
proof (cases "length mem < 48")
  case False
  let ?loop = "blockette_loop h s mem (unat (HO2u (u16_at h mem 46) s))"
  have "ms3_detect h (Some mem) = Inl OutOfBounds \<longleftrightarrow> ?loop = Inl OutOfBounds"
    using assms False by (auto simp: ms3_detect_def Let_def split: sum.splits fault.splits option.splits)
  then show ?thesis using False blockette_loop_overread by simp
qed (use assms in \<open>simp add: ms3_detect_def\<close>)

text \<open>A header of 60 bytes whose first blockette is at offset 58.\<close>

definition cut_header :: "u8 list" where
  "cut_header = replicate 6 0x30 @ [0x44, 0x20] @ replicate 12 0x20 @ [0x07, 0xE8, 0, 1] @ replicate 22 0 @ [0, 58] @
     replicate 12 0"

theorem detect_overread_witness:
  "ms3_detect BigEndian (Some cut_header) = Inl OutOfBounds \<longleftrightarrow>
   length cut_header < 48 \<or>
   (\<exists>off. (next_blockette BigEndian False cut_header)\<^sup>*\<^sup>* (unat (HO2u (u16_at BigEndian cut_header 46) False)) off \<and>
      47 < off \<and> off \<le> length cut_header \<and> length cut_header < off + 4)"
proof (rule detect_overread)
  show "MINRECLEN \<le> length cut_header" by (simp add: cut_header_def)
  show "\<not> MS3_ISVALIDHEADER cut_header" "MS2_ISVALIDHEADER cut_header"
    "False = (\<not> MS_ISVALIDYEARDAY (u16_at BigEndian cut_header 20) (u16_at BigEndian cut_header 22))" by code_simp+
qed

end
