(* ===== verification/Ieee.thy ===== *)
theory Ieee
  imports Complex_Main Prelude
begin

text \<open>
  The C type \<open>double\<close>: an IEEE 754 binary64 number as its bit pattern, with the operations
  the library uses in round-to-nearest mode. A finite number has a rational value; a
  result is the rational result rounded to the nearest pattern, ties to even. All
  definitions compute.
\<close>

type_synonym double = u64

definition f_negative :: "double \<Rightarrow> bool" where
  "f_negative w = bit w 63"

definition f_exponent :: "double \<Rightarrow> int" where
  "f_exponent w = uint w div 2 ^ 52 mod 2 ^ 11"

definition f_fraction :: "double \<Rightarrow> int" where
  "f_fraction w = uint w mod 2 ^ 52"

definition f_nan :: "double \<Rightarrow> bool" where
  "f_nan w \<longleftrightarrow> f_exponent w = 2047 \<and> f_fraction w \<noteq> 0"

definition f_inf :: "double \<Rightarrow> bool" where
  "f_inf w \<longleftrightarrow> f_exponent w = 2047 \<and> f_fraction w = 0"

definition f_zero :: "double \<Rightarrow> bool" where
  "f_zero w \<longleftrightarrow> f_exponent w = 0 \<and> f_fraction w = 0"

definition two_pow :: "int \<Rightarrow> rat" where
  "two_pow e = (if 0 \<le> e then 2 ^ nat e else 1 / 2 ^ nat (- e))"

text \<open>The magnitude of a finite number, subnormal numbers included.\<close>

definition f_magnitude :: "double \<Rightarrow> rat" where
  "f_magnitude w =
     (if f_exponent w = 0 then of_int (f_fraction w) * two_pow (-1074)
      else of_int (f_fraction w + 2 ^ 52) * two_pow (f_exponent w - 1075))"

lemma f_magnitude_code [code]:
  "f_magnitude w =
     (if f_zero w then 0 else if f_exponent w = 0 then of_int (f_fraction w) * two_pow (-1074)
      else of_int (f_fraction w + 2 ^ 52) * two_pow (f_exponent w - 1075))"
  by (simp add: f_magnitude_def f_zero_def)

definition f_value :: "double \<Rightarrow> rat" where
  "f_value w = (if f_negative w then - f_magnitude w else f_magnitude w)"

subsection \<open>Rounding\<close>

fun bit_length :: "nat \<Rightarrow> int \<Rightarrow> int" where
  "bit_length 0 n = 0"
| "bit_length (Suc fuel) n = (if n \<le> 0 then 0 else 1 + bit_length fuel (n div 2))"

text \<open>The exponent \<open>k\<close> with \<open>2 ^ k \<le> x < 2 ^ (k + 1)\<close> of a positive \<open>x\<close>.\<close>

definition ilog2 :: "rat \<Rightarrow> int" where
  "ilog2 x =
     (let (n, d) = quotient_of x;
          k = bit_length 2200 n - bit_length 2200 d
      in if two_pow k \<le> x then k else k - 1)"

definition round_even :: "rat \<Rightarrow> int" where
  "round_even x =
     (let q = \<lfloor>x\<rfloor>; r = x - of_int q
      in if r < 1 / 2 then q else if r > 1 / 2 then q + 1 else if even q then q else q + 1)"

definition f_sign_bit :: "bool \<Rightarrow> double" where
  "f_sign_bit s = (if s then 0x8000000000000000 else 0)"

definition f_infinity :: "bool \<Rightarrow> double" where
  "f_infinity s = f_sign_bit s OR 0x7FF0000000000000"

definition f_nan_value :: double where
  "f_nan_value = 0x7FF8000000000000"

text \<open>The pattern nearest to a magnitude; the carry of a rounded mantissa raises the exponent.\<close>

definition f_round :: "bool \<Rightarrow> rat \<Rightarrow> double" where
  "f_round s x =
     (if x = 0 then f_sign_bit s
      else
        let e = max (-1074) (ilog2 x - 52);
            pattern = (e + 1074) * 2 ^ 52 + round_even (x / two_pow e)
        in if 2047 * 2 ^ 52 \<le> pattern then f_infinity s else f_sign_bit s OR word_of_int pattern)"

subsection \<open>Operations\<close>

definition f_of_int :: "int \<Rightarrow> double" where
  "f_of_int i = f_round (i < 0) (of_int \<bar>i\<bar>)"

definition f_neg :: "double \<Rightarrow> double" where
  "f_neg w = w XOR 0x8000000000000000"

definition f_mul :: "double \<Rightarrow> double \<Rightarrow> double" where
  "f_mul a b =
     (let s = (f_negative a \<noteq> f_negative b)
      in if f_nan a \<or> f_nan b \<or> (f_inf a \<and> f_zero b) \<or> (f_zero a \<and> f_inf b) then f_nan_value
         else if f_inf a \<or> f_inf b then f_infinity s
         else f_round s (f_magnitude a * f_magnitude b))"

definition f_div :: "double \<Rightarrow> double \<Rightarrow> double" where
  "f_div a b =
     (let s = (f_negative a \<noteq> f_negative b)
      in if f_nan a \<or> f_nan b \<or> (f_inf a \<and> f_inf b) \<or> (f_zero a \<and> f_zero b) then f_nan_value
         else if f_inf a \<or> f_zero b then f_infinity s
         else if f_inf b then f_sign_bit s
         else f_round s (f_magnitude a / f_magnitude b))"

definition f_add :: "double \<Rightarrow> double \<Rightarrow> double" where
  "f_add a b =
     (if f_nan a \<or> f_nan b \<or> (f_inf a \<and> f_inf b \<and> f_negative a \<noteq> f_negative b) then f_nan_value
      else if f_inf a then a else if f_inf b then b
      else
        let x = f_value a + f_value b
        in if x = 0 then f_sign_bit (f_negative a \<and> f_negative b) else f_round (x < 0) \<bar>x\<bar>)"

text \<open>Comparisons with a finite number; all are false for a NaN.\<close>

definition f_less :: "double \<Rightarrow> double \<Rightarrow> bool" where
  "f_less a b \<longleftrightarrow>
     \<not> f_nan a \<and> \<not> f_nan b \<and>
     (if f_inf a \<or> f_inf b then a \<noteq> b \<and> ((f_inf a \<and> f_negative a) \<or> (f_inf b \<and> \<not> f_negative b))
      else f_value a < f_value b)"

text \<open>The cast to \<open>int64_t\<close> truncates; outside the range it is undefined.\<close>

definition f_to_int64 :: "double \<Rightarrow> int result" where
  "f_to_int64 w =
     (if f_nan w \<or> f_inf w then Inl Overflow
      else
        let i = (if f_negative w then - \<lfloor>f_magnitude w\<rfloor> else \<lfloor>f_magnitude w\<rfloor>)
        in if - (2 ^ 63) \<le> i \<and> i < 2 ^ 63 then Inr i else Inl Overflow)"

abbreviation (input) f_one :: double where "f_one \<equiv> 0x3FF0000000000000"
abbreviation (input) f_half :: double where "f_half \<equiv> 0x3FE0000000000000"

lemma ieee_samples:
  "f_of_int 1 = f_one" "f_of_int 1000000000 = 0x41CDCD6500000000" "f_of_int (-3) = 0xC008000000000000"
  "f_div f_one (f_of_int 3) = 0x3FD5555555555555" "f_mul (f_of_int 3) f_half = 0x3FF8000000000000"
  "f_add (f_of_int 3) (f_neg f_half) = 0x4004000000000000" "f_div (f_of_int (-1)) (f_div f_one (f_of_int 100)) = 0xC059000000000000"
  "f_of_int (2 ^ 53 + 1) = 0x4340000000000000" "f_to_int64 (f_div (f_of_int (-7)) (f_of_int 2)) = Inr (-3)"
  by code_simp+

end
