(* ===== verification/MsRecord.thy ===== *)
theory MsRecord
  imports Detect Crc32c NsTime Lookup Ieee
begin

text \<open>
  The record structure of libmseed.h and the writers of pack.c that need no encoding: the
  version 3 header and the repacking of a parsed record, with the payload bounds of
  unpack.c they use. A string member is the list of its bytes before the NUL. A routine
  that fills a buffer gives what it returns and the buffer after the call.
\<close>

subsection \<open>The record\<close>

datatype samples =
  TextSamples "u8 list" | IntSamples "i32 list" | FloatSamples "u32 list" | GainSamples "real list" | DoubleSamples "u64 list"

record MS3Record =
  msr_record :: "u8 list option"
  msr_reclen :: int
  msr_swapflag :: u8
  msr_sid :: "u8 list"
  msr_formatversion :: u8
  msr_flags :: u8
  msr_starttime :: int
  msr_samprate :: double
  msr_encoding :: int
  msr_pubversion :: u8
  msr_samplecnt :: int
  msr_crc :: u32
  msr_extralength :: u16
  msr_datalength :: u32
  msr_extra :: "u8 list option"
  msr_datasamples :: "samples option"
  msr_datasize :: nat
  msr_numsamples :: int
  msr_sampletype :: char

definition MS3Record_INITIALIZER :: MS3Record where
  "MS3Record_INITIALIZER =
     \<lparr>msr_record = None, msr_reclen = -1, msr_swapflag = 0, msr_sid = [], msr_formatversion = 0, msr_flags = 0,
      msr_starttime = NSTUNSET, msr_samprate = 0, msr_encoding = -1, msr_pubversion = 0, msr_samplecnt = -1,
      msr_crc = 0, msr_extralength = 0, msr_datalength = 0, msr_extra = None, msr_datasamples = None,
      msr_datasize = 0, msr_numsamples = 0, msr_sampletype = CHR 0x00\<rparr>"

text \<open>A record that is given keeps its sample buffer; \<open>None\<close> is returned without memory.\<close>

definition msr3_init :: "bool \<Rightarrow> MS3Record option \<Rightarrow> MS3Record option" where
  "msr3_init alloc_ok msr =
     (case msr of
        None \<Rightarrow> if alloc_ok then Some MS3Record_INITIALIZER else None
      | Some m \<Rightarrow> Some (MS3Record_INITIALIZER\<lparr>msr_datasamples := msr_datasamples m, msr_datasize := msr_datasize m\<rparr>))"

abbreviation (input) "MSSWAP_HEADER \<equiv> 1 :: u8"
abbreviation (input) "MSSWAP_PAYLOAD \<equiv> 2 :: u8"

subsection \<open>The version 3 header\<close>

text \<open>A positive rate below one is stored as a negated period.\<close>

definition header_rate :: "double \<Rightarrow> double" where
  "header_rate samprate =
     (if \<not> f_zero samprate \<and> f_less 0 samprate \<and> f_less samprate f_one
      then f_div (f_neg f_one) samprate else samprate)"

definition msr3_pack_header3 ::
  "byteorder \<Rightarrow> MS3Record option \<Rightarrow> u8 list option \<Rightarrow> nat \<Rightarrow> (int \<times> u8 list) result" where
  "msr3_pack_header3 h msr record recbuflen =
     (case (msr, record) of
        (Some m, Some mem) \<Rightarrow>
          let maxreclen = (if msr_reclen m < 0 then 4096 else msr_reclen m);
              encoding = (if msr_encoding m < 0 then 11 else word_of_int (msr_encoding m)) :: u8;
              sidlength = length (msr_sid m);
              extralength = unat (msr_extralength m);
              swapflag = ms_bigendianhost h
          in if maxreclen < int MINRECLEN \<or> maxreclen > int MAXRECLEN then Inl (ReturnError (-1))
             else if recbuflen < MS3FSDH_LENGTH + sidlength + extralength then Inl (ReturnError (-1))
             else (case ms_nstime2time (msr_starttime m) of
               Inl (ReturnError e) \<Rightarrow> Inl (ReturnError (-1))
             | Inl e \<Rightarrow> Inl e
             | Inr t \<Rightarrow>
                 if sidlength > 255 then Inl (ReturnError (-1))
                 else (case store_all
                     [(0, [0x4D]), (1, [0x53]), (2, [3]), (3, [msr_flags m]),
                      (4, host_bytes h 4 (HO4u (word_of_int (dt_nsec t)) swapflag)),
                      (8, host_bytes h 2 (HO2u (word_of_int (dt_year t)) swapflag)),
                      (10, host_bytes h 2 (HO2u (word_of_int (dt_yday t)) swapflag)),
                      (12, [word_of_int (dt_hour t)]), (13, [word_of_int (dt_min t)]), (14, [word_of_int (dt_sec t)]),
                      (15, [encoding]), (16, host_bytes h 8 (HO8f (header_rate (msr_samprate m)) swapflag)),
                      (32, [msr_pubversion m]), (33, [of_nat sidlength]),
                      (34, host_bytes h 2 (HO2u (msr_extralength m) swapflag)),
                      (40, msr_sid m)] mem of
                   Inl e \<Rightarrow> Inl e
                 | Inr mem \<Rightarrow>
                     if extralength > 0 then
                       (case msr_extra m of
                          None \<Rightarrow> Inl NullDeref
                        | Some extra \<Rightarrow>
                            if length extra < extralength then Inl OutOfBounds
                            else (case store_all [(MS3FSDH_LENGTH + sidlength, take extralength extra)] mem of
                                    Inl e \<Rightarrow> Inl e
                                  | Inr mem \<Rightarrow> Inr (int (MS3FSDH_LENGTH + sidlength + extralength), mem)))
                     else Inr (int (MS3FSDH_LENGTH + sidlength + extralength), mem)))
      | _ \<Rightarrow> Inl (ReturnError (-1)))"

subsection \<open>The bounds of the payload\<close>

definition fixed_sample_bytes :: "int \<Rightarrow> nat option" where
  "fixed_sample_bytes encoding =
     (if encoding = 0 then Some 1 else if encoding = 1 then Some 2
      else if encoding = 3 \<or> encoding = 4 then Some 4
      else if encoding = 5 then Some 8 else None)"

text \<open>
  The loop over trailing frames compares the 64 bytes that end \<open>datasize\<close> bytes into the
  record, whatever the offset of the payload.
\<close>

function trim_frames :: "u8 list \<Rightarrow> nat \<Rightarrow> nat result" where
  "trim_frames record datasize =
     (if 64 \<le> datasize then
        if length record < datasize then Inl OutOfBounds
        else if peek (datasize - 64) 64 record = replicate 64 0 then trim_frames record (datasize - 64)
        else Inr datasize
      else Inr datasize)"
  by pat_completeness auto
termination by (relation "measure snd") auto

declare trim_frames.simps [simp del]

definition msr3_data_bounds :: "byteorder \<Rightarrow> MS3Record option \<Rightarrow> (nat \<times> nat) result" where
  "msr3_data_bounds h msr =
     (case msr of
        None \<Rightarrow> Inl (ReturnError MS_GENERROR)
      | Some m \<Rightarrow>
          (case msr_record m of
             None \<Rightarrow> Inl (ReturnError MS_GENERROR)
           | Some record \<Rightarrow>
               (case
                  (if msr_formatversion m = 3 then
                     Inr (MS3FSDH_LENGTH + length (msr_sid m) + unat (msr_extralength m), unat (msr_datalength m))
                   else if msr_formatversion m = 2 then
                     if length record < 46 then Inl OutOfBounds
                     else let dataoffset = unat (HO2u (u16_at h record 44) (msr_swapflag m AND MSSWAP_HEADER \<noteq> 0))
                          in Inr (dataoffset, nat ((msr_reclen m - int dataoffset) mod 2 ^ 32))
                   else Inl (ReturnError MS_GENERROR)) of
                  Inl e \<Rightarrow> Inl e
                | Inr (dataoffset, datasize) \<Rightarrow>
                    let datasize =
                      (case fixed_sample_bytes (msr_encoding m) of
                         Some samplebytes \<Rightarrow>
                           let rawsize = nat (msr_samplecnt m * int samplebytes mod 2 ^ 64)
                           in if rawsize < datasize then rawsize mod 2 ^ 16 else datasize
                       | None \<Rightarrow> datasize)
                    in if datasize mod 64 = 0 \<and> (msr_encoding m = 10 \<or> msr_encoding m = 11) then
                         (case trim_frames record datasize of Inl e \<Rightarrow> Inl e | Inr datasize \<Rightarrow> Inr (dataoffset, datasize))
                       else Inr (dataoffset, datasize))))"

subsection \<open>Repacking\<close>

text \<open>
  The check before the copy leaves out the length of the source identifier, so the copy
  can end behind the destination. The address of the destination is a parameter
  of the checksum.
\<close>

definition msr3_repack_mseed3 ::
  "byteorder \<Rightarrow> nat \<Rightarrow> MS3Record option \<Rightarrow> u8 list option \<Rightarrow> nat \<Rightarrow> (int \<times> u8 list) result" where
  "msr3_repack_mseed3 h addr msr record recbuflen =
     (case (msr, record) of
        (Some m, Some mem) \<Rightarrow>
          (case msr_record m of
             None \<Rightarrow> Inl (ReturnError (-1))
           | Some orig \<Rightarrow>
               if recbuflen < MS3FSDH_LENGTH + length (msr_sid m) + unat (msr_extralength m) then Inl (ReturnError (-1))
               else if msr_samplecnt m > 2 ^ 32 - 1 then Inl (ReturnError (-1))
               else (case msr3_pack_header3 h msr record recbuflen of
                 Inl (ReturnError e) \<Rightarrow> Inl (ReturnError (-1))
               | Inl e \<Rightarrow> Inl e
               | Inr (dataoffset, mem) \<Rightarrow>
               (case msr3_data_bounds h msr of
                 Inl (ReturnError e) \<Rightarrow> Inl (ReturnError (-1))
               | Inl e \<Rightarrow> Inl e
               | Inr (origdataoffset, origdatasize) \<Rightarrow>
                   if int recbuflen < int (MS3FSDH_LENGTH + unat (msr_extralength m) + origdatasize) mod 2 ^ 32
                   then Inl (ReturnError (-1))
                   else if length orig < origdataoffset + origdatasize then Inl OutOfBounds
                   else
                     let reclen = nat ((dataoffset + int origdatasize) mod 2 ^ 32);
                         swapflag = ms_bigendianhost h
                     in (case store_all
                           [(nat dataoffset, peek origdataoffset origdatasize orig),
                            (24, host_bytes h 4 (HO4u (word_of_int (msr_samplecnt m)) swapflag)),
                            (36, host_bytes h 4 (HO4u (of_nat origdatasize) swapflag)),
                            (28, replicate 4 0)] mem of
                          Inl e \<Rightarrow> Inl e
                        | Inr mem \<Rightarrow>
                            (case ms_crc32c h (Some mem) (addr mod 4) (sint (word_of_nat reclen :: i32)) 0 of
                               Inl e \<Rightarrow> Inl e
                             | Inr crc \<Rightarrow>
                                 (case store_all [(28, host_bytes h 4 (HO4u crc swapflag))] mem of
                                    Inl e \<Rightarrow> Inl e
                                  | Inr mem \<Rightarrow> Inr (sint (word_of_nat reclen :: i32), mem)))))))
      | _ \<Rightarrow> Inl (ReturnError (-1)))"

end
