(* ===== verification/SampleTime.thy ===== *)
theory SampleTime
  imports MsRecord
begin

text \<open>
  Sample times: \<open>ms_sampletime\<close> of genutils.c with the library's list of leap seconds, and
  the end time, the rate in Hertz and the sample period of a record from msrutils.c. The
  list of leap seconds is a global of the library and a parameter here; an entry is the
  epoch time of the leap second and the difference to TAI.
\<close>

subsection \<open>Leap seconds\<close>

type_synonym leapseconds = "(int \<times> int) list"

definition NTPEPOCH2NSTIME :: "int \<Rightarrow> int" where
  "NTPEPOCH2NSTIME x = (x - 2208988800) * NSTMODULUS"

definition embedded_leapsecondlist :: leapseconds where
  "embedded_leapsecondlist =
     map (\<lambda>(leapsecond, delta). (NTPEPOCH2NSTIME leapsecond, delta))
     [
      (2272060800, 10), (2287785600, 11), (2303683200, 12), (2335219200, 13),
      (2366755200, 14), (2398291200, 15), (2429913600, 16), (2461449600, 17),
      (2492985600, 18), (2524521600, 19), (2571782400, 20), (2603318400, 21),
      (2634854400, 22), (2698012800, 23), (2776982400, 24), (2840140800, 25),
      (2871676800, 26), (2918937600, 27), (2950473600, 28), (2982009600, 29),
      (3029443200, 30), (3076704000, 31), (3124137600, 32), (3345062400, 33),
      (3439756800, 34), (3550089600, 35), (3644697600, 36), (3692217600, 37)]"

subsection \<open>The time of a sample\<close>

text \<open>64-bit signed arithmetic that must not overflow.\<close>

definition in_int64 :: "int \<Rightarrow> int result" where
  "in_int64 x = (if int64 x then Inr x else Inl Overflow)"

text \<open>The number of nanoseconds of \<open>offset\<close> samples, rounded by adding one half before the cast.\<close>

definition sample_span :: "int \<Rightarrow> double \<Rightarrow> int result" where
  "sample_span offset samprate =
     (if offset > 0 then
        if f_less 0 samprate then
          f_to_int64 (f_add (f_mul (f_div (f_of_int offset) samprate) (f_of_int NSTMODULUS)) f_half)
        else if f_less samprate 0 then
          f_to_int64 (f_add (f_mul (f_mul (f_of_int offset) (f_neg samprate)) (f_of_int NSTMODULUS)) f_half)
        else Inr 0
      else Inr 0)"

text \<open>The first leap second that lies within the span shortens it.\<close>

fun leap_loop :: "leapseconds \<Rightarrow> int \<Rightarrow> int \<Rightarrow> int result" where
  "leap_loop [] time nspan = Inr nspan"
| "leap_loop ((leapsecond, delta) # lslist) time nspan =
     (if leapsecond > time then
        if \<not> int64 (time + nspan) \<or> \<not> int64 (time + nspan - NSTMODULUS) then Inl Overflow
        else if leapsecond \<le> time + nspan - NSTMODULUS then in_int64 (nspan - NSTMODULUS)
        else leap_loop lslist time nspan
      else leap_loop lslist time nspan)"

definition ms_sampletime :: "leapseconds \<Rightarrow> int \<Rightarrow> int \<Rightarrow> double \<Rightarrow> int result" where
  "ms_sampletime lslist time offset samprate =
     (case sample_span offset samprate of
        Inl e \<Rightarrow> Inl e
      | Inr nspan \<Rightarrow>
          (case leap_loop lslist time nspan of
             Inl e \<Rightarrow> Inl e
           | Inr nspan \<Rightarrow> in_int64 (time + nspan)))"

subsection \<open>Record times and rates\<close>

definition msr3_endtime :: "leapseconds \<Rightarrow> MS3Record option \<Rightarrow> int result" where
  "msr3_endtime lslist msr =
     (case msr of
        None \<Rightarrow> Inr NSTERROR
      | Some m \<Rightarrow>
          ms_sampletime lslist (msr_starttime m) (if msr_samplecnt m > 0 then msr_samplecnt m - 1 else 0) (msr_samprate m))"

definition msr3_sampratehz :: "MS3Record option \<Rightarrow> double" where
  "msr3_sampratehz msr =
     (case msr of
        None \<Rightarrow> 0
      | Some m \<Rightarrow> if f_less (msr_samprate m) 0 then f_div (f_neg f_one) (msr_samprate m) else msr_samprate m)"

definition msr3_nsperiod :: "MS3Record option \<Rightarrow> int result" where
  "msr3_nsperiod msr =
     (case msr of
        None \<Rightarrow> Inr 0
      | Some m \<Rightarrow>
          if f_less 0 (msr_samprate m) then f_to_int64 (f_add (f_div (f_of_int NSTMODULUS) (msr_samprate m)) f_half)
          else if f_less (msr_samprate m) 0 then
            f_to_int64 (f_add (f_mul (f_of_int NSTMODULUS) (f_neg (msr_samprate m))) f_half)
          else Inr 0)"

text \<open>
  Resizing gives back what pre-allocation took too much. Without memory the record is left
  with a NULL buffer.
\<close>

definition msr3_resize_buffer :: "bool \<Rightarrow> MS3Record option \<Rightarrow> int \<times> MS3Record option" where
  "msr3_resize_buffer realloc_ok msr =
     (case msr of
        None \<Rightarrow> (MS_GENERROR, None)
      | Some m \<Rightarrow>
          let samplesize = ms_samplesize (msr_sampletype m);
              datasize = nat (msr_numsamples m) * samplesize mod 2 ^ 64
          in if samplesize \<noteq> 0 \<and> msr_datasamples m \<noteq> None \<and> msr_numsamples m > 0 \<and> msr_datasize m > datasize then
               if realloc_ok then (0, Some (m\<lparr>msr_datasize := datasize\<rparr>))
               else (MS_GENERROR, Some (m\<lparr>msr_datasamples := None\<rparr>))
             else (0, Some m))"

text \<open>A duplicate has its own extra headers and, when asked for, its own samples; \<open>None\<close> without memory.\<close>

definition msr3_duplicate :: "bool \<Rightarrow> MS3Record option \<Rightarrow> bool \<Rightarrow> MS3Record option" where
  "msr3_duplicate malloc_ok msr datadup =
     (case msr of
        None \<Rightarrow> None
      | Some m \<Rightarrow>
          if \<not> malloc_ok then None
          else
            let dup = m\<lparr>msr_extra := None, msr_extralength := 0, msr_datasamples := None, msr_datasize := 0, msr_numsamples := 0\<rparr>;
                dup = (if msr_extralength m > 0 \<and> msr_extra m \<noteq> None
                       then dup\<lparr>msr_extra := msr_extra m, msr_extralength := msr_extralength m\<rparr> else dup)
            in Some (if datadup \<and> msr_numsamples m > 0 \<and> msr_datasize m > 0 \<and> msr_datasamples m \<noteq> None
                 then dup\<lparr>msr_datasamples := msr_datasamples m, msr_datasize := msr_datasize m, msr_numsamples := msr_numsamples m\<rparr>
                 else dup))"

end
