(* ===== verification/UnpackData.thy ===== *)
theory UnpackData
  imports MsRecord SteimDecode LegacyDecode
begin

text \<open>
  The decoding of a payload: \<open>ms_decode_data\<close> and \<open>msr3_unpack_data\<close> of unpack.c with the
  block allocation of genutils.c. The input of \<open>ms_decode_data\<close> is the memory from the
  pointer to the end of its buffer, which may hold more than \<open>inputsize\<close> bytes.
\<close>

subsection \<open>Memory as an array of words\<close>

function host_words :: "byteorder \<Rightarrow> nat \<Rightarrow> u8 list \<Rightarrow> 'a::len word list" where
  "host_words h n mem =
     (if 0 < n \<and> n \<le> length mem then host_word h (take n mem) # host_words h n (drop n mem) else [])"
  by pat_completeness auto
termination by (relation "measure (\<lambda>(h, n, mem). length mem)") auto

declare host_words.simps [simp del]

lemma length_host_words: "0 < n \<Longrightarrow> length (host_words h n mem) = length mem div n"
proof (induction h n mem rule: host_words.induct)
  case (1 h n mem)
  then show ?case
  proof (cases "n \<le> length mem")
    case True
    then show ?thesis using 1 by (subst host_words.simps) (simp add: le_div_geq)
  qed (use 1 in \<open>subst host_words.simps, simp\<close>)
qed

subsection \<open>Decoding\<close>

text \<open>What a decoder that filled an output buffer of one kind gives the caller.\<close>

definition decoded :: "('a list \<Rightarrow> samples) \<Rightarrow> (nat \<times> 'a list option) result \<Rightarrow> (nat \<times> samples) result" where
  "decoded wrap r =
     (case r of
        Inl e \<Rightarrow> Inl e
      | Inr (n, Some out) \<Rightarrow> Inr (n, wrap (take n out))
      | Inr (n, None) \<Rightarrow> Inr (n, wrap []))"

definition steim_decoded :: "dec_result result \<Rightarrow> (nat \<times> samples) result" where
  "steim_decoded r =
     (case r of
        Inl (ReturnError e) \<Rightarrow> Inl (ReturnError MS_GENERROR)
      | Inl e \<Rightarrow> Inl e
      | Inr d \<Rightarrow> Inr (length (dr_output d), IntSamples (dr_output d)))"

text \<open>
  The switch over the encodings. Of the decoders only those of Steim data are given the
  size of the input.
\<close>

definition decode_switch ::
  "byteorder \<Rightarrow> u8 list \<Rightarrow> nat \<Rightarrow> u8 \<Rightarrow> nat \<Rightarrow> nat \<Rightarrow> nat \<Rightarrow> bool \<Rightarrow> (nat \<times> samples) result" where
  "decode_switch h input inputsize encoding samplecount outputsize decodedsize swapflag =
     (let out4 = Some (replicate (outputsize div 4) 0);
          out8 = Some (replicate (outputsize div 8) 0)
      in if encoding = DE_TEXT then
           (if length input < samplecount then Inl OutOfBounds
            else Inr (samplecount, TextSamples (take samplecount input)))
         else if encoding = DE_INT16 then
           decoded IntSamples (msr_decode_int16 (Some (host_words h 2 input)) samplecount out4 decodedsize swapflag)
         else if encoding = DE_INT32 then
           decoded IntSamples (msr_decode_int32 (Some (host_words h 4 input)) samplecount out4 decodedsize swapflag)
         else if encoding = DE_FLOAT32 then
           decoded FloatSamples (msr_decode_float32 (Some (host_words h 4 input)) samplecount out4 decodedsize swapflag)
         else if encoding = DE_FLOAT64 then
           decoded DoubleSamples (msr_decode_float64 (Some (host_words h 8 input)) samplecount out8 decodedsize swapflag)
         else if encoding = DE_STEIM1 then
           steim_decoded (msr_decode_steim1 h (Some (host_words h 4 input)) inputsize samplecount True decodedsize swapflag)
         else if encoding = DE_STEIM2 then
           steim_decoded (msr_decode_steim2 h (Some (host_words h 4 input)) inputsize samplecount True decodedsize swapflag)
         else if encoding = DE_GEOSCOPE24 \<or> encoding = DE_GEOSCOPE163 \<or> encoding = DE_GEOSCOPE164 then
           decoded GainSamples (msr_decode_geoscope h (Some input) samplecount (Some (replicate (outputsize div 4) 0))
             decodedsize encoding swapflag)
         else if encoding = DE_CDSN then
           decoded IntSamples (msr_decode_cdsn (Some (host_words h 2 input)) samplecount out4 decodedsize swapflag)
         else if encoding = DE_SRO then
           decoded IntSamples (msr_decode_sro (Some (host_words h 2 input)) samplecount out4 decodedsize swapflag)
         else if encoding = DE_DWWSSN then
           decoded IntSamples (msr_decode_dwwssn (Some (host_words h 2 input)) samplecount out4 decodedsize swapflag)
         else Inl (ReturnError MS_UNKNOWNFORMAT))"

text \<open>
  The number of samples, the samples, and the sample type where one was stored through
  the pointer before the return.
\<close>

definition ms_decode_data ::
  "byteorder \<Rightarrow> u8 list option \<Rightarrow> nat \<Rightarrow> u8 \<Rightarrow> nat \<Rightarrow> bool \<Rightarrow> nat \<Rightarrow> bool \<Rightarrow> bool \<Rightarrow>
   (nat \<times> samples option \<times> char option) result" where
  "ms_decode_data h input inputsize encoding samplecount output_given outputsize sampletype_given swapflag =
     (case input of
        None \<Rightarrow> Inl (ReturnError MS_GENERROR)
      | Some mem \<Rightarrow>
          if \<not> output_given \<or> \<not> sampletype_given then Inl (ReturnError MS_GENERROR)
          else if samplecount = 0 then Inr (0, None, None)
          else
            let (samplesize, sampletype) =
                  (case ms_encoding_sizetype encoding of Inr (z, t) \<Rightarrow> (z, Some t) | Inl _ \<Rightarrow> (0, None));
                decodedsize = samplecount * samplesize mod 2 ^ 64
            in if decodedsize > outputsize then Inl (ReturnError MS_GENERROR)
               else (case decode_switch h mem inputsize encoding samplecount outputsize decodedsize swapflag of
                 Inl e \<Rightarrow> Inl e
               | Inr (nsamples, samples) \<Rightarrow>
                   if nsamples \<noteq> samplecount then Inl (ReturnError MS_GENERROR)
                   else Inr (nsamples, Some samples, sampletype)))"

subsection \<open>Block allocation\<close>

function add_blocks :: "nat \<Rightarrow> nat \<Rightarrow> nat \<Rightarrow> nat" where
  "add_blocks block_size size_wanted newsize =
     (if 0 < block_size \<and> newsize < size_wanted then add_blocks block_size size_wanted (newsize + block_size)
      else newsize)"
  by pat_completeness auto
termination by (relation "measure (\<lambda>(b, s, n). s - n)") auto

declare add_blocks.simps [simp del]

text \<open>
  The size of the buffer the returned pointer has, \<open>None\<close> for a NULL pointer. Sizes are
  mathematical: a request that wraps \<open>size_t\<close> is outside the model.
\<close>

definition libmseed_memory_prealloc :: "nat \<Rightarrow> bool \<Rightarrow> bool \<Rightarrow> nat \<Rightarrow> nat option \<Rightarrow> nat option" where
  "libmseed_memory_prealloc block_size realloc_ok ptr_given size_wanted currentsize =
     (case currentsize of
        None \<Rightarrow> None
      | Some cur \<Rightarrow>
          if block_size = 0 then None
          else if size_wanted < cur then (if ptr_given then Some cur else None)
          else if realloc_ok then Some (add_blocks block_size size_wanted (cur + block_size)) else None)"

subsection \<open>Unpacking the samples of a record\<close>

text \<open>
  The address of the record decides whether the payload is copied to an aligned buffer
  of its size. \<open>block_size\<close> is the library's pre-allocation setting, and both allocations
  may fail.
\<close>

definition msr3_unpack_data ::
  "byteorder \<Rightarrow> nat \<Rightarrow> nat \<Rightarrow> bool \<Rightarrow> bool \<Rightarrow> MS3Record option \<Rightarrow> (nat \<times> MS3Record) result" where
  "msr3_unpack_data h addr block_size malloc_ok realloc_ok msr =
     (case msr of
        None \<Rightarrow> Inl (ReturnError MS_GENERROR)
      | Some m \<Rightarrow>
          if msr_samplecnt m \<le> 0 then Inr (0, m)
          else (case msr_record m of
            None \<Rightarrow> Inl (ReturnError MS_GENERROR)
          | Some record \<Rightarrow>
              if msr_reclen m < 0 then Inl (ReturnError MS_NOTSEED)
              else if msr_reclen m < int MINRECLEN \<or> msr_reclen m > int MAXRECLEN then Inl (ReturnError MS_OUTOFRANGE)
              else if msr_samplecnt m > 2 ^ 31 - 1 then Inl (ReturnError MS_GENERROR)
              else (case msr3_data_bounds h msr of
                Inl (ReturnError e) \<Rightarrow> Inl (ReturnError MS_GENERROR)
              | Inl e \<Rightarrow> Inl e
              | Inr (dataoffset, datasize) \<Rightarrow>
                  if dataoffset < MINRECLEN \<or> int dataoffset \<ge> msr_reclen m then Inl (ReturnError MS_GENERROR)
                  else
                    let m = (if msr_encoding m < 0 then m\<lparr>msr_encoding := 10\<rparr> else m);
                        encoding = word_of_int (msr_encoding m) :: u8
                    in (case ms_encoding_sizetype encoding of
                      Inl e \<Rightarrow> Inl (ReturnError MS_GENERROR)
                    | Inr (samplesize, _) \<Rightarrow>
                        let copied = (samplesize \<noteq> 0 \<and> (addr + dataoffset) mod samplesize \<noteq> 0)
                        in if copied \<and> \<not> malloc_ok then Inl (ReturnError MS_GENERROR)
                           else if copied \<and> length record < dataoffset + datasize then Inl OutOfBounds
                           else
                             let input = (if copied then peek dataoffset datasize record else drop dataoffset record);
                                 unpacksize = nat (msr_samplecnt m) * samplesize;
                                 buffer = (if block_size \<noteq> 0
                                   then libmseed_memory_prealloc block_size realloc_ok (msr_datasamples m \<noteq> None) unpacksize
                                          (Some (msr_datasize m))
                                   else if realloc_ok then Some unpacksize else None)
                             in (case buffer of
                               None \<Rightarrow> Inl (ReturnError MS_GENERROR)
                             | Some outsize \<Rightarrow>
                                 (case ms_decode_data h (Some input) datasize encoding (nat (msr_samplecnt m)) True outsize True
                                         (msr_swapflag m AND MSSWAP_PAYLOAD \<noteq> 0) of
                                    Inl e \<Rightarrow> Inl e
                                  | Inr (nsamples, samples, sampletype) \<Rightarrow>
                                      Inr (nsamples, m\<lparr>msr_datasamples := samples, msr_datasize := outsize,
                                        msr_numsamples := (if 0 < nsamples then int nsamples else msr_numsamples m),
                                        msr_sampletype := (case sampletype of None \<Rightarrow> msr_sampletype m | Some t \<Rightarrow> t)\<rparr>)))))))"


subsection \<open>Little-endian words in a payload\<close>

lemma host_words_le:
  assumes "LENGTH('a) = 8 * n" "0 < n" "length rest < n"
  shows "host_words h n (concat (map (le_bytes n) xs) @ rest) = map (\<lambda>w. host_word h (le_bytes n w)) (xs :: 'a::len word list)"
proof (induction xs)
  case Nil
  then show ?case using assms(3) by (subst host_words.simps) simp
next
  case (Cons x xs)
  then show ?case using assms(2) by (subst host_words.simps) simp
qed

text \<open>A decoder that runs into the end of its input.\<close>

lemma decode_loop_overread:
  assumes "i + m = length inp" "m < min (samplecount - i) (olen div z)" "0 < z" "samplecount < 2 ^ 32"
    and "\<And>k. k < length inp \<Longrightarrow> conv (inp ! k) = Inr (f k)" "samplecount \<le> length out"
  shows "decode_loop (\<lambda>k. if k < length inp then conv (inp ! k) else Inl OutOfBounds) z samplecount (of_nat i) out olen = Inl OutOfBounds"
  using assms
proof (induction m arbitrary: i out olen)
  case 0
  have i: "i < samplecount" using 0(2) by linarith
  then have "i < 2 ^ 32" using 0(4) by (rule less_trans)
  then have u: "unat (of_nat i :: u32) = i" by (simp add: unat_of_nat take_bit_nat_eq_self)
  have "z \<le> olen" using 0(2,3) by (metis div_less less_nat_zero_code min_less_iff_conj not_le)
  then show ?case using 0 u i by (subst decode_loop.simps) simp
next
  case (Suc m)
  have i: "i < samplecount" using Suc.prems(2) by linarith
  then have "i < 2 ^ 32" using Suc.prems(4) by (rule less_trans)
  then have u: "unat (of_nat i :: u32) = i" by (simp add: unat_of_nat take_bit_nat_eq_self)
  have z: "z \<le> olen" using Suc.prems(2,3) by (metis div_less less_nat_zero_code min_less_iff_conj not_le)
  then have d: "olen div z = Suc ((olen - z) div z)" using Suc.prems(3) by (simp add: le_div_geq)
  have "decode_loop (\<lambda>k. if k < length inp then conv (inp ! k) else Inl OutOfBounds) z samplecount (of_nat i) out olen =
        decode_loop (\<lambda>k. if k < length inp then conv (inp ! k) else Inl OutOfBounds) z samplecount (of_nat (Suc i)) (out[i := f i]) (olen - z)"
    using Suc.prems z u i by (subst decode_loop.simps) (simp add: add.commute)
  also have "\<dots> = Inl OutOfBounds"
  proof (rule Suc.IH)
    show "m < min (samplecount - Suc i) ((olen - z) div z)" using Suc.prems(2) d by linarith
  qed (use Suc.prems in simp_all)
  finally show ?case .
qed

lemma decode_plain_overread:
  assumes "length inp < samplecount" "samplecount < 2 ^ 32" "0 < z" "outlen = samplecount * z" "minlen \<le> z"
    and "\<And>x. conv x = Inr (f x)" "samplecount \<le> length out"
  shows "decode_plain conv z minlen (Some inp) samplecount (Some out) outlen = Inl OutOfBounds"
proof -
  have "decode_loop (\<lambda>k. if k < length inp then conv (inp ! k) else Inl OutOfBounds) z samplecount (of_nat 0) out outlen = Inl OutOfBounds"
    using assms by (intro decode_loop_overread [where m = "length inp" and f = "\<lambda>k. f (inp ! k)"]) simp_all
  moreover have "minlen \<le> outlen" "0 < samplecount" using assms by (cases samplecount; simp)+
  ultimately show ?thesis by (simp add: decode_plain_def)
qed

lemma decode_switch_int32:
  assumes "0 < k" "k < 2 ^ 31"
  shows "decode_switch h (concat (map (le_bytes 4) xs)) insize 3 k (4 * k) (4 * k) (ms_bigendianhost h) =
           (if k \<le> length xs then Inr (k, IntSamples (take k xs)) else Inl OutOfBounds)"
proof -
  let ?inp = "map (\<lambda>w. host_word h (le_bytes 4 w)) xs :: u32 list"
  have words: "host_words h 4 (concat (map (le_bytes 4) xs)) = ?inp"
    using host_words_le [of 4 "[]" h xs] by simp
  have run: "decode_switch h (concat (map (le_bytes 4) xs)) insize 3 k (4 * k) (4 * k) (ms_bigendianhost h) =
      decoded IntSamples (decode_plain (\<lambda>w. Inr (swap4_if (ms_bigendianhost h) w)) 4 4 (Some ?inp) k (Some (replicate k 0)) (4 * k))"
    by (simp add: decode_switch_def Let_def words msr_decode_int32_def)
  show ?thesis
  proof (cases "k \<le> length xs")
    case True
    have "decode_plain (\<lambda>w. Inr (swap4_if (ms_bigendianhost h) w)) 4 4 (Some ?inp) k (Some (replicate k 0)) (4 * k) =
        Inr (k, Some (map (swap4_if (ms_bigendianhost h)) (take k ?inp) @ drop k (replicate k 0)))"
      using True assms by (intro decode_plain_result) simp_all
    then show ?thesis using True unfolding run by (simp add: decoded_def take_map host_word_little o_def)
  next
    case False
    have "decode_plain (\<lambda>w. Inr (swap4_if (ms_bigendianhost h) w)) 4 4 (Some ?inp) k (Some (replicate k 0)) (4 * k) = Inl OutOfBounds"
      using False assms by (intro decode_plain_overread [where f = "swap4_if (ms_bigendianhost h)"]) simp_all
    then show ?thesis using False unfolding run by (simp add: decoded_def)
  qed
qed

lemma concat_le_bytes_take: "take (4 * k) (concat (map (le_bytes 4) xs)) = concat (map (le_bytes 4) (take k xs))"
proof (induction k arbitrary: xs)
  case (Suc k)
  then show ?case by (cases xs) simp_all
qed simp

lemma length_concat_le_bytes [simp]: "length (concat (map (le_bytes n) xs)) = n * length xs"
  by (induction xs) simp_all


lemma data_bounds_int32:
  assumes "msr_record m = Some record" "msr_formatversion m = 3" "msr_encoding m = 3"
    "msr_datalength m = of_nat (4 * n)" "4 * n < 2 ^ 32" "msr_samplecnt m = int k" "k < 2 ^ 31" "k < n \<longrightarrow> 4 * k < 2 ^ 16"
  shows "msr3_data_bounds h (Some m) = Inr (MS3FSDH_LENGTH + length (msr_sid m) + unat (msr_extralength m), 4 * min k n)"
proof -
  have "unat (of_nat (4 * n) :: u32) = 4 * n"
    using assms(5) by (simp add: unat_of_nat take_bit_nat_eq_self del: of_nat_mult)
  moreover have "nat (int k * 4 mod 2 ^ 64) = 4 * k" using assms(7) by simp
  ultimately show ?thesis using assms by (simp add: msr3_data_bounds_def fixed_sample_bytes_def min_def)
qed

lemma peek_min_words:
  assumes "length hdr = off"
  shows "peek off (4 * min k (length xs)) (hdr @ concat (map (le_bytes 4) xs)) = concat (map (le_bytes 4) (take k xs))"
  using assms concat_le_bytes_take [of "min k (length xs)" xs] by (simp add: peek_def min_def)

lemma decode_data_int32:
  assumes "0 < k" "k < 2 ^ 31"
  shows "ms_decode_data h (Some (concat (map (le_bytes 4) xs))) insize 3 k True (4 * k) True (ms_bigendianhost h) =
           (if k \<le> length xs then Inr (k, Some (IntSamples (take k xs)), Some CHR ''i'') else Inl OutOfBounds)"
proof -
  have "k * 4 mod 2 ^ 64 = 4 * k" using assms(2) by simp
  then show ?thesis using assms decode_switch_int32 [OF assms, of h xs insize]
    by (simp add: ms_decode_data_def Let_def ms_encoding_sizetype_def mult.commute [of k])
qed

text \<open>
  C16. Unpacking a version 3 record of 32-bit integers: the payload's little-endian words
  are the samples on a host of either byte order and at any address of the record, copied
  to an aligned buffer or not. When the header promises more samples than the payload
  holds, nothing compares the two and the decoder reads behind the record. When it promises
  fewer, their bytes are less than 65536, as the size of the payload is cut to 16 bits then.
\<close>

theorem unpack_int32_payload:
  assumes "msr_record m = Some (hdr @ concat (map (le_bytes 4) xs))"
    and "length hdr = MS3FSDH_LENGTH + length (msr_sid m) + unat (msr_extralength m)"
    and "msr_reclen m = int (length hdr + 4 * length xs)" "msr_reclen m \<le> int MAXRECLEN" "xs \<noteq> []"
    and "msr_formatversion m = 3" "msr_encoding m = 3" "msr_datalength m = of_nat (4 * length xs)"
    and "msr_samplecnt m = int k" "0 < k" "k < 2 ^ 31" "k < length xs \<longrightarrow> 4 * k < 2 ^ 16"
    and "msr_swapflag m AND MSSWAP_PAYLOAD \<noteq> 0 \<longleftrightarrow> ms_bigendianhost h"
  shows "msr3_unpack_data h addr 0 True True (Some m) =
           (if k \<le> length xs
            then Inr (k, m\<lparr>msr_datasamples := Some (IntSamples (take k xs)), msr_datasize := 4 * k,
                            msr_numsamples := int k, msr_sampletype := CHR ''i''\<rparr>)
            else Inl OutOfBounds)"
proof -
  let ?whole = "hdr @ concat (map (le_bytes 4) xs)" and ?off = "MS3FSDH_LENGTH + length (msr_sid m) + unat (msr_extralength m)"
  have len: "4 * length xs < 2 ^ 32" using assms(3,4) by simp
  have bounds: "msr3_data_bounds h (Some m) = Inr (?off, 4 * min k (length xs))"
    using assms len by (intro data_bounds_int32) simp_all
  have lens: "MINRECLEN \<le> ?off" "int ?off < msr_reclen m" using assms(2,3,5) by simp_all
  have copied: "peek ?off (4 * min k (length xs)) ?whole = concat (map (le_bytes 4) (take k xs))"
    using assms(2) by (intro peek_min_words) simp
  have direct: "drop ?off ?whole = concat (map (le_bytes 4) xs)" using assms(2) by simp
  have inside: "\<not> length ?whole < ?off + 4 * min k (length xs)" using assms(2) by simp
  have decode: "ms_decode_data h (Some (concat (map (le_bytes 4) ys))) insize 3 k True (4 * k) True (ms_bigendianhost h) =
      (if k \<le> length xs then Inr (k, Some (IntSamples (take k xs)), Some CHR ''i'') else Inl OutOfBounds)"
    if "ys = xs \<or> ys = take k xs" for ys insize
    using that by (auto simp: decode_data_int32 [OF assms(10,11)])
  show ?thesis
    using assms(1,3,4,7,9,10,11,13) lens copied direct inside decode
    by (auto simp: msr3_unpack_data_def bounds Let_def ms_encoding_sizetype_def mult.commute)
qed

theorem unpack_int32_payload_witness:
  "msr3_unpack_data BigEndian 1 0 True True
     (Some (MS3Record_INITIALIZER
        \<lparr>msr_record := Some (replicate 40 0 @ concat (map (le_bytes 4) [7, -1 :: i32])), msr_reclen := 48, msr_swapflag := 2,
         msr_formatversion := 3, msr_encoding := 3, msr_datalength := 8, msr_samplecnt := 3\<rparr>)) = Inl OutOfBounds"
  by (subst unpack_int32_payload [where hdr = "replicate 40 0" and xs = "[7, -1 :: i32]" and k = 3])
     (simp_all add: MS3Record_INITIALIZER_def ms_bigendianhost_def, code_simp+)

end
