(* ===== verification/TraceTypes.thy ===== *)
theory TraceTypes
  imports SampleTime UnpackData "HOL-Library.Monad_Syntax"
begin

text \<open>
  The structures of a trace list (libmseed.h) in an explicit store: a trace identifier or a
  segment is at an address, and a pointer member is an address or \<open>None\<close> for NULL. The head
  of the skip list is the member \<open>traces\<close> of the list itself, so a node of the skip list is
  the head or an identifier. Operations run in the option monad: \<open>None\<close> is an execution that
  reads through a NULL or stale pointer, overflows an integer or does not return.
\<close>

subsection \<open>Records of a segment\<close>

text \<open>The record list of a segment is its entries in order; its members first, last and recordcnt are implied.\<close>

record MS3RecordPtr =
  rp_msr :: MS3Record
  rp_endtime :: int

record MS3TraceSeg =
  ts_starttime :: int
  ts_endtime :: int
  ts_samprate :: double
  ts_samplecnt :: int
  ts_datasamples :: "samples option"
  ts_datasize :: nat
  ts_numsamples :: int
  ts_sampletype :: char
  ts_prvtptr :: "int option"
  ts_recordlist :: "MS3RecordPtr list option"
  ts_prev :: "nat option"
  ts_next :: "nat option"

abbreviation (input) "MSTRACEID_SKIPLIST_HEIGHT \<equiv> 8 :: nat"

text \<open>The array of next pointers is the function of its index, which is always below the height 8.\<close>

record MS3TraceID =
  id_sid :: "u8 list"
  id_pubversion :: u8
  id_earliest :: int
  id_latest :: int
  id_numsegments :: u32
  id_first :: "nat option"
  id_last :: "nat option"
  id_next :: "nat \<Rightarrow> nat option"
  id_height :: nat

text \<open>
  The list with the store it lives in: the next pointers of the head node, the identifiers
  and segments by address, and the next address an allocation gives.
\<close>

record MS3TraceList =
  tl_numtraceids :: u32
  tl_next :: "nat \<Rightarrow> nat option"
  tl_prngstate :: u64
  tl_ids :: "nat \<Rightarrow> MS3TraceID option"
  tl_segs :: "nat \<Rightarrow> MS3TraceSeg option"
  tl_fresh :: nat

datatype node = Head | Node nat

text \<open>A result without its fault: the executions the C standard leaves undefined have no value.\<close>

definition defined_value :: "'a result \<Rightarrow> 'a option" where
  "defined_value r = (case r of Inl e \<Rightarrow> None | Inr x \<Rightarrow> Some x)"

definition checked :: "int \<Rightarrow> int option" where
  "checked x = (if int64 x then Some x else None)"

text \<open>
  An allocation: \<open>malloc_ok\<close> says which of them succeed, by their number. A failed one
  gives no address.
\<close>

definition allocate :: "(nat \<Rightarrow> bool) \<Rightarrow> MS3TraceList \<Rightarrow> MS3TraceList \<times> nat option" where
  "allocate malloc_ok st =
     (st\<lparr>tl_fresh := Suc (tl_fresh st)\<rparr>, if malloc_ok (tl_fresh st) then Some (tl_fresh st) else None)"

definition mstl3_init :: MS3TraceList where
  "mstl3_init =
     \<lparr>tl_numtraceids = 0, tl_next = (\<lambda>_. None), tl_prngstate = 1, tl_ids = (\<lambda>_. None), tl_segs = (\<lambda>_. None), tl_fresh = 0\<rparr>"

subsection \<open>Ends of linked lists\<close>

text \<open>The pointer out of a list of nodes.\<close>

definition exit_of :: "nat list \<Rightarrow> nat option \<Rightarrow> nat option" where
  "exit_of bs e = (case bs of [] \<Rightarrow> e | b # _ \<Rightarrow> Some b)"

text \<open>The pointer to the last node of a list, or the one before it.\<close>

definition last_of :: "nat list \<Rightarrow> nat option \<Rightarrow> nat option" where
  "last_of as p = (if as = [] then p else Some (last as))"

lemma exit_of_simps [simp]: "exit_of [] e = e" "exit_of (b # bs) e = Some b"
  by (simp_all add: exit_of_def)

lemma last_of_simps [simp]: "last_of [] p = p" "last_of (as @ [a]) p = Some a" "last_of (a # as) p = last_of as (Some a)"
  by (auto simp: last_of_def)

end
