(* ===== verification/SkipList.thy ===== *)
theory SkipList
  imports TraceTypes "HOL-Library.List_Lexorder" "HOL-Library.Product_Lexorder"
begin

text \<open>
  The skip list of trace identifiers (tracelist.c): searching, adding and removing a node
  in the store, and the pseudo random heights. The lemmas relate the pointers to the list
  of nodes, sorted by identifier and version.
\<close>

subsection \<open>Heights\<close>

definition lm_lcg_r :: "u64 \<Rightarrow> u32 \<times> u64" where
  "lm_lcg_r state =
     (let state = 6364136223846793005 * state + 1 in (ucast (drop_bit 32 state), state))"

function height_loop :: "nat \<Rightarrow> nat \<Rightarrow> u64 \<Rightarrow> nat \<times> u64" where
  "height_loop maximum height state =
     (if height < maximum then
        let (r, state) = lm_lcg_r state
        in if r < 0x7FFFFFFF then height_loop maximum (Suc height) state else (height, state)
      else (height, state))"
  by pat_completeness auto
termination by (relation "measure (\<lambda>(m, h, s). m - h)") auto

declare height_loop.simps [simp del]

definition lm_random_height :: "nat \<Rightarrow> u64 \<Rightarrow> nat \<times> u64" where
  "lm_random_height maximum state = height_loop maximum 1 state"

subsection \<open>Access to nodes\<close>

definition next_at :: "MS3TraceList \<Rightarrow> node \<Rightarrow> nat \<Rightarrow> nat option option" where
  "next_at st x level =
     (case x of Head \<Rightarrow> Some (tl_next st level)
      | Node a \<Rightarrow> (case tl_ids st a of None \<Rightarrow> None | Some tid \<Rightarrow> Some (id_next tid level)))"

definition set_next :: "MS3TraceList \<Rightarrow> node \<Rightarrow> nat \<Rightarrow> nat option \<Rightarrow> MS3TraceList option" where
  "set_next st x level p =
     (case x of Head \<Rightarrow> Some (st\<lparr>tl_next := (tl_next st)(level := p)\<rparr>)
      | Node a \<Rightarrow>
          (case tl_ids st a of None \<Rightarrow> None
           | Some tid \<Rightarrow> Some (st\<lparr>tl_ids := (tl_ids st)(a \<mapsto> tid\<lparr>id_next := (id_next tid)(level := p)\<rparr>)\<rparr>)))"

subsection \<open>Searching\<close>

text \<open>The sign of \<open>strcmp\<close> on the bytes before the NUL, which compare as unsigned.\<close>

fun strcmp :: "u8 list \<Rightarrow> u8 list \<Rightarrow> int" where
  "strcmp [] [] = 0"
| "strcmp [] (y # ys) = -1"
| "strcmp (x # xs) [] = 1"
| "strcmp (x # xs) (y # ys) = (if x = y then strcmp xs ys else if x < y then -1 else 1)"

text \<open>The comparison of a node with the wanted identifier; a version of 0 matches any.\<close>

definition id_cmp :: "MS3TraceID \<Rightarrow> u8 list \<Rightarrow> u8 \<Rightarrow> int" where
  "id_cmp tid sid pubversion =
     (let cmp = strcmp (id_sid tid) sid
      in if cmp = 0 \<and> pubversion \<noteq> 0 \<and> id_pubversion tid \<noteq> pubversion
         then if id_pubversion tid < pubversion then -1 else 1
         else cmp)"

text \<open>The number of levels still to search is \<open>level + 1\<close> of the code.\<close>

type_synonym prev_nodes = "nat \<Rightarrow> node option"

partial_function (option) find_loop ::
  "MS3TraceList \<Rightarrow> u8 list \<Rightarrow> u8 \<Rightarrow> nat \<Rightarrow> node \<Rightarrow> prev_nodes \<Rightarrow> (nat option \<times> prev_nodes) option" where
  "find_loop st sid pubversion levels x prev =
     (if levels = 0 then Some (None, prev)
      else do {
        p \<leftarrow> next_at st x (levels - 1);
        (case p of
           None \<Rightarrow> find_loop st sid pubversion (levels - 1) x (prev(levels - 1 := Some x))
         | Some a \<Rightarrow> do {
             tid \<leftarrow> tl_ids st a;
             (if id_cmp tid sid pubversion = 0 then Some (Some a, prev(levels - 1 := Some x))
              else if id_cmp tid sid pubversion > 0
              then find_loop st sid pubversion (levels - 1) x (prev(levels - 1 := Some x))
              else find_loop st sid pubversion levels (Node a) (prev(levels - 1 := Some x)))
           })
      })"

declare find_loop.simps [code]

text \<open>The value is the node found and the array \<open>prev\<close>, which a caller may not want.\<close>

definition mstl3_findID ::
  "MS3TraceList option \<Rightarrow> u8 list option \<Rightarrow> u8 \<Rightarrow> prev_nodes \<Rightarrow> (nat option \<times> prev_nodes) option" where
  "mstl3_findID mstl sid pubversion prev =
     (case (mstl, sid) of
        (Some st, Some s) \<Rightarrow> find_loop st s pubversion MSTRACEID_SKIPLIST_HEIGHT Head prev
      | _ \<Rightarrow> Some (None, prev))"

subsection \<open>Adding\<close>

text \<open>The loop that clears the pointers above the height of the new node.\<close>

fun clear_above :: "nat \<Rightarrow> nat \<Rightarrow> (nat \<Rightarrow> nat option) \<Rightarrow> nat \<Rightarrow> nat option" where
  "clear_above height level nexts =
     (if level > height then clear_above height (level - 1) (nexts(level := None)) else nexts)"

declare clear_above.simps [simp del]

text \<open>The loop that links the node below its height; it ends at a level without a previous node.\<close>

fun connect :: "nat \<Rightarrow> prev_nodes \<Rightarrow> nat \<Rightarrow> MS3TraceList \<Rightarrow> (MS3TraceList \<times> bool) option" where
  "connect a prev 0 st = Some (st, True)"
| "connect a prev (Suc level) st =
     (case prev level of
        None \<Rightarrow> Some (st, False)
      | Some p \<Rightarrow> do {
          n \<leftarrow> next_at st p level;
          st \<leftarrow> set_next st (Node a) level n;
          st \<leftarrow> set_next st p level (Some a);
          connect a prev level st
        })"

definition mstl3_addID ::
  "MS3TraceList option \<Rightarrow> nat option \<Rightarrow> prev_nodes option \<Rightarrow> (MS3TraceList option \<times> nat option) option" where
  "mstl3_addID mstl idp prev =
     (case (mstl, idp) of
        (Some st, Some a) \<Rightarrow> do {
          tid \<leftarrow> tl_ids st a;
          prev \<leftarrow> (case prev of
             Some prev \<Rightarrow> Some prev
           | None \<Rightarrow> map_option snd (mstl3_findID (Some st) (Some (id_sid tid)) 0 (\<lambda>_. None)));
          (let (height, prngstate) = lm_random_height MSTRACEID_SKIPLIST_HEIGHT (tl_prngstate st);
               tid = tid\<lparr>id_height := height,
                       id_next := clear_above height (MSTRACEID_SKIPLIST_HEIGHT - 1) (id_next tid)\<rparr>;
               st = st\<lparr>tl_prngstate := prngstate, tl_ids := (tl_ids st)(a \<mapsto> tid)\<rparr>
           in do {
             (st, ok) \<leftarrow> connect a prev height st;
             (if \<not> ok then Some (Some st, None)
              else Some (Some (st\<lparr>tl_numtraceids := tl_numtraceids st + 1\<rparr>), Some a))
           })
        }
      | _ \<Rightarrow> Some (mstl, None))"

subsection \<open>The nodes of a skip list\<close>

lemma strcmp_order: "strcmp xs ys = (if xs = ys then 0 else if xs < ys then -1 else 1)"
  by (induction xs ys rule: strcmp.induct) (auto simp: Cons_less_Cons)

definition node_key :: "MS3TraceList \<Rightarrow> nat \<Rightarrow> u8 list \<times> u8" where
  "node_key st a = (case tl_ids st a of None \<Rightarrow> ([], 0) | Some tid \<Rightarrow> (id_sid tid, id_pubversion tid))"

definition node_height :: "MS3TraceList \<Rightarrow> nat \<Rightarrow> nat" where
  "node_height st a = (case tl_ids st a of None \<Rightarrow> 0 | Some tid \<Rightarrow> id_height tid)"

definition level_nodes :: "MS3TraceList \<Rightarrow> nat \<Rightarrow> nat list \<Rightarrow> nat list" where
  "level_nodes st l ns = filter (\<lambda>a. l < node_height st a) ns"

text \<open>The pointers of a level lead from \<open>x\<close> through the nodes of a list to \<open>e\<close>.\<close>

fun path :: "MS3TraceList \<Rightarrow> nat \<Rightarrow> node \<Rightarrow> nat list \<Rightarrow> nat option \<Rightarrow> bool" where
  "path st l x [] e \<longleftrightarrow> next_at st x l = Some e"
| "path st l x (a # as) e \<longleftrightarrow> next_at st x l = Some (Some a) \<and> path st l (Node a) as e"

definition skip_ok :: "MS3TraceList \<Rightarrow> nat list \<Rightarrow> bool" where
  "skip_ok st ns \<longleftrightarrow>
     sorted_wrt (<) (map (node_key st) ns) \<and>
     (\<forall>a \<in> set ns. tl_ids st a \<noteq> None \<and> 0 < node_height st a \<and> node_height st a \<le> MSTRACEID_SKIPLIST_HEIGHT) \<and>
     (\<forall>l < MSTRACEID_SKIPLIST_HEIGHT. path st l Head (level_nodes st l ns) None)"

lemma path_append: "path st l x (as @ b # bs) e \<longleftrightarrow> path st l x as (Some b) \<and> path st l (Node b) bs e"
  by (induction as arbitrary: x) auto

lemma level_nodes_append [simp]: "level_nodes st l (as @ bs) = level_nodes st l as @ level_nodes st l bs"
  by (simp add: level_nodes_def)

lemma level_nodes_Nil [simp]: "level_nodes st l [] = []"
  by (simp add: level_nodes_def)

lemma level_nodes_Cons: "level_nodes st l (a # as) = (if l < node_height st a then a # level_nodes st l as else level_nodes st l as)"
  by (simp add: level_nodes_def)

lemma level_nodes_first:
  assumes "level_nodes st l ns = a # as"
  obtains us vs where "ns = us @ a # vs" "level_nodes st l us = []" "level_nodes st l vs = as" "l < node_height st a"
proof -
  obtain us vs where "ns = us @ a # vs" "\<forall>u\<in>set us. \<not> l < node_height st u" "l < node_height st a" "as = filter (\<lambda>a. l < node_height st a) vs"
    using assms unfolding level_nodes_def by (auto simp: filter_eq_Cons_iff)
  then show thesis by (intro that [of us vs]) (auto simp: level_nodes_def filter_empty_conv)
qed

text \<open>The last node of a list, or the node before it.\<close>

definition last_node :: "node \<Rightarrow> nat list \<Rightarrow> node" where
  "last_node x as = (if as = [] then x else Node (last as))"

lemma last_node_simps [simp]:
  "last_node x [] = x" "last_node x (as @ [a]) = Node a" "last_node x (a # as) = last_node (Node a) as"
  by (auto simp: last_node_def)

lemma last_node_append [simp]: "last_node x (as @ bs) = last_node (last_node x as) bs"
  by (auto simp: last_node_def)

lemma next_at_last: "path st l x as e \<Longrightarrow> next_at st (last_node x as) l = Some e"
  by (induction as arbitrary: x) auto

subsection \<open>Searching finds the node\<close>

definition cmp_at :: "MS3TraceList \<Rightarrow> u8 list \<Rightarrow> u8 \<Rightarrow> nat \<Rightarrow> int" where
  "cmp_at st sid v a = (case tl_ids st a of None \<Rightarrow> 0 | Some tid \<Rightarrow> id_cmp tid sid v)"

text \<open>The nodes below what is searched for.\<close>

definition lows :: "MS3TraceList \<Rightarrow> u8 list \<Rightarrow> u8 \<Rightarrow> nat list \<Rightarrow> nat list" where
  "lows st sid v ns = takeWhile (\<lambda>a. cmp_at st sid v a < 0) ns"

lemma cmp_sign: "cmp_at st sid v a \<in> {-1, 0, 1}"
  by (auto simp: cmp_at_def id_cmp_def strcmp_order Let_def split: option.splits)

lemma id_cmp_mono:
  assumes "(id_sid i, id_pubversion i) < (id_sid j, id_pubversion j)"
  shows "id_cmp i sid v \<le> id_cmp j sid v"
proof -
  consider (less) "id_sid i < id_sid j" | (same) "id_sid i = id_sid j" "id_pubversion i < id_pubversion j"
    using assms by (auto simp: less_prod_simp le_less)
  then show ?thesis
  proof cases
    case less
    then have "\<not> id_sid j < sid" "id_sid j \<noteq> sid" if "\<not> id_sid i < sid" using that by auto
    then show ?thesis by (simp add: id_cmp_def strcmp_order Let_def)
  next
    case same
    then show ?thesis by (auto simp: id_cmp_def strcmp_order Let_def)
  qed
qed

lemma cmp_sorted:
  assumes "sorted_wrt (<) (map (node_key st) ns)" "\<forall>a\<in>set ns. tl_ids st a \<noteq> None"
  shows "sorted_wrt (\<lambda>a b. cmp_at st sid v a \<le> cmp_at st sid v b) ns"
  using assms
proof (induction ns)
  case (Cons a ns)
  have "cmp_at st sid v a \<le> cmp_at st sid v b" if b: "b \<in> set ns" for b
  proof -
    obtain i where i: "tl_ids st a = Some i" using Cons.prems(2) by auto
    obtain j where j: "tl_ids st b = Some j" using Cons.prems(2) b by fastforce
    have "node_key st a < node_key st b" using Cons.prems(1) b by simp
    then show ?thesis using id_cmp_mono i j by (simp add: node_key_def cmp_at_def)
  qed
  then show ?case using Cons by simp
qed simp

lemma lows_all: "\<forall>a\<in>set us. cmp_at st sid v a < 0 \<Longrightarrow> lows st sid v (us @ vs) = us @ lows st sid v vs"
  by (simp add: lows_def)

lemma lows_none: "(\<forall>a\<in>set vs. 0 \<le> cmp_at st sid v a) \<Longrightarrow> lows st sid v vs = []"
  by (cases vs) (auto simp: lows_def)

text \<open>
  What a search from the node \<open>x\<close> gives, \<open>vs\<close> being the nodes behind it: a node that matches,
  or none at the levels searched and at each of them the last node below what is wanted.
\<close>

definition search_result ::
  "MS3TraceList \<Rightarrow> u8 list \<Rightarrow> u8 \<Rightarrow> nat \<Rightarrow> node \<Rightarrow> nat list \<Rightarrow> prev_nodes \<Rightarrow> nat option \<times> prev_nodes \<Rightarrow> bool" where
  "search_result st sid v levels x vs prev res \<longleftrightarrow>
     (case res of
        (Some a, prev') \<Rightarrow> a \<in> set vs \<and> cmp_at st sid v a = 0
      | (None, prev') \<Rightarrow>
          (\<forall>l<levels. prev' l = Some (last_node x (level_nodes st l (lows st sid v vs)))) \<and>
          (\<forall>l\<ge>levels. prev' l = prev l) \<and>
          (\<forall>l<levels. \<forall>a\<in>set (level_nodes st l vs). cmp_at st sid v a \<noteq> 0))"

lemma search_result_drop:
  assumes "search_result st sid v l x vs (prev(l := Some x)) res" "\<forall>a\<in>set (level_nodes st l vs). 0 < cmp_at st sid v a"
  shows "search_result st sid v (Suc l) x vs prev res"
proof -
  have "level_nodes st l (lows st sid v vs) = []"
    using assms(2) set_takeWhileD by (fastforce simp: lows_def level_nodes_def filter_empty_conv)
  moreover have "\<forall>a\<in>set (level_nodes st l vs). cmp_at st sid v a \<noteq> 0" using assms(2) by fastforce
  ultimately show ?thesis
    using assms(1) by (auto simp: search_result_def less_Suc_eq split: prod.splits option.splits)
qed

lemma search_result_advance:
  assumes "search_result st sid v levels (Node a) ws (prev(l := Some x)) res" "l < levels"
    and "vs = us @ a # ws" "\<forall>b\<in>set (us @ [a]). cmp_at st sid v b < 0" "levels \<le> node_height st a"
  shows "search_result st sid v levels x vs prev res"
proof -
  have lows: "lows st sid v vs = us @ a # lows st sid v ws" using lows_all [OF assms(4), of ws] assms(3) by simp
  have split: "level_nodes st k vs = level_nodes st k us @ a # level_nodes st k ws"
    "level_nodes st k (lows st sid v vs) = level_nodes st k us @ a # level_nodes st k (lows st sid v ws)" if "k < levels" for k
    using that assms(3,5) lows by (simp_all add: level_nodes_Cons)
  have "cmp_at st sid v b \<noteq> 0" if "b \<in> set (level_nodes st k us)" for k b
    using that assms(4) by (auto simp: level_nodes_def)
  moreover have "set ws \<subseteq> set vs" using assms(3) by auto
  ultimately show ?thesis
    using assms(1,2,4) by (auto simp: search_result_def split split: prod.splits option.splits)
qed

text \<open>
  The loop at the node \<open>x\<close>: it returns, by induction on the levels and nodes that are left.
\<close>

lemma find_loop_spec:
  assumes "sorted_wrt (\<lambda>a b. cmp_at st sid v a \<le> cmp_at st sid v b) vs"
    and "\<forall>a\<in>set vs. tl_ids st a \<noteq> None"
    and "\<forall>l<levels. path st l x (level_nodes st l vs) None"
  shows "\<exists>res. find_loop st sid v levels x prev = Some res \<and> search_result st sid v levels x vs prev res"
  using assms
proof (induction "levels + length vs" arbitrary: levels vs x prev rule: less_induct)
  case less
  note loop = find_loop.simps [of st sid v levels x prev]
  show ?case
  proof (cases levels)
    case (Suc l)
    have path: "path st l x (level_nodes st l vs) None" using less.prems(3) Suc by simp
    have drop: ?thesis
      if step: "find_loop st sid v levels x prev = find_loop st sid v l x (prev(l := Some x))"
        and high: "\<forall>a\<in>set (level_nodes st l vs). 0 < cmp_at st sid v a"
    proof -
      have "\<exists>res. find_loop st sid v l x (prev(l := Some x)) = Some res \<and> search_result st sid v l x vs (prev(l := Some x)) res"
        using less.prems Suc by (intro less.hyps) simp_all
      then show ?thesis using step search_result_drop [OF _ high] Suc by auto
    qed
    show ?thesis
    proof (cases "level_nodes st l vs")
      case Nil
      then show ?thesis using drop path Suc loop by simp
    next
      case (Cons a as)
      obtain us ws where vs: "vs = us @ a # ws" "level_nodes st l us = []" "l < node_height st a"
        using level_nodes_first [OF Cons] .
      obtain tid where "tl_ids st a = Some tid" using less.prems(2) vs(1) by auto
      then have step: "find_loop st sid v levels x prev =
          (if cmp_at st sid v a = 0 then Some (Some a, prev(l := Some x))
           else if cmp_at st sid v a > 0 then find_loop st sid v l x (prev(l := Some x))
           else find_loop st sid v levels (Node a) (prev(l := Some x)))"
        using Suc path Cons by (subst loop) (simp add: cmp_at_def)
      consider "cmp_at st sid v a = 0" | "cmp_at st sid v a > 0" | "cmp_at st sid v a < 0" by linarith
      then show ?thesis
      proof cases
        case 1
        then show ?thesis using step vs(1) by (simp add: search_result_def)
      next
        case 2
        have "\<forall>b\<in>set (level_nodes st l vs). 0 < cmp_at st sid v b"
          using less.prems(1) 2 vs by (auto simp: sorted_wrt_append level_nodes_Cons) (auto simp: level_nodes_def)
        then show ?thesis using step 2 by (intro drop) simp_all
      next
        case 3
        have "\<exists>res. find_loop st sid v levels (Node a) (prev(l := Some x)) = Some res \<and>
            search_result st sid v levels (Node a) ws (prev(l := Some x)) res"
          using less.prems vs(1,3) Suc by (intro less.hyps) (auto simp: sorted_wrt_append path_append level_nodes_Cons)
        moreover have "\<forall>b\<in>set (us @ [a]). cmp_at st sid v b < 0"
          using less.prems(1) 3 vs(1) by (auto simp: sorted_wrt_append)
        ultimately show ?thesis using step 3 search_result_advance [OF _ _ vs(1)] vs(3) Suc by fastforce
      qed
    qed
  qed (subst loop, simp add: search_result_def)
qed


lemma skip_ok_levels: "skip_ok st ns \<Longrightarrow> level_nodes st 0 ns = ns"
  by (simp add: skip_ok_def level_nodes_def)

lemma skip_ok_distinct: "skip_ok st ns \<Longrightarrow> distinct ns"
  by (auto simp: skip_ok_def strict_sorted_iff distinct_map)

lemma findID_result:
  assumes "skip_ok st ns"
  shows "\<exists>res. mstl3_findID (Some st) (Some sid) v prev = Some res \<and>
    search_result st sid v MSTRACEID_SKIPLIST_HEIGHT Head ns prev res"
  unfolding mstl3_findID_def prod.case option.case
  using assms by (intro find_loop_spec cmp_sorted) (auto simp: skip_ok_def)

lemma cmp_at_0:
  assumes "tl_ids st a \<noteq> None"
  shows "cmp_at st sid v a = 0 \<longleftrightarrow> fst (node_key st a) = sid \<and> (v = 0 \<or> snd (node_key st a) = v)"
  using assms by (auto simp: cmp_at_def id_cmp_def node_key_def strcmp_order Let_def split: if_splits)

lemma cmp_at_low:
  assumes "tl_ids st a \<noteq> None"
  shows "cmp_at st sid v a < 0 \<longleftrightarrow>
    (if v = 0 then fst (node_key st a) < sid else node_key st a < (sid, v))"
  using assms by (auto simp: cmp_at_def id_cmp_def node_key_def strcmp_order Let_def less_prod_def split: if_splits)

lemma unlinked_fields:
  assumes "i\<lparr>id_next := f\<rparr> = j\<lparr>id_next := f\<rparr>"
  shows "id_sid i = id_sid j" "id_pubversion i = id_pubversion j" "id_height i = id_height j"
  using assms by (cases i; cases j; simp)+

subsection \<open>Adding keeps the list\<close>

lemma next_at_set_next:
  assumes "set_next st y l p = Some st'"
  shows "next_at st' x k = (if x = y \<and> k = l then Some p else next_at st x k)"
  using assms by (auto simp: set_next_def next_at_def split: node.splits option.splits if_splits)

lemma path_cong:
  assumes "\<And>y. y \<in> insert x (Node ` set as) \<Longrightarrow> next_at st' y l = next_at st y l"
  shows "path st' l x as e = path st l x as e"
  using assms by (induction as arbitrary: x) auto

text \<open>All members of a node but its next pointers, and the rest of the list.\<close>

definition unlinked :: "MS3TraceList \<Rightarrow> nat \<Rightarrow> MS3TraceID option" where
  "unlinked st a = map_option (\<lambda>tid. tid\<lparr>id_next := (\<lambda>_. None)\<rparr>) (tl_ids st a)"

definition same_but_links :: "MS3TraceList \<Rightarrow> MS3TraceList \<Rightarrow> bool" where
  "same_but_links st st' \<longleftrightarrow>
     unlinked st' = unlinked st \<and> tl_segs st' = tl_segs st \<and> tl_numtraceids st' = tl_numtraceids st \<and>
     tl_prngstate st' = tl_prngstate st \<and> tl_fresh st' = tl_fresh st"

lemma same_but_links_refl [simp]: "same_but_links st st"
  by (simp add: same_but_links_def)

lemma same_but_links_trans: "same_but_links st st' \<Longrightarrow> same_but_links st' st'' \<Longrightarrow> same_but_links st st''"
  by (simp add: same_but_links_def)

lemma set_next_links: "set_next st x l p = Some st' \<Longrightarrow> same_but_links st st'"
  by (auto simp: set_next_def same_but_links_def unlinked_def fun_eq_iff split: node.splits option.splits)

lemma unlinked_same:
  assumes "unlinked st' = unlinked st"
  shows "tl_ids st' a = None \<longleftrightarrow> tl_ids st a = None" "node_key st' a = node_key st a" "node_height st' a = node_height st a"
proof -
  have e: "map_option (\<lambda>tid. tid\<lparr>id_next := (\<lambda>_. None)\<rparr>) (tl_ids st' a) = map_option (\<lambda>tid. tid\<lparr>id_next := (\<lambda>_. None)\<rparr>) (tl_ids st a)"
    using assms by (simp add: unlinked_def fun_eq_iff)
  then show "tl_ids st' a = None \<longleftrightarrow> tl_ids st a = None" by (metis option.map_disc_iff)
  show "node_key st' a = node_key st a" "node_height st' a = node_height st a"
    using e by (auto simp: node_key_def node_height_def split: option.splits dest: unlinked_fields)
qed

lemma level_nodes_same:
  assumes "unlinked st' = unlinked st"
  shows "level_nodes st' l ns = level_nodes st l ns"
  by (simp add: level_nodes_def unlinked_same(3) [OF assms])

lemma set_next_some: "next_at st x l \<noteq> None \<Longrightarrow> \<exists>st'. set_next st x l p = Some st'"
proof (cases x)
  case (Node a)
  assume "next_at st x l \<noteq> None"
  then obtain tid where "tl_ids st a = Some tid" using Node by (cases "tl_ids st a") (simp_all add: next_at_def)
  then show ?thesis using Node by (simp add: set_next_def)
qed (simp add: set_next_def)

lemma path_relink:
  assumes "path st l x as n" "next_at st' (last_node x as) l = Some n'" "distinct as" "x \<notin> Node ` set as"
    and "\<And>y. y \<in> insert x (Node ` set as) \<Longrightarrow> y \<noteq> last_node x as \<Longrightarrow> next_at st' y l = next_at st y l"
  shows "path st' l x as n'"
  using assms
proof (induction as arbitrary: x)
  case (Cons a as)
  have "last_node (Node a) as \<in> Node ` set (a # as)" by (simp add: last_node_def)
  then have "x \<noteq> last_node (Node a) as" using Cons.prems(4) by auto
  then have "next_at st' x l = Some (Some a)" using Cons.prems(1,5) by simp
  moreover have "path st' l (Node a) as n'"
  proof (rule Cons.IH)
    show "next_at st' y l = next_at st y l" if "y \<in> insert (Node a) (Node ` set as)" "y \<noteq> last_node (Node a) as" for y
      using Cons.prems(5) [of y] that by simp
  qed (use Cons.prems in auto)
  ultimately show ?case by simp
qed simp

lemma path_split:
  "path st l x (as @ bs) e \<longleftrightarrow> path st l x as (exit_of bs e) \<and>
     (case bs of [] \<Rightarrow> True | b # bs' \<Rightarrow> path st l (Node b) bs' e)"
  by (cases bs) (simp_all add: exit_of_def path_append)

text \<open>One level: the new node goes behind the last of \<open>as\<close>.\<close>

lemma connect_level:
  assumes "path st l Head (as @ bs) e" "a \<notin> set (as @ bs)" "tl_ids st a \<noteq> None" "distinct (as @ bs)"
  obtains st1 st2 where "next_at st (last_node Head as) l = Some (exit_of bs e)" "set_next st (Node a) l (exit_of bs e) = Some st1"
    "set_next st1 (last_node Head as) l (Some a) = Some st2" "path st2 l Head (as @ a # bs) e"
proof -
  let ?y = "last_node Head as" and ?n = "exit_of bs e"
  have path: "path st l Head as ?n" using assms(1) by (simp add: path_split)
  have y: "next_at st ?y l = Some ?n" using next_at_last [OF path] .
  have "next_at st (Node a) l \<noteq> None" using assms(3) by (auto simp: next_at_def)
  then obtain st1 where st1: "set_next st (Node a) l ?n = Some st1" using set_next_some by blast
  have y_in: "?y \<in> insert Head (Node ` set as)" by (simp add: last_node_def)
  then have ay: "Node a \<noteq> ?y" using assms(2) by auto
  have "next_at st1 ?y l \<noteq> None" using y ay by (simp add: next_at_set_next [OF st1])
  then obtain st2 where st2: "set_next st1 ?y l (Some a) = Some st2" using set_next_some by blast
  have upd: "next_at st2 z l = (if z = ?y then Some (Some a) else if z = Node a then Some ?n else next_at st z l)" for z
    by (simp add: next_at_set_next [OF st1] next_at_set_next [OF st2])
  have "path st2 l Head as (Some a)"
    using assms(2,4) by (intro path_relink [OF path]) (auto simp: upd)
  moreover have "path st2 l (Node a) bs e"
  proof (cases bs)
    case Nil
    then show ?thesis using ay by (simp add: upd exit_of_def)
  next
    case (Cons b bs')
    have "path st2 l (Node b) bs' e = path st l (Node b) bs' e"
      using assms(2,4) Cons y_in by (intro path_cong) (auto simp: upd)
    then show ?thesis using assms(1) ay Cons by (simp add: upd exit_of_def path_append)
  qed
  ultimately have "path st2 l Head (as @ a # bs) e" by (simp add: path_append)
  then show thesis using that [OF y st1 st2] by blast
qed


lemma path_other_level:
  assumes "\<And>x. next_at st' x l = next_at st x l"
  shows "path st' l x as e = path st l x as e"
  using assms by (intro path_cong) simp

text \<open>The loop over the levels, from the height of the new node down.\<close>

lemma connect_spec:
  assumes "\<forall>l<levels. prev l = Some (last_node Head (level_nodes st l as))" "a \<notin> set (as @ bs)" "tl_ids st a \<noteq> None"
    and "distinct (as @ bs)" "\<forall>l<levels. path st l Head (level_nodes st l (as @ bs)) None"
  shows "\<exists>st'. connect a prev levels st = Some (st', True) \<and> same_but_links st st' \<and>
    (\<forall>l<levels. path st' l Head (level_nodes st l as @ a # level_nodes st l bs) None) \<and>
    (\<forall>l\<ge>levels. \<forall>x. next_at st' x l = next_at st x l)"
  using assms
proof (induction levels arbitrary: st)
  case (Suc l)
  have nodes: "a \<notin> set (level_nodes st l as @ level_nodes st l bs)" "distinct (level_nodes st l as @ level_nodes st l bs)"
    using Suc.prems(2,4) by (auto simp: level_nodes_def)
  have "path st l Head (level_nodes st l as @ level_nodes st l bs) None" using Suc.prems(5) by simp
  then obtain st1 st2 where n: "next_at st (last_node Head (level_nodes st l as)) l = Some (exit_of (level_nodes st l bs) None)"
    and st1: "set_next st (Node a) l (exit_of (level_nodes st l bs) None) = Some st1"
    and st2: "set_next st1 (last_node Head (level_nodes st l as)) l (Some a) = Some st2"
    and linked: "path st2 l Head (level_nodes st l as @ a # level_nodes st l bs) None"
    by (rule connect_level [OF _ nodes(1) Suc.prems(3) nodes(2)])
  have links: "same_but_links st st2" using set_next_links [OF st1] set_next_links [OF st2] same_but_links_trans by blast
  then have same: "unlinked st2 = unlinked st" by (simp add: same_but_links_def)
  have other: "next_at st2 x k = next_at st x k" if "k \<noteq> l" for x k
    using that by (simp add: next_at_set_next [OF st1] next_at_set_next [OF st2])
  have "\<exists>st'. connect a prev l st2 = Some (st', True) \<and> same_but_links st2 st' \<and>
      (\<forall>k<l. path st' k Head (level_nodes st2 k as @ a # level_nodes st2 k bs) None) \<and>
      (\<forall>k\<ge>l. \<forall>x. next_at st' x k = next_at st2 x k)"
  proof (rule Suc.IH)
    show "\<forall>k<l. path st2 k Head (level_nodes st2 k (as @ bs)) None"
      using Suc.prems(5) by (simp add: level_nodes_same [OF same] path_other_level [OF other])
  qed (use Suc.prems in \<open>simp_all add: level_nodes_same [OF same] unlinked_same [OF same]\<close>)
  then obtain st' where st': "connect a prev l st2 = Some (st', True)" "same_but_links st2 st'"
    "\<forall>k<l. path st' k Head (level_nodes st k as @ a # level_nodes st k bs) None"
    "\<forall>k\<ge>l. \<forall>x. next_at st' x k = next_at st2 x k" by (auto simp: level_nodes_same [OF same])
  have "path st' l Head (level_nodes st l as @ a # level_nodes st l bs) None"
    using linked path_other_level [of st' l st2] st'(4) by simp
  then have "\<forall>k<Suc l. path st' k Head (level_nodes st k as @ a # level_nodes st k bs) None"
    using st'(3) by (auto simp: less_Suc_eq)
  moreover have "\<forall>k\<ge>Suc l. \<forall>x. next_at st' x k = next_at st x k" using st'(4) other by simp
  moreover have "connect a prev (Suc l) st = Some (st', True)" using Suc.prems(1) n st1 st2 st'(1) by simp
  ultimately show ?case using links st'(2) same_but_links_trans by blast
qed simp

lemma height_loop_bounds:
  "height_loop maximum h s = (r, s') \<Longrightarrow> h \<le> maximum \<Longrightarrow> h \<le> r \<and> r \<le> maximum"
proof (induction maximum h s rule: height_loop.induct)
  case (1 maximum h s)
  obtain x t where x: "lm_lcg_r s = (x, t)" by fastforce
  show ?case
  proof (cases "h < maximum \<and> x < 0x7FFFFFFF")
    case True
    then have "height_loop maximum (Suc h) t = (r, s')"
      using 1(2) x by (subst (asm) height_loop.simps) simp
    then show ?thesis using 1(1) [OF _ x [symmetric] refl] True by simp
  next
    case False
    then show ?thesis using 1(2,3) x by (subst (asm) height_loop.simps) (auto split: if_splits)
  qed
qed


lemma insort_split:
  "\<forall>x\<in>set xs. x < k \<Longrightarrow> \<forall>y\<in>set ys. k < y \<Longrightarrow> insort k (xs @ ys) = xs @ (k :: 'a::linorder) # ys"
proof (induction xs)
  case Nil
  then show ?case by (cases ys) (auto intro: less_imp_le)
qed auto

text \<open>A search without a result splits the list at the place of what was searched for.\<close>

lemma not_found_split:
  assumes "skip_ok st ns" "search_result st sid v MSTRACEID_SKIPLIST_HEIGHT Head ns prev (None, prev')" "v = 0 \<or> v = w"
  obtains as bs where "ns = as @ bs" "\<forall>l<MSTRACEID_SKIPLIST_HEIGHT. prev' l = Some (last_node Head (level_nodes st l as))"
    "\<forall>b\<in>set as. node_key st b < (sid, w)" "\<forall>b\<in>set bs. (sid, w) < node_key st b"
proof -
  let ?c = "cmp_at st sid v" let ?as = "lows st sid v ns"
  define bs where "bs = dropWhile (\<lambda>a. ?c a < 0) ns"
  have ns: "ns = ?as @ bs" by (simp add: lows_def bs_def)
  have ids: "\<forall>a\<in>set ns. tl_ids st a \<noteq> None" using assms(1) by (simp add: skip_ok_def)
  have "\<forall>l<MSTRACEID_SKIPLIST_HEIGHT. \<forall>a\<in>set (level_nodes st l ns). ?c a \<noteq> 0" using assms(2) by (simp add: search_result_def)
  from spec [OF this, of 0] have nonzero: "\<forall>a\<in>set ns. ?c a \<noteq> 0" by (simp add: skip_ok_levels [OF assms(1)])
  have low: "\<forall>a\<in>set ?as. ?c a < 0" unfolding lows_def using set_takeWhileD by fastforce
  have "\<not> ?c a < 0" if a: "a \<in> set bs" for a
  proof (cases bs)
    case (Cons b bs')
    then have "\<not> ?c b < 0" using hd_dropWhile [of "\<lambda>a. ?c a < 0" ns] by (simp add: bs_def)
    moreover have "sorted_wrt (\<lambda>a b. ?c a \<le> ?c b) bs"
      using assms(1) cmp_sorted [of st ns sid v] ns ids sorted_wrt_append [of _ ?as bs] by (simp add: skip_ok_def)
    ultimately show ?thesis using a Cons by auto
  qed (use a in simp)
  then have high: "\<forall>a\<in>set bs. \<not> ?c a < 0 \<and> ?c a \<noteq> 0" using nonzero ns by (metis UnCI set_append)
  show thesis
  proof (rule that [OF ns])
    show "\<forall>l<MSTRACEID_SKIPLIST_HEIGHT. prev' l = Some (last_node Head (level_nodes st l ?as))"
      using assms(2) by (simp add: search_result_def)
    show "\<forall>b\<in>set ?as. node_key st b < (sid, w)"
    proof
      fix b assume b: "b \<in> set ?as"
      then have "tl_ids st b \<noteq> None" using ids ns by (metis UnCI set_append)
      then show "node_key st b < (sid, w)"
        using cmp_at_low [of st b sid v] low b assms(3) by (auto simp: less_prod_def split: if_splits)
    qed
    show "\<forall>b\<in>set bs. (sid, w) < node_key st b"
    proof
      fix b assume b: "b \<in> set bs"
      then have "tl_ids st b \<noteq> None" using ids ns by (metis UnCI set_append)
      then have "if v = 0 then \<not> fst (node_key st b) < sid else \<not> node_key st b < (sid, v)"
        "\<not> (fst (node_key st b) = sid \<and> (v = 0 \<or> snd (node_key st b) = v))"
        using cmp_at_low [of st b sid v] cmp_at_0 [of st b sid v] high b by auto
      then show "(sid, w) < node_key st b"
        using assms(3) by (cases "node_key st b") (auto simp: less_prod_def split: if_splits)
    qed
  qed
qed


text \<open>The node to add, before it is linked.\<close>

lemma addID_links:
  assumes "skip_ok st (as @ bs)" "tl_ids st a = Some tid" "a \<notin> set (as @ bs)"
    and "\<forall>l<MSTRACEID_SKIPLIST_HEIGHT. prev l = Some (last_node Head (level_nodes st l as))"
    and "\<forall>b\<in>set as. node_key st b < node_key st a" "\<forall>b\<in>set bs. node_key st a < node_key st b"
  shows "\<exists>st'. mstl3_addID (Some st) (Some a) (Some prev) = Some (Some st', Some a) \<and> skip_ok st' (as @ a # bs) \<and>
    (\<forall>b. node_key st' b = node_key st b) \<and> (\<forall>b. b \<noteq> a \<longrightarrow> unlinked st' b = unlinked st b) \<and>
    (\<exists>height. unlinked st' a = Some (tid\<lparr>id_height := height, id_next := (\<lambda>_. None)\<rparr>)) \<and>
    tl_segs st' = tl_segs st \<and> tl_fresh st' = tl_fresh st \<and> tl_numtraceids st' = tl_numtraceids st + 1"
proof -
  obtain height prng where h: "lm_random_height MSTRACEID_SKIPLIST_HEIGHT (tl_prngstate st) = (height, prng)" by fastforce
  have height: "1 \<le> height" "height \<le> 8" using h height_loop_bounds unfolding lm_random_height_def by fastforce+
  define tid0 where "tid0 = tid\<lparr>id_height := height, id_next := clear_above height (MSTRACEID_SKIPLIST_HEIGHT - 1) (id_next tid)\<rparr>"
  define st0 where "st0 = st\<lparr>tl_prngstate := prng, tl_ids := (tl_ids st)(a \<mapsto> tid0)\<rparr>"
  have key0: "node_key st0 b = node_key st b" for b
    using assms(2) by (simp add: node_key_def st0_def tid0_def)
  have height0: "node_height st0 b = (if b = a then height else node_height st b)" for b
    by (simp add: node_height_def st0_def tid0_def)
  have level0: "level_nodes st0 l xs = level_nodes st l xs" if "a \<notin> set xs" for l xs
    using that by (auto simp: level_nodes_def height0 intro: filter_cong)
  have nodes: "a \<notin> set (level_nodes st l (as @ bs))" for l using assms(3) by (auto simp: level_nodes_def)
  have path0: "path st0 l Head (level_nodes st l (as @ bs)) None" if "l < 8" for l
  proof -
    have "path st0 l Head (level_nodes st l (as @ bs)) None = path st l Head (level_nodes st l (as @ bs)) None"
      using nodes [of l] by (intro path_cong) (auto simp: next_at_def st0_def)
    then show ?thesis using assms(1) that by (simp add: skip_ok_def)
  qed
  have no: "a \<notin> set as" "a \<notin> set bs" using assms(3) by auto
  obtain st1 where st1: "connect a prev height st0 = Some (st1, True)" "same_but_links st0 st1"
    and below: "\<forall>l<height. path st1 l Head (level_nodes st l as @ a # level_nodes st l bs) None"
    and above: "\<forall>l\<ge>height. \<forall>x. next_at st1 x l = next_at st0 x l"
    using connect_spec [of height prev st0 as a bs] assms(3,4) skip_ok_distinct [OF assms(1)] height path0 level0 [OF no(1)] level0 [OF no(2)]
    by (auto simp: st0_def)
  have same: "unlinked st1 = unlinked st0" using st1(2) by (simp add: same_but_links_def)
  define st' where "st' = st1\<lparr>tl_numtraceids := tl_numtraceids st1 + 1\<rparr>"
  have key: "node_key st' b = node_key st b" for b
    using unlinked_same(2) [OF same] key0 by (simp add: node_key_def st'_def)
  have hgt: "node_height st' b = (if b = a then height else node_height st b)" for b
    using unlinked_same(3) [OF same] height0 by (simp add: node_height_def st'_def)
  have nx: "next_at st' x l = next_at st1 x l" for x l by (simp add: next_at_def st'_def split: node.split)
  have defined: "tl_ids st' b = None \<longleftrightarrow> tl_ids st b = None" for b
    using unlinked_same(1) [OF same, of b] assms(2) by (simp add: st'_def st0_def)
  have level': "level_nodes st' l xs = level_nodes st l xs" if "a \<notin> set xs" for l xs
    using that by (auto simp: level_nodes_def hgt intro: filter_cong)
  have levels: "level_nodes st' l (as @ a # bs) = level_nodes st l as @ (if l < height then [a] else []) @ level_nodes st l bs" for l
    using no level' by (simp add: level_nodes_Cons hgt)
  have "path st' l Head (level_nodes st' l (as @ a # bs)) None" if "l < 8" for l
  proof (cases "l < height")
    case True
    then show ?thesis using below levels path_other_level [of st' l st1] nx by simp
  next
    case False
    then show ?thesis using above path0 [OF that] levels path_other_level [of st' l st0] nx by simp
  qed
  moreover have "sorted_wrt (<) (map (node_key st') (as @ a # bs))"
  proof -
    have "node_key st' = node_key st" by (rule ext) (rule key)
    then show ?thesis using assms(1,5,6) by (auto simp: skip_ok_def sorted_wrt_append)
  qed
  ultimately have "skip_ok st' (as @ a # bs)"
    using assms(1,2) height by (auto simp: skip_ok_def hgt defined)
  moreover have "mstl3_addID (Some st) (Some a) (Some prev) = Some (Some st', Some a)"
    using assms(2) h st1(1) by (simp add: mstl3_addID_def st0_def tid0_def st'_def Let_def)
  moreover have "tl_segs st' = tl_segs st" "tl_fresh st' = tl_fresh st" "tl_numtraceids st' = tl_numtraceids st + 1"
    using st1(2) by (simp_all add: same_but_links_def st'_def st0_def)
  moreover have "unlinked st' b = unlinked st0 b" for b
    using same by (simp add: unlinked_def st'_def fun_eq_iff)
  then have "unlinked st' b = unlinked st b" if "b \<noteq> a" for b using that by (simp add: unlinked_def st0_def)
  moreover have "unlinked st' a = Some (tid\<lparr>id_height := height, id_next := (\<lambda>_. None)\<rparr>)"
    using \<open>\<And>b. unlinked st' b = unlinked st0 b\<close> by (simp add: unlinked_def st0_def tid0_def)
  ultimately show ?thesis using key by blast
qed


subsection \<open>The contract\<close>

text \<open>
  C11. Adding refines insertion into a sorted list: whatever heights the generator gives, a
  node for which the search found nothing is linked at all its levels, the call returns it
  and keeps the skip list, and the keys are the old ones with the new one inserted in
  order. The search may have asked for any version or for that of the node.
\<close>

theorem addID_refines_insort:
  assumes "skip_ok st ns" "tl_ids st a = Some tid" "a \<notin> set ns" "v = 0 \<or> v = id_pubversion tid"
    and "mstl3_findID (Some st) (Some (id_sid tid)) v (\<lambda>_. None) = Some (None, prev)"
  shows "\<exists>st' ns'. mstl3_addID (Some st) (Some a) (Some prev) = Some (Some st', Some a) \<and>
    skip_ok st' ns' \<and> set ns' = insert a (set ns) \<and>
    map (node_key st') ns' = insort (id_sid tid, id_pubversion tid) (map (node_key st) ns)"
proof -
  have key: "node_key st a = (id_sid tid, id_pubversion tid)" using assms(2) by (simp add: node_key_def)
  have "search_result st (id_sid tid) v MSTRACEID_SKIPLIST_HEIGHT Head ns (\<lambda>_. None) (None, prev)"
    using findID_result [OF assms(1), of "id_sid tid" v "\<lambda>_. None"] assms(5) by simp
  from not_found_split [OF assms(1) this assms(4)] obtain as bs where ns: "ns = as @ bs"
    and prev: "\<forall>l<MSTRACEID_SKIPLIST_HEIGHT. prev l = Some (last_node Head (level_nodes st l as))"
    and below: "\<forall>b\<in>set as. node_key st b < node_key st a" and above: "\<forall>b\<in>set bs. node_key st a < node_key st b"
    unfolding key by blast
  then obtain st' where st': "mstl3_addID (Some st) (Some a) (Some prev) = Some (Some st', Some a)" "skip_ok st' (as @ a # bs)"
    "\<forall>b. node_key st' b = node_key st b"
    using addID_links [OF assms(1) [unfolded ns] assms(2) assms(3) [unfolded ns] prev below above] by blast
  moreover have "map (node_key st') (as @ a # bs) = insort (id_sid tid, id_pubversion tid) (map (node_key st) ns)"
    using below above st'(3) unfolding ns map_append key [symmetric] by (subst insort_split) auto
  ultimately show ?thesis using ns by (intro exI [of _ st'] exI [of _ "as @ a # bs"]) auto
qed

text \<open>
  C18. The search of the skip list returns for every well-formed list, and decides
  membership: with a version it gives the node with that identifier and version, and with
  version 0 some node with the identifier, or no node when there is none.
\<close>

theorem findID_decides:
  assumes "skip_ok st ns"
  shows "\<exists>r prev'. mstl3_findID (Some st) (Some sid) v prev = Some (r, prev') \<and>
    (\<forall>a. r = Some a \<longrightarrow> a \<in> set ns \<and> fst (node_key st a) = sid \<and> (v \<noteq> 0 \<longrightarrow> snd (node_key st a) = v)) \<and>
    (r = None \<longrightarrow> \<not> (\<exists>a\<in>set ns. fst (node_key st a) = sid \<and> (v = 0 \<or> snd (node_key st a) = v)))"
proof -
  obtain r prev' where r: "mstl3_findID (Some st) (Some sid) v prev = Some (r, prev')"
    and res: "search_result st sid v MSTRACEID_SKIPLIST_HEIGHT Head ns prev (r, prev')"
    using findID_result [OF assms, of sid v prev] by auto
  have ids: "\<forall>a\<in>set ns. tl_ids st a \<noteq> None" using assms by (simp add: skip_ok_def)
  show ?thesis
  proof (cases r)
    case None
    then have all: "\<forall>l<MSTRACEID_SKIPLIST_HEIGHT. \<forall>a\<in>set (level_nodes st l ns). cmp_at st sid v a \<noteq> 0"
      using res by (simp add: search_result_def)
    from spec [OF this, of 0] have "\<forall>a\<in>set ns. cmp_at st sid v a \<noteq> 0" by (simp add: skip_ok_levels [OF assms])
    then show ?thesis using r None ids cmp_at_0 by blast
  next
    case (Some a)
    then show ?thesis using r res ids cmp_at_0 [of st a sid v] by (auto simp: search_result_def)
  qed
qed


text \<open>An empty list, and the list with one identifier, are well-formed.\<close>

lemma skip_ok_init: "skip_ok mstl3_init []"
  by (simp add: skip_ok_def mstl3_init_def next_at_def)

definition one_id :: MS3TraceID where
  "one_id = \<lparr>id_sid = [70], id_pubversion = 2, id_earliest = 0, id_latest = 0, id_numsegments = 0, id_first = None, id_last = None,
     id_next = (\<lambda>_. None), id_height = 0\<rparr>"

definition one_node :: MS3TraceList where
  "one_node = mstl3_init\<lparr>tl_ids := [0 \<mapsto> one_id], tl_fresh := 1\<rparr>"

lemma skip_ok_one_node: "skip_ok one_node []"
  by (simp add: skip_ok_def one_node_def mstl3_init_def next_at_def)

lemma find_one_node: "\<exists>prev. mstl3_findID (Some one_node) (Some [70]) 2 (\<lambda>_. None) = Some (None, prev)"
  using findID_result [OF skip_ok_one_node, of "[70]" 2 "\<lambda>_. None"]
  by (auto simp: search_result_def split: option.splits)

theorem addID_refines_insort_witness:
  "\<exists>prev st' ns'. mstl3_addID (Some one_node) (Some 0) (Some prev) = Some (Some st', Some 0) \<and>
    skip_ok st' ns' \<and> set ns' = {0} \<and> map (node_key st') ns' = [([70], 2)]"
proof -
  obtain prev where prev: "mstl3_findID (Some one_node) (Some [70]) 2 (\<lambda>_. None) = Some (None, prev)"
    using find_one_node by blast
  have "tl_ids one_node 0 = Some one_id" by (simp add: one_node_def)
  from addID_refines_insort [OF skip_ok_one_node this, of 2 prev] prev show ?thesis
    by (intro exI [of _ prev]) (simp add: one_id_def)
qed

theorem findID_decides_witness:
  "\<exists>prev'. mstl3_findID (Some mstl3_init) (Some [70]) 2 (\<lambda>_. None) = Some (None, prev')"
  using findID_decides [OF skip_ok_init, of "[70]" 2 "\<lambda>_. None"] by auto

end
