(* ===== verification/TraceSegs.thy ===== *)
theory TraceSegs
  imports TraceTypes
begin

text \<open>
  The segments of a trace identifier (tracelist.c): creating a segment from a record, adding
  coverage to one, and the doubly linked list they form in the store. An operation on the
  list gives the store and the identifier after it.
\<close>

type_synonym segs = "nat \<Rightarrow> MS3TraceSeg option"

subsection \<open>Sample buffers\<close>

fun samples_length :: "samples \<Rightarrow> nat" where
  "samples_length (TextSamples xs) = length xs"
| "samples_length (IntSamples xs) = length xs"
| "samples_length (FloatSamples xs) = length xs"
| "samples_length (GainSamples xs) = length xs"
| "samples_length (DoubleSamples xs) = length xs"

fun take_samples :: "nat \<Rightarrow> samples \<Rightarrow> samples" where
  "take_samples n (TextSamples xs) = TextSamples (take n xs)"
| "take_samples n (IntSamples xs) = IntSamples (take n xs)"
| "take_samples n (FloatSamples xs) = FloatSamples (take n xs)"
| "take_samples n (GainSamples xs) = GainSamples (take n xs)"
| "take_samples n (DoubleSamples xs) = DoubleSamples (take n xs)"

fun samples_type :: "samples \<Rightarrow> char" where
  "samples_type (TextSamples xs) = CHR ''t''"
| "samples_type (IntSamples xs) = CHR ''i''"
| "samples_type (FloatSamples xs) = CHR ''f''"
| "samples_type (GainSamples xs) = CHR ''f''"
| "samples_type (DoubleSamples xs) = CHR ''d''"

text \<open>
  The first samples of a buffer. Reading more than it holds, or as another type than it
  was written with, has no value.
\<close>

definition first_samples :: "char \<Rightarrow> samples \<Rightarrow> int \<Rightarrow> samples option" where
  "first_samples t b n = (if samples_type b = t \<and> 0 \<le> n \<and> nat n \<le> samples_length b then Some (take_samples (nat n) b) else None)"

fun append_samples :: "samples \<Rightarrow> samples \<Rightarrow> samples option" where
  "append_samples (TextSamples xs) (TextSamples ys) = Some (TextSamples (xs @ ys))"
| "append_samples (IntSamples xs) (IntSamples ys) = Some (IntSamples (xs @ ys))"
| "append_samples (FloatSamples xs) (FloatSamples ys) = Some (FloatSamples (xs @ ys))"
| "append_samples (GainSamples xs) (GainSamples ys) = Some (GainSamples (xs @ ys))"
| "append_samples (DoubleSamples xs) (DoubleSamples ys) = Some (DoubleSamples (xs @ ys))"
| "append_samples a b = (if samples_length a = 0 then Some b else if samples_length b = 0 then Some a else None)"

text \<open>The samples of a segment; a NULL buffer has none.\<close>

definition seg_samples :: "MS3TraceSeg \<Rightarrow> samples option" where
  "seg_samples seg =
     (case ts_datasamples seg of
        None \<Rightarrow> if ts_numsamples seg = 0 then Some (TextSamples []) else None
      | Some b \<Rightarrow> first_samples (ts_sampletype seg) b (ts_numsamples seg))"

subsection \<open>Allocation\<close>

text \<open>
  The outcomes of the allocations of one call: \<open>al_malloc\<close> of structures by address,
  \<open>al_data\<close> of a new sample buffer, \<open>al_realloc\<close> of a buffer that takes a record, \<open>al_merge\<close>
  of one that takes another segment, \<open>al_recordptr\<close> of a record list entry and
  \<open>al_update\<close> of the update time; and the pre-allocation size.
\<close>

record allocs =
  al_malloc :: "nat \<Rightarrow> bool"
  al_data :: bool
  al_realloc :: bool
  al_merge :: bool
  al_recordptr :: bool
  al_update :: bool
  al_block :: nat

text \<open>The size of the buffer after it was made to hold \<open>newdatasize\<close> bytes, \<open>None\<close> without memory.\<close>

definition grow_buffer :: "nat \<Rightarrow> bool \<Rightarrow> MS3TraceSeg \<Rightarrow> nat \<Rightarrow> nat option" where
  "grow_buffer block_size realloc_ok seg newdatasize =
     (if block_size \<noteq> 0
      then libmseed_memory_prealloc block_size realloc_ok (ts_datasamples seg \<noteq> None) newdatasize (Some (ts_datasize seg))
      else if realloc_ok then Some newdatasize else None)"

text \<open>
  The size in bytes of the samples of two counts: sum and product are 64-bit integers,
  whose overflow has no value, and the product is kept as a size.
\<close>

definition data_bytes :: "int \<Rightarrow> int \<Rightarrow> nat \<Rightarrow> nat option" where
  "data_bytes a b samplesize = do {
     n \<leftarrow> checked (a + b);
     bytes \<leftarrow> checked (n * int samplesize);
     Some (nat (bytes mod 2 ^ 64))
   }"

subsection \<open>Segments and records\<close>

definition SEGMENT_HAS_TIME_COVERAGE :: "MS3TraceSeg \<Rightarrow> bool" where
  "SEGMENT_HAS_TIME_COVERAGE seg \<longleftrightarrow> ts_samplecnt seg > 0 \<and> \<not> f_zero (ts_samprate seg)"

text \<open>A new segment, and whether its samples could be copied.\<close>

definition lm_msr2seg :: "allocs \<Rightarrow> MS3Record \<Rightarrow> int \<Rightarrow> MS3TraceSeg option option" where
  "lm_msr2seg al msr endtime =
     (let seg = \<lparr>ts_starttime = msr_starttime msr, ts_endtime = endtime, ts_samprate = msr3_sampratehz (Some msr),
                 ts_samplecnt = msr_samplecnt msr, ts_datasamples = None, ts_datasize = 0, ts_numsamples = msr_numsamples msr,
                 ts_sampletype = msr_sampletype msr, ts_prvtptr = None, ts_recordlist = None, ts_prev = None, ts_next = None\<rparr>
      in case msr_datasamples msr of
           None \<Rightarrow> Some (Some seg)
         | Some b \<Rightarrow>
             if msr_numsamples msr = 0 then Some (Some seg)
             else
               let samplesize = ms_samplesize (msr_sampletype msr)
               in if samplesize = 0 then Some None
                  else do {
                    datasize \<leftarrow> data_bytes 0 (msr_numsamples msr) samplesize;
                    (if \<not> al_data al then Some None
                     else do {
                       samples \<leftarrow> first_samples (msr_sampletype msr) b (msr_numsamples msr);
                       Some (Some (seg\<lparr>ts_datasamples := Some samples, ts_datasize := datasize\<rparr>))
                     })
                  })"

text \<open>
  Adding the coverage of a record at the end (1) or the beginning (2) of a segment. The
  value is the segment after the call and whether it succeeded.
\<close>

definition lm_addmsrtoseg :: "allocs \<Rightarrow> MS3TraceSeg \<Rightarrow> MS3Record \<Rightarrow> int \<Rightarrow> int \<Rightarrow> (MS3TraceSeg \<times> bool) option" where
  "lm_addmsrtoseg al seg msr endtime whence =
     (let data = (case msr_datasamples msr of None \<Rightarrow> None | Some b \<Rightarrow> if msr_numsamples msr > 0 then Some b else None);
          samplesize = ms_samplesize (msr_sampletype msr)
      in if data \<noteq> None \<and> msr_sampletype msr \<noteq> ts_sampletype seg then Some (seg, False)
         else if data \<noteq> None \<and> samplesize = 0 then Some (seg, False)
         else do {
           newdatasize \<leftarrow> (if data = None then Some 0 else data_bytes (ts_numsamples seg) (msr_numsamples msr) samplesize);
           (case (if data = None then Some (ts_datasize seg) else grow_buffer (al_block al) (al_realloc al) seg newdatasize) of
              None \<Rightarrow> Some (seg\<lparr>ts_datasize := 0\<rparr>, False)
            | Some datasize \<Rightarrow>
                let seg = seg\<lparr>ts_datasize := datasize\<rparr>
                in if whence \<noteq> 1 \<and> whence \<noteq> 2 then Some (seg, False)
                   else do {
                     samplecnt \<leftarrow> checked (ts_samplecnt seg + msr_samplecnt msr);
                     (let seg = (if whence = 1 then seg\<lparr>ts_endtime := endtime, ts_samplecnt := samplecnt\<rparr>
                                 else seg\<lparr>ts_starttime := msr_starttime msr, ts_samplecnt := samplecnt\<rparr>)
                      in case data of
                           None \<Rightarrow> Some (seg, True)
                         | Some b \<Rightarrow> do {
                             old \<leftarrow> seg_samples seg;
                             new \<leftarrow> first_samples (msr_sampletype msr) b (msr_numsamples msr);
                             both \<leftarrow> (if whence = 1 then append_samples old new else append_samples new old);
                             Some (seg\<lparr>ts_datasamples := Some both, ts_numsamples := ts_numsamples seg + msr_numsamples msr\<rparr>, True)
                           })
                   })
         })"

text \<open>
  Adding the coverage and records of a segment at the end of another. An empty record list
  has no last entry to link from.
\<close>

definition lm_addsegtoseg :: "allocs \<Rightarrow> MS3TraceSeg \<Rightarrow> MS3TraceSeg \<Rightarrow> (MS3TraceSeg \<times> bool) option" where
  "lm_addsegtoseg al seg1 seg2 =
     (let data = (case ts_datasamples seg2 of None \<Rightarrow> None | Some b \<Rightarrow> if ts_numsamples seg2 > 0 then Some b else None);
          samplesize = ms_samplesize (ts_sampletype seg1);
          recordlist = (case (ts_recordlist seg1, ts_recordlist seg2) of
              (r1, None) \<Rightarrow> r1
            | (None, r2) \<Rightarrow> r2
            | (Some r1, Some r2) \<Rightarrow> Some (r1 @ r2))
      in if data \<noteq> None \<and> ts_sampletype seg2 \<noteq> ts_sampletype seg1 then Some (seg1, False)
         else if data \<noteq> None \<and> samplesize = 0 then Some (seg1, False)
         else do {
           newdatasize \<leftarrow> (if data = None then Some 0 else data_bytes (ts_numsamples seg1) (ts_numsamples seg2) samplesize);
           (case (if data = None then Some (ts_datasize seg1) else grow_buffer (al_block al) (al_merge al) seg1 newdatasize) of
              None \<Rightarrow> Some (seg1\<lparr>ts_datasize := 0\<rparr>, False)
            | Some datasize \<Rightarrow>
                if ts_recordlist seg1 = Some [] \<and> ts_recordlist seg2 \<noteq> None then None
                else do {
                  samplecnt \<leftarrow> checked (ts_samplecnt seg1 + ts_samplecnt seg2);
                  (let seg = seg1\<lparr>ts_datasize := datasize, ts_endtime := ts_endtime seg2, ts_samplecnt := samplecnt\<rparr>
                   in case data of
                        None \<Rightarrow> Some (seg\<lparr>ts_recordlist := recordlist\<rparr>, True)
                      | Some b \<Rightarrow> do {
                          old \<leftarrow> seg_samples seg1;
                          new \<leftarrow> first_samples (ts_sampletype seg2) b (ts_numsamples seg2);
                          both \<leftarrow> append_samples old new;
                          Some (seg\<lparr>ts_datasamples := Some both, ts_numsamples := ts_numsamples seg1 + ts_numsamples seg2,
                            ts_recordlist := recordlist\<rparr>, True)
                        })
                })
         })"

text \<open>
  Adding a copy of the record to the record list. With a record list present only the ends
  are places to add, and an empty list has no last entry.
\<close>

definition lm_add_recordptr :: "allocs \<Rightarrow> MS3TraceSeg \<Rightarrow> MS3Record \<Rightarrow> int \<Rightarrow> int \<Rightarrow> (MS3TraceSeg \<times> bool) option" where
  "lm_add_recordptr al seg msr endtime whence =
     (if ts_recordlist seg \<noteq> None \<and> whence \<noteq> 1 \<and> whence \<noteq> 2 then Some (seg, False)
      else (case msr3_duplicate (al_recordptr al) (Some msr) False of
        None \<Rightarrow> Some (seg, False)
      | Some dup \<Rightarrow>
          let r = \<lparr>rp_msr = dup, rp_endtime = endtime\<rparr>
          in (case ts_recordlist seg of
               None \<Rightarrow> Some (seg\<lparr>ts_recordlist := Some [r]\<rparr>, True)
             | Some rs \<Rightarrow>
                 if whence = 2 then Some (seg\<lparr>ts_recordlist := Some (r # rs)\<rparr>, True)
                 else if rs = [] then None
                 else Some (seg\<lparr>ts_recordlist := Some (rs @ [r])\<rparr>, True))))"

subsection \<open>The list of segments\<close>

definition seg_at :: "segs \<Rightarrow> nat option \<Rightarrow> MS3TraceSeg option" where
  "seg_at segs p = (case p of None \<Rightarrow> None | Some a \<Rightarrow> segs a)"

text \<open>Writing to a member through a pointer, and the same where the pointer may be NULL and is tested first.\<close>

definition upd_seg :: "nat option \<Rightarrow> (MS3TraceSeg \<Rightarrow> MS3TraceSeg) \<Rightarrow> segs \<Rightarrow> segs option" where
  "upd_seg p f segs =
     (case p of None \<Rightarrow> None | Some a \<Rightarrow> (case segs a of None \<Rightarrow> None | Some s \<Rightarrow> Some (segs(a \<mapsto> f s))))"

definition upd_if :: "nat option \<Rightarrow> (MS3TraceSeg \<Rightarrow> MS3TraceSeg) \<Rightarrow> segs \<Rightarrow> segs option" where
  "upd_if p f segs = (if p = None then Some segs else upd_seg p f segs)"

abbreviation (input) "set_prev p \<equiv> \<lambda>s. s\<lparr>ts_prev := p\<rparr>"
abbreviation (input) "set_nxt p \<equiv> \<lambda>s. s\<lparr>ts_next := p\<rparr>"

text \<open>A new segment behind the last, before the first, or behind a given one.\<close>

definition link_last :: "MS3TraceID \<Rightarrow> nat \<Rightarrow> segs \<Rightarrow> (segs \<times> MS3TraceID) option" where
  "link_last tid p segs = do {
     segs \<leftarrow> upd_seg (id_last tid) (set_nxt (Some p)) segs;
     segs \<leftarrow> upd_seg (Some p) (set_prev (id_last tid)) segs;
     Some (segs, tid\<lparr>id_last := Some p, id_numsegments := id_numsegments tid + 1\<rparr>)
   }"

definition link_first :: "MS3TraceID \<Rightarrow> nat \<Rightarrow> segs \<Rightarrow> (segs \<times> MS3TraceID) option" where
  "link_first tid p segs = do {
     segs \<leftarrow> upd_seg (id_first tid) (set_prev (Some p)) segs;
     segs \<leftarrow> upd_seg (Some p) (set_nxt (id_first tid)) segs;
     Some (segs, tid\<lparr>id_first := Some p, id_numsegments := id_numsegments tid + 1\<rparr>)
   }"

definition link_behind :: "MS3TraceID \<Rightarrow> nat option \<Rightarrow> nat \<Rightarrow> segs \<Rightarrow> (segs \<times> MS3TraceID) option" where
  "link_behind tid follow p segs =
     (case follow of
        None \<Rightarrow> do {
          segs \<leftarrow> upd_seg (Some p) (set_nxt (id_first tid)) segs;
          segs \<leftarrow> upd_if (id_first tid) (set_prev (Some p)) segs;
          Some (segs, tid\<lparr>id_first := Some p, id_numsegments := id_numsegments tid + 1\<rparr>)
        }
      | Some f \<Rightarrow> do {
          fs \<leftarrow> segs f;
          segs \<leftarrow> upd_seg (Some p) (\<lambda>s. s\<lparr>ts_next := ts_next fs, ts_prev := Some f\<rparr>) segs;
          segs \<leftarrow> upd_if (ts_next fs) (set_prev (Some p)) segs;
          segs \<leftarrow> upd_seg (Some f) (set_nxt (Some p)) segs;
          Some (segs, tid\<lparr>id_last := (if Some f = id_last tid then Some p else id_last tid),
                          id_numsegments := id_numsegments tid + 1\<rparr>)
        })"

text \<open>
  Removing a segment that was merged into another. The pointer to the first segment is not
  looked at.
\<close>

definition unlink_merged :: "MS3TraceID \<Rightarrow> nat \<Rightarrow> segs \<Rightarrow> (segs \<times> MS3TraceID) option" where
  "unlink_merged tid p segs = do {
     last_prev \<leftarrow> (if Some p = id_last tid
       then (case seg_at segs (id_last tid) of None \<Rightarrow> None | Some l \<Rightarrow> Some (ts_prev l)) else Some (id_last tid));
     s \<leftarrow> segs p;
     segs \<leftarrow> upd_if (ts_prev s) (set_nxt (ts_next s)) segs;
     s \<leftarrow> segs p;
     segs \<leftarrow> upd_if (ts_next s) (set_prev (ts_prev s)) segs;
     Some (segs(p := None), tid\<lparr>id_last := last_prev, id_numsegments := id_numsegments tid - 1\<rparr>)
   }"

subsection \<open>Sorting the modified segment into place\<close>

definition starts_after :: "MS3TraceSeg \<Rightarrow> MS3TraceSeg \<Rightarrow> bool" where
  "starts_after s t \<longleftrightarrow>
     ts_starttime s > ts_starttime t \<or> (ts_starttime s = ts_starttime t \<and> ts_endtime s < ts_endtime t)"

definition swap_next :: "MS3TraceID \<Rightarrow> nat \<Rightarrow> segs \<Rightarrow> (segs \<times> MS3TraceID) option" where
  "swap_next tid p segs = do {
     s \<leftarrow> segs p;
     after \<leftarrow> ts_next s;
     segs \<leftarrow> upd_if (ts_prev s) (set_nxt (Some after)) segs;
     a \<leftarrow> segs after;
     segs \<leftarrow> upd_if (ts_next a) (set_prev (Some p)) segs;
     s \<leftarrow> segs p;
     segs \<leftarrow> upd_seg (Some after) (set_prev (ts_prev s)) segs;
     segs \<leftarrow> upd_seg (Some p) (set_prev (Some after)) segs;
     a \<leftarrow> segs after;
     segs \<leftarrow> upd_seg (Some p) (set_nxt (ts_next a)) segs;
     segs \<leftarrow> upd_seg (Some after) (set_nxt (Some p)) segs;
     Some (segs, tid\<lparr>id_first := (if id_first tid = Some p then Some after else id_first tid),
                     id_last := (if id_last tid = Some after then Some p else id_last tid)\<rparr>)
   }"

definition swap_prev :: "MS3TraceID \<Rightarrow> nat \<Rightarrow> segs \<Rightarrow> (segs \<times> MS3TraceID) option" where
  "swap_prev tid p segs = do {
     s \<leftarrow> segs p;
     before \<leftarrow> ts_prev s;
     segs \<leftarrow> upd_if (ts_next s) (set_prev (Some before)) segs;
     b \<leftarrow> segs before;
     segs \<leftarrow> upd_if (ts_prev b) (set_nxt (Some p)) segs;
     s \<leftarrow> segs p;
     segs \<leftarrow> upd_seg (Some before) (set_nxt (ts_next s)) segs;
     segs \<leftarrow> upd_seg (Some p) (set_nxt (Some before)) segs;
     b \<leftarrow> segs before;
     segs \<leftarrow> upd_seg (Some p) (set_prev (ts_prev b)) segs;
     segs \<leftarrow> upd_seg (Some before) (set_prev (Some p)) segs;
     Some (segs, tid\<lparr>id_first := (if id_first tid = Some before then Some p else id_first tid),
                     id_last := (if id_last tid = Some p then Some before else id_last tid)\<rparr>)
   }"

partial_function (option) sort_down :: "MS3TraceID \<Rightarrow> nat \<Rightarrow> segs \<Rightarrow> (segs \<times> MS3TraceID) option" where
  "sort_down tid p segs = do {
     s \<leftarrow> segs p;
     (if ts_next s = None then Some (segs, tid)
      else do {
        t \<leftarrow> seg_at segs (ts_next s);
        (if starts_after s t then do {
           (segs, tid) \<leftarrow> swap_next tid p segs;
           sort_down tid p segs
         }
         else Some (segs, tid))
      })
   }"

partial_function (option) sort_up :: "MS3TraceID \<Rightarrow> nat \<Rightarrow> segs \<Rightarrow> (segs \<times> MS3TraceID) option" where
  "sort_up tid p segs = do {
     s \<leftarrow> segs p;
     (if ts_prev s = None then Some (segs, tid)
      else do {
        t \<leftarrow> seg_at segs (ts_prev s);
        (if starts_after t s then do {
           (segs, tid) \<leftarrow> swap_prev tid p segs;
           sort_up tid p segs
         }
         else Some (segs, tid))
      })
   }"

declare sort_down.simps [code] sort_up.simps [code]

definition sort_into_place :: "MS3TraceID \<Rightarrow> nat \<Rightarrow> segs \<Rightarrow> (segs \<times> MS3TraceID) option" where
  "sort_into_place tid p segs = do {
     (segs, tid) \<leftarrow> sort_down tid p segs;
     sort_up tid p segs
   }"


subsection \<open>Links\<close>

text \<open>The nodes of a list are linked in both directions, from \<open>p\<close> before it to \<open>n\<close> behind it.\<close>

fun links :: "segs \<Rightarrow> nat option \<Rightarrow> nat list \<Rightarrow> nat option \<Rightarrow> bool" where
  "links h p [] n \<longleftrightarrow> True"
| "links h p (a # as) n \<longleftrightarrow>
     (\<exists>s. h a = Some s \<and> ts_prev s = p \<and> ts_next s = exit_of as n) \<and> links h (Some a) as n"

text \<open>A segment without its links.\<close>

definition payload :: "MS3TraceSeg \<Rightarrow> MS3TraceSeg" where
  "payload s = s\<lparr>ts_prev := None, ts_next := None\<rparr>"

text \<open>Two stores that differ in the links of the given addresses only.\<close>

definition same_payloads :: "nat set \<Rightarrow> segs \<Rightarrow> segs \<Rightarrow> bool" where
  "same_payloads A h h' \<longleftrightarrow>
     (\<forall>a. map_option payload (h' a) = map_option payload (h a)) \<and> (\<forall>a. a \<notin> A \<longrightarrow> h' a = h a)"

definition seglist :: "segs \<Rightarrow> MS3TraceID \<Rightarrow> nat list \<Rightarrow> bool" where
  "seglist h tid xs \<longleftrightarrow>
     links h None xs None \<and> distinct xs \<and> id_first tid = exit_of xs None \<and> id_last tid = last_of xs None"

lemma payload_links [simp]: "payload (s\<lparr>ts_prev := p\<rparr>) = payload s" "payload (s\<lparr>ts_next := p\<rparr>) = payload s"
  by (simp_all add: payload_def)

text \<open>The identifier is changed in its ends only.\<close>

definition only_ends :: "MS3TraceID \<Rightarrow> MS3TraceID \<Rightarrow> bool" where
  "only_ends tid tid' \<longleftrightarrow> (\<exists>f l. tid' = tid\<lparr>id_first := f, id_last := l\<rparr>)"

lemma only_ends_refl [simp]: "only_ends tid tid"
  unfolding only_ends_def by (intro exI [of _ "id_first tid"] exI [of _ "id_last tid"]) simp

lemma only_ends_trans: "only_ends tid tid' \<Longrightarrow> only_ends tid' tid'' \<Longrightarrow> only_ends tid tid''"
  unfolding only_ends_def by (elim exE) (simp, blast)

lemma exit_of_append: "exit_of (as @ bs) n = exit_of as (exit_of bs n)"
  by (cases as) simp_all

lemma last_of_append: "last_of (as @ bs) p = last_of bs (last_of as p)"
  by (simp add: last_of_def)

lemma links_append: "links h p (as @ bs) n \<longleftrightarrow> links h p as (exit_of bs n) \<and> links h (last_of as p) bs n"
  by (induction as arbitrary: p) (auto simp: exit_of_append)

lemma links_upd_other [simp]: "a \<notin> set as \<Longrightarrow> links (h(a := v)) p as n = links h p as n"
  by (induction as arbitrary: p) auto

lemma exit_of_swap:
  assumes "distinct (xs @ a # b # ys)"
  shows "(if exit_of (xs @ a # b # ys) None = Some a then Some b else exit_of (xs @ a # b # ys) None) = exit_of (xs @ b # a # ys) None"
  using assms by (cases xs) auto

lemma last_of_swap:
  assumes "distinct (xs @ a # b # ys)"
  shows "(if last_of (xs @ a # b # ys) None = Some b then Some a else last_of (xs @ a # b # ys) None) = last_of (xs @ b # a # ys) None"
  using assms by (cases ys rule: rev_cases) (auto simp: last_of_append)

lemma swap_next_spec:
  assumes "seglist h tid (xs @ a # b # ys)"
  shows "\<exists>h' tid'. swap_next tid a h = Some (h', tid') \<and> seglist h' tid' (xs @ b # a # ys) \<and> same_payloads (set (xs @ a # b # ys)) h h' \<and> only_ends tid tid'"
proof -
  have d: "distinct (xs @ a # b # ys)" and l: "links h None (xs @ a # b # ys) None" using assms by (simp_all add: seglist_def)
  define tid' where "tid' = tid\<lparr>id_first := (if id_first tid = Some a then Some b else id_first tid),
    id_last := (if id_last tid = Some b then Some a else id_last tid)\<rparr>"
  have "\<exists>h'. swap_next tid a h = Some (h', tid') \<and> links h' None (xs @ b # a # ys) None \<and> same_payloads (set (xs @ a # b # ys)) h h'"
    using d l by (cases xs rule: rev_cases; cases ys)
      (auto simp: links_append swap_next_def upd_if_def upd_seg_def same_payloads_def tid'_def)
  moreover have "id_first tid' = exit_of (xs @ b # a # ys) None" "id_last tid' = last_of (xs @ b # a # ys) None"
    using assms exit_of_swap [OF d] last_of_swap [OF d] by (simp_all cong: if_cong split del: if_split add: tid'_def seglist_def)
  moreover have "only_ends tid tid'" unfolding only_ends_def tid'_def by blast
  ultimately show ?thesis using d by (fastforce simp: seglist_def)
qed

lemma swap_prev_spec:
  assumes "seglist h tid (xs @ b # a # ys)"
  shows "\<exists>h' tid'. swap_prev tid a h = Some (h', tid') \<and> seglist h' tid' (xs @ a # b # ys) \<and> same_payloads (set (xs @ b # a # ys)) h h' \<and> only_ends tid tid'"
proof -
  have d: "distinct (xs @ b # a # ys)" and l: "links h None (xs @ b # a # ys) None" using assms by (simp_all add: seglist_def)
  define tid' where "tid' = tid\<lparr>id_first := (if id_first tid = Some b then Some a else id_first tid),
    id_last := (if id_last tid = Some a then Some b else id_last tid)\<rparr>"
  have "\<exists>h'. swap_prev tid a h = Some (h', tid') \<and> links h' None (xs @ a # b # ys) None \<and> same_payloads (set (xs @ b # a # ys)) h h'"
    using d l by (cases xs rule: rev_cases; cases ys)
      (auto simp: links_append swap_prev_def upd_if_def upd_seg_def same_payloads_def tid'_def)
  moreover have "id_first tid' = exit_of (xs @ a # b # ys) None" "id_last tid' = last_of (xs @ a # b # ys) None"
    using assms exit_of_swap [OF d] last_of_swap [OF d] by (simp_all cong: if_cong split del: if_split add: tid'_def seglist_def)
  moreover have "only_ends tid tid'" unfolding only_ends_def tid'_def by blast
  ultimately show ?thesis using d by (fastforce simp: seglist_def)
qed


lemma links_at:
  assumes "links h p (xs @ a # ys) n"
  shows "\<exists>s. h a = Some s \<and> ts_prev s = last_of xs p \<and> ts_next s = exit_of ys n"
  using assms by (simp add: links_append)

lemma same_payloads_trans: "same_payloads A h h' \<Longrightarrow> same_payloads B h' h'' \<Longrightarrow> B \<subseteq> A \<Longrightarrow> same_payloads A h h''"
  unfolding same_payloads_def by (metis subsetD)

lemma same_payloads_refl [simp]: "same_payloads A h h"
  by (simp add: same_payloads_def)

subsection \<open>Order\<close>

text \<open>The segments in the store: defined everywhere, without their links.\<close>

definition the_seg :: "segs \<Rightarrow> nat \<Rightarrow> MS3TraceSeg" where
  "the_seg h a = payload (the (h a))"

lemma the_seg_same: "same_payloads A h h' \<Longrightarrow> the_seg h' a = the_seg h a" if "h a \<noteq> None"
proof -
  assume "same_payloads A h h'"
  then have "map_option payload (h' a) = map_option payload (h a)" by (simp add: same_payloads_def)
  then show ?thesis using that by (cases "h' a"; cases "h a") (simp_all add: the_seg_def)
qed

lemma starts_after_payload [simp]: "starts_after (payload s) (payload t) = starts_after s t"
  by (simp add: starts_after_def payload_def)

text \<open>In time order: no segment starts after the one that follows it.\<close>

definition in_order :: "segs \<Rightarrow> nat list \<Rightarrow> bool" where
  "in_order h xs \<longleftrightarrow> sorted_wrt (\<lambda>a b. \<not> starts_after (the_seg h a) (the_seg h b)) xs"

lemma starts_after_trans: "\<not> starts_after s t \<Longrightarrow> \<not> starts_after t u \<Longrightarrow> \<not> starts_after s u"
  by (auto simp: starts_after_def)

lemma starts_after_total: "starts_after s t \<Longrightarrow> \<not> starts_after t s"
  by (auto simp: starts_after_def)

lemma links_defined: "links h p xs n \<Longrightarrow> a \<in> set xs \<Longrightarrow> h a \<noteq> None"
  by (induction xs arbitrary: p) auto

text \<open>Sinking moves the segment behind those it starts after.\<close>

lemma sort_down_spec:
  assumes "seglist h tid (xs @ a # ys)"
  shows "\<exists>h' tid' us vs. sort_down tid a h = Some (h', tid') \<and> ys = us @ vs \<and> seglist h' tid' (xs @ us @ a # vs) \<and>
    same_payloads (set (xs @ a # ys)) h h' \<and> only_ends tid tid' \<and> (\<forall>b\<in>set us. starts_after (the_seg h a) (the_seg h b)) \<and>
    (case vs of [] \<Rightarrow> True | b # _ \<Rightarrow> \<not> starts_after (the_seg h a) (the_seg h b))"
  using assms
proof (induction ys arbitrary: xs h tid)
  case Nil
  then have "\<exists>s. h a = Some s \<and> ts_prev s = last_of xs None \<and> ts_next s = None"
    using links_at [of h None xs a "[]" None] by (simp add: seglist_def)
  then have "sort_down tid a h = Some (h, tid)" by (subst sort_down.simps) auto
  then show ?case using Nil by auto
next
  case (Cons b ys)
  obtain s where s: "h a = Some s" "ts_next s = Some b"
    using links_at [of h None xs a "b # ys" None] Cons.prems by (auto simp: seglist_def)
  obtain t where t: "h b = Some t"
    using links_at [of h None "xs @ [a]" b ys None] Cons.prems by (auto simp: seglist_def)
  have e: "starts_after (the_seg h a) (the_seg h b) = starts_after s t" using s t by (simp add: the_seg_def)
  note loop = sort_down.simps [of tid a h]
  show ?case
  proof (cases "starts_after s t")
    case False
    then have "sort_down tid a h = Some (h, tid)" using s t by (subst loop) (simp add: seg_at_def)
    then show ?thesis using Cons.prems False e by fastforce
  next
    case True
    obtain h1 tid1 where h1: "swap_next tid a h = Some (h1, tid1)" "seglist h1 tid1 ((xs @ [b]) @ a # ys)" "same_payloads (set (xs @ a # b # ys)) h h1" "only_ends tid tid1"
      using swap_next_spec [OF Cons.prems] by auto
    from Cons.IH [OF h1(2)] obtain h' tid' us vs where r: "sort_down tid1 a h1 = Some (h', tid')" "ys = us @ vs"
      "seglist h' tid' ((xs @ [b]) @ us @ a # vs)" "same_payloads (set ((xs @ [b]) @ a # ys)) h1 h'" "only_ends tid1 tid'" "\<forall>c\<in>set us. starts_after (the_seg h1 a) (the_seg h1 c)"
      "case vs of [] \<Rightarrow> True | c # _ \<Rightarrow> \<not> starts_after (the_seg h1 a) (the_seg h1 c)" by blast
    have same: "the_seg h1 c = the_seg h c" if "c \<in> set (xs @ a # b # ys)" for c
      using that links_defined Cons.prems the_seg_same [OF _ h1(3)] by (auto simp: seglist_def)
    have step: "sort_down tid a h = Some (h', tid')" using True s t h1(1) r(1) by (subst loop) (simp add: seg_at_def)
    have us: "\<forall>c\<in>set (b # us). starts_after (the_seg h a) (the_seg h c)" using r(2,6) same e True by auto
    have vs: "case vs of [] \<Rightarrow> True | c # _ \<Rightarrow> \<not> starts_after (the_seg h a) (the_seg h c)"
      using r(2,7) same by (cases vs) auto
    show ?thesis
      using step r(2,3) us vs same_payloads_trans [OF h1(3) r(4)] only_ends_trans [OF h1(4) r(5)]
      by (intro exI [of _ h'] exI [of _ tid'] exI [of _ "b # us"] exI [of _ vs]) auto
  qed
qed


lemma sort_up_spec:
  assumes "seglist h tid (xs @ a # ys)"
  shows "\<exists>h' tid' us vs. sort_up tid a h = Some (h', tid') \<and> xs = us @ vs \<and> seglist h' tid' (us @ a # vs @ ys) \<and>
    same_payloads (set (xs @ a # ys)) h h' \<and> only_ends tid tid' \<and> (\<forall>b\<in>set vs. starts_after (the_seg h b) (the_seg h a)) \<and>
    (us \<noteq> [] \<longrightarrow> \<not> starts_after (the_seg h (last us)) (the_seg h a))"
  using assms
proof (induction xs arbitrary: ys h tid rule: rev_induct)
  case Nil
  then have "\<exists>s. h a = Some s \<and> ts_prev s = None"
    using links_at [of h None "[]" a ys None] by (auto simp: seglist_def)
  then have "sort_up tid a h = Some (h, tid)" by (subst sort_up.simps) auto
  then show ?case using Nil by auto
next
  case (snoc b xs)
  have prems: "seglist h tid (xs @ b # a # ys)" using snoc.prems by simp
  obtain s where s: "h a = Some s" "ts_prev s = Some b"
    using links_at [of h None "xs @ [b]" a ys None] snoc.prems by (auto simp: seglist_def)
  obtain t where t: "h b = Some t"
    using links_at [of h None xs b "a # ys" None] prems by (auto simp: seglist_def)
  have e: "starts_after (the_seg h b) (the_seg h a) = starts_after t s" using s t by (simp add: the_seg_def)
  note loop = sort_up.simps [of tid a h]
  show ?case
  proof (cases "starts_after t s")
    case False
    then have "sort_up tid a h = Some (h, tid)" using s t by (subst loop) (simp add: seg_at_def)
    then show ?thesis using snoc.prems False e by (intro exI [of _ h] exI [of _ tid] exI [of _ "xs @ [b]"] exI [of _ "[]"]) simp
  next
    case True
    obtain h1 tid1 where h1: "swap_prev tid a h = Some (h1, tid1)" "seglist h1 tid1 (xs @ a # b # ys)" "same_payloads (set (xs @ b # a # ys)) h h1" "only_ends tid tid1"
      using swap_prev_spec [OF prems] by auto
    from snoc.IH [OF h1(2)] obtain h' tid' us vs where r: "sort_up tid1 a h1 = Some (h', tid')" "xs = us @ vs"
      "seglist h' tid' (us @ a # vs @ b # ys)" "same_payloads (set (xs @ a # b # ys)) h1 h'" "only_ends tid1 tid'" "\<forall>c\<in>set vs. starts_after (the_seg h1 c) (the_seg h1 a)"
      "us \<noteq> [] \<longrightarrow> \<not> starts_after (the_seg h1 (last us)) (the_seg h1 a)" by blast
    have same: "the_seg h1 c = the_seg h c" if "c \<in> set (xs @ b # a # ys)" for c
      using that links_defined prems the_seg_same [OF _ h1(3)] by (auto simp: seglist_def)
    have step: "sort_up tid a h = Some (h', tid')" using True s t h1(1) r(1) by (subst loop) (simp add: seg_at_def)
    have vs: "\<forall>c\<in>set (vs @ [b]). starts_after (the_seg h c) (the_seg h a)" using r(2,6) same e True by auto
    have us: "us \<noteq> [] \<longrightarrow> \<not> starts_after (the_seg h (last us)) (the_seg h a)" using r(2,7) same by auto
    show ?thesis
      using step r(2,3) us vs same_payloads_trans [OF h1(3) r(4)] only_ends_trans [OF h1(4) r(5)]
      by (intro exI [of _ h'] exI [of _ tid'] exI [of _ us] exI [of _ "vs @ [b]"]) auto
  qed
qed

lemma in_order_append:
  "in_order h (xs @ ys) \<longleftrightarrow> in_order h xs \<and> in_order h ys \<and> (\<forall>a\<in>set xs. \<forall>b\<in>set ys. \<not> starts_after (the_seg h a) (the_seg h b))"
  by (simp add: in_order_def sorted_wrt_append)

lemma in_order_Cons:
  "in_order h (a # ys) \<longleftrightarrow> (\<forall>b\<in>set ys. \<not> starts_after (the_seg h a) (the_seg h b)) \<and> in_order h ys"
  by (simp add: in_order_def)

lemma in_order_from_hd:
  assumes "in_order h vs" "case vs of [] \<Rightarrow> True | b # _ \<Rightarrow> \<not> starts_after s (the_seg h b)" "c \<in> set vs"
  shows "\<not> starts_after s (the_seg h c)"
  using assms starts_after_trans by (cases vs) (auto simp: in_order_Cons)

lemma in_order_to_last:
  assumes "in_order h us" "us \<noteq> [] \<longrightarrow> \<not> starts_after (the_seg h (last us)) s" "c \<in> set us"
  shows "\<not> starts_after (the_seg h c) s"
  using assms starts_after_trans by (cases us rule: rev_cases) (auto simp: in_order_append in_order_Cons)

lemma in_order_same:
  assumes "same_payloads A h h'" "\<forall>a\<in>set xs. h a \<noteq> None"
  shows "in_order h' xs = in_order h xs"
proof -
  have "the_seg h' a = the_seg h a" if "a \<in> set xs" for a using assms that the_seg_same by blast
  then show ?thesis unfolding in_order_def by (auto elim!: sorted_wrt_mono_rel [rotated])
qed

text \<open>
  Both loops return, and the modified segment goes to a place where the whole list is in
  order when the rest of it is.
\<close>

lemma sort_into_place_spec:
  assumes "seglist h tid (xs @ a # ys)" "in_order h (xs @ ys)"
  shows "\<exists>h' tid' us vs. sort_into_place tid a h = Some (h', tid') \<and> xs @ ys = us @ vs \<and> seglist h' tid' (us @ a # vs) \<and>
    in_order h' (us @ a # vs) \<and> same_payloads (set (xs @ a # ys)) h h' \<and> only_ends tid tid'"
proof -
  obtain h1 tid1 us vs where 1: "sort_down tid a h = Some (h1, tid1)" "ys = us @ vs" "seglist h1 tid1 ((xs @ us) @ a # vs)"
    "same_payloads (set (xs @ a # ys)) h h1" "only_ends tid tid1" "case vs of [] \<Rightarrow> True | b # _ \<Rightarrow> \<not> starts_after (the_seg h a) (the_seg h b)"
    using sort_down_spec [OF assms(1)] by auto
  obtain h2 tid2 ps qs where 2: "sort_up tid1 a h1 = Some (h2, tid2)" "xs @ us = ps @ qs" "seglist h2 tid2 (ps @ a # qs @ vs)"
    "same_payloads (set ((xs @ us) @ a # vs)) h1 h2" "only_ends tid1 tid2" "\<forall>b\<in>set qs. starts_after (the_seg h1 b) (the_seg h1 a)"
    "ps \<noteq> [] \<longrightarrow> \<not> starts_after (the_seg h1 (last ps)) (the_seg h1 a)"
    using sort_up_spec [OF 1(3)] by blast
  have all: "xs @ ys = ps @ qs @ vs" using 1(2) 2(2) by (metis append.assoc)
  have defd: "\<forall>b\<in>set (a # xs @ ys). h b \<noteq> None" using assms(1) links_defined by (auto simp: seglist_def)
  have same: "the_seg h1 b = the_seg h b" if "b \<in> set (a # xs @ ys)" for b
    using that defd the_seg_same [OF _ 1(4)] by blast
  have order: "in_order h ps" "in_order h (qs @ vs)" "in_order h vs"
    and across: "\<forall>b\<in>set ps. \<forall>c\<in>set (qs @ vs). \<not> starts_after (the_seg h b) (the_seg h c)"
    using assms(2) unfolding all by (simp_all add: in_order_append)
  have ps: "\<not> starts_after (the_seg h b) (the_seg h a)" if "b \<in> set ps" for b
  proof -
    have "last ps \<in> set (xs @ ys)" if "ps \<noteq> []" using all that by simp
    then have "ps \<noteq> [] \<longrightarrow> \<not> starts_after (the_seg h (last ps)) (the_seg h a)" using 2(7) same by simp
    from in_order_to_last [OF order(1) this that] show ?thesis .
  qed
  have qs: "\<not> starts_after (the_seg h a) (the_seg h b)" if "b \<in> set qs" for b
  proof -
    have "b \<in> set (xs @ ys)" using that all by simp
    then have "starts_after (the_seg h b) (the_seg h a)" using bspec [OF 2(6) that] same [of b] same [of a] by simp
    then show ?thesis by (rule starts_after_total)
  qed
  have "in_order h (ps @ a # qs @ vs)"
    using order across ps qs in_order_from_hd [OF order(3) 1(6)] by (auto simp: in_order_append in_order_Cons)
  moreover have both: "same_payloads (set (xs @ a # ys)) h h2"
    using 1(2) by (intro same_payloads_trans [OF 1(4) 2(4)]) auto
  moreover have "\<forall>b\<in>set (ps @ a # qs @ vs). h b \<noteq> None" using defd all by (metis list.set_intros(1) list.set_intros(2) Un_iff set_append set_ConsD)
  ultimately have "in_order h2 (ps @ a # qs @ vs)" using in_order_same [OF both] by blast
  then show ?thesis
    using 1(1) 2(1,3) all both only_ends_trans [OF 1(5) 2(5)]
    by (intro exI [of _ h2] exI [of _ tid2] exI [of _ ps] exI [of _ "qs @ vs"]) (simp add: sort_into_place_def)
qed


subsection \<open>Linking and unlinking\<close>

lemma link_last_spec:
  assumes "seglist h tid xs" "xs \<noteq> []" "a \<notin> set xs" "h a = Some s" "ts_next s = None"
  shows "\<exists>h' tid'. link_last tid a h = Some (h', tid') \<and> seglist h' tid' (xs @ [a]) \<and> same_payloads (insert a (set xs)) h h' \<and>
    tid' = tid\<lparr>id_last := Some a, id_numsegments := id_numsegments tid + 1\<rparr>"
proof -
  obtain us b where xs: "xs = us @ [b]" using assms(2) by (cases xs rule: rev_cases) auto
  have l: "links h None (us @ [b]) None" "distinct (us @ [b, a])" "id_first tid = exit_of (us @ [b]) None" "id_last tid = Some b"
    using assms(1,3) xs by (auto simp: seglist_def)
  then have "\<exists>h'. link_last tid a h = Some (h', tid\<lparr>id_last := Some a, id_numsegments := id_numsegments tid + 1\<rparr>) \<and>
      links h' None (us @ [b, a]) None \<and> same_payloads (insert a (set xs)) h h'"
    using assms(4,5) by (auto simp: link_last_def upd_seg_def links_append same_payloads_def xs)
  then show ?thesis using l(2,3) xs by (auto simp: seglist_def exit_of_append last_of_append)
qed

lemma link_first_spec:
  assumes "seglist h tid xs" "xs \<noteq> []" "a \<notin> set xs" "h a = Some s" "ts_prev s = None"
  shows "\<exists>h' tid'. link_first tid a h = Some (h', tid') \<and> seglist h' tid' (a # xs) \<and> same_payloads (insert a (set xs)) h h' \<and>
    tid' = tid\<lparr>id_first := Some a, id_numsegments := id_numsegments tid + 1\<rparr>"
proof -
  obtain b us where xs: "xs = b # us" using assms(2) by (cases xs) auto
  have l: "links h None (b # us) None" "distinct (a # b # us)" "id_first tid = Some b" "id_last tid = last_of us (Some b)"
    using assms(1,3) xs by (auto simp: seglist_def)
  then have "\<exists>h'. link_first tid a h = Some (h', tid\<lparr>id_first := Some a, id_numsegments := id_numsegments tid + 1\<rparr>) \<and>
      links h' None (a # b # us) None \<and> same_payloads (insert a (set xs)) h h'"
    using assms(4,5) by (auto simp: link_first_def upd_seg_def same_payloads_def xs)
  then show ?thesis using l(2,4) xs by (auto simp: seglist_def)
qed

lemma link_behind_none_spec:
  assumes "seglist h tid xs" "a \<notin> set xs" "h a = Some s" "ts_prev s = None" "xs \<noteq> []"
  shows "\<exists>h' tid'. link_behind tid None a h = Some (h', tid') \<and> seglist h' tid' (a # xs) \<and> same_payloads (insert a (set xs)) h h' \<and>
    tid' = tid\<lparr>id_first := Some a, id_numsegments := id_numsegments tid + 1\<rparr>"
proof -
  obtain b us where xs: "xs = b # us" using assms(5) by (cases xs) auto
  have l: "links h None (b # us) None" "distinct (a # b # us)" "id_first tid = Some b" "id_last tid = last_of us (Some b)"
    using assms(1,2) xs by (auto simp: seglist_def)
  then have "\<exists>h'. link_behind tid None a h = Some (h', tid\<lparr>id_first := Some a, id_numsegments := id_numsegments tid + 1\<rparr>) \<and>
      links h' None (a # b # us) None \<and> same_payloads (insert a (set xs)) h h'"
    using assms(3,4) by (auto simp: link_behind_def upd_seg_def upd_if_def same_payloads_def xs)
  then show ?thesis using l(2,4) xs by (auto simp: seglist_def)
qed

lemma last_of_is:
  assumes "distinct (us @ f # vs)"
  shows "(if Some f = last_of (us @ f # vs) None then Some a else last_of (us @ f # vs) None) = last_of (us @ f # a # vs) None"
  using assms by (cases vs rule: rev_cases) (auto simp: last_of_append)

lemma link_behind_spec:
  assumes "seglist h tid (us @ f # vs)" "a \<notin> set (us @ f # vs)" "h a = Some s"
  shows "\<exists>h' tid'. link_behind tid (Some f) a h = Some (h', tid') \<and> seglist h' tid' (us @ f # a # vs) \<and> same_payloads (set (us @ f # a # vs)) h h' \<and>
    tid' = tid\<lparr>id_last := (if Some f = id_last tid then Some a else id_last tid), id_numsegments := id_numsegments tid + 1\<rparr>"
proof -
  have l: "links h None (us @ f # vs) None" and d: "distinct (us @ f # vs)" "distinct (us @ f # a # vs)"
    and ends: "id_first tid = exit_of (us @ f # vs) None" "id_last tid = last_of (us @ f # vs) None"
    using assms(1,2) by (auto simp: seglist_def)
  have "\<exists>h'. link_behind tid (Some f) a h = Some (h', tid\<lparr>id_last := (if Some f = id_last tid then Some a else id_last tid),
      id_numsegments := id_numsegments tid + 1\<rparr>) \<and> links h' None (us @ f # a # vs) None \<and> same_payloads (set (us @ f # a # vs)) h h'"
    using l d assms(3) by (cases vs) (auto simp: link_behind_def upd_seg_def upd_if_def links_append same_payloads_def payload_def)
  moreover have "id_first tid = exit_of (us @ f # a # vs) None" using ends(1) by (simp add: exit_of_append)
  moreover have "(if Some f = id_last tid then Some a else id_last tid) = last_of (us @ f # a # vs) None"
    unfolding ends(2) by (rule last_of_is [OF d(1)])
  ultimately show ?thesis using d(2) by (auto simp: seglist_def)
qed

text \<open>The segment to remove has one before it, so the pointer to the first stays right.\<close>

lemma unlink_merged_spec:
  assumes "seglist h tid (us @ a # vs)" "us \<noteq> []"
  shows "\<exists>h' tid'. unlink_merged tid a h = Some (h', tid') \<and> seglist h' tid' (us @ vs) \<and>
    (\<forall>b. b \<noteq> a \<longrightarrow> map_option payload (h' b) = map_option payload (h b)) \<and> h' a = None \<and>
    (\<forall>b. b \<notin> set (us @ a # vs) \<longrightarrow> h' b = h b) \<and>
    tid' = tid\<lparr>id_last := id_last tid', id_numsegments := id_numsegments tid - 1\<rparr>"
proof -
  obtain ws b where us: "us = ws @ [b]" using assms(2) by (cases us rule: rev_cases) auto
  have l: "links h None (ws @ b # a # vs) None" and d: "distinct (ws @ b # a # vs)"
    and ends: "id_first tid = exit_of (ws @ b # a # vs) None" "id_last tid = last_of (ws @ b # a # vs) None"
    using assms(1) us by (simp_all add: seglist_def)
  define l' where "l' = last_of (ws @ b # vs) None"
  have "\<exists>h'. unlink_merged tid a h = Some (h', tid\<lparr>id_last := l', id_numsegments := id_numsegments tid - 1\<rparr>) \<and>
      links h' None (ws @ b # vs) None \<and> (\<forall>c. c \<noteq> a \<longrightarrow> map_option payload (h' c) = map_option payload (h c)) \<and> h' a = None \<and>
      (\<forall>c. c \<notin> set (ws @ b # a # vs) \<longrightarrow> h' c = h c)"
  proof (cases vs)
    case Nil
    then show ?thesis using l d ends
      by (auto simp: unlink_merged_def upd_seg_def upd_if_def seg_at_def links_append last_of_append l'_def)
  next
    case (Cons c zs)
    have "Some a \<noteq> id_last tid" "id_last tid = l'"
      using d ends Cons by (auto simp: l'_def last_of_append) (auto simp: last_of_def split: if_splits)
    then show ?thesis using l d Cons
      by (auto simp: unlink_merged_def upd_seg_def upd_if_def seg_at_def links_append)
  qed
  then show ?thesis using d ends us by (auto simp: seglist_def l'_def exit_of_append)
qed

text \<open>Changing a segment but not its links.\<close>

lemma links_upd_same:
  assumes "h a = Some s" "ts_prev s' = ts_prev s" "ts_next s' = ts_next s"
  shows "links (h(a \<mapsto> s')) p xs n = links h p xs n"
  using assms by (induction xs arbitrary: p) auto

lemma seglist_upd_same:
  assumes "h a = Some s" "ts_prev s' = ts_prev s" "ts_next s' = ts_next s"
  shows "seglist (h(a \<mapsto> s')) tid xs = seglist h tid xs"
  by (simp add: seglist_def links_upd_same [where h = h and a = a and s = s and s' = s', OF assms])

end
