(* ===== verification/TraceList.thy ===== *)
theory TraceList
  imports SkipList TraceSegs
begin

text \<open>
  Adding a record to a trace list: \<open>_mstl3_addmsr_impl\<close> of tracelist.c. A value of \<open>None\<close>
  for the segment is the NULL the code returns on an error; the store then has what was
  already changed. The system time and the outcomes of the allocations are parameters.
\<close>

subsection \<open>Tolerances\<close>

definition f_abs :: "double \<Rightarrow> double" where
  "f_abs w = w AND 0x7FFFFFFFFFFFFFFF"

definition MS_ISRATETOLERABLE :: "double \<Rightarrow> double \<Rightarrow> bool" where
  "MS_ISRATETOLERABLE a b = f_less (f_abs (f_add f_one (f_neg (f_div a b)))) 0x3F1A36E2EB1C432D"

text \<open>With a tolerance the macro asks for a difference above it.\<close>

definition IS_SAMPRATE_SIMILAR :: "double \<Rightarrow> double \<Rightarrow> double \<Rightarrow> bool" where
  "IS_SAMPRATE_SIMILAR sr1 sr2 srt =
     (if f_less 0 srt then f_less srt (f_abs (f_add sr1 (f_neg sr2))) else MS_ISRATETOLERABLE sr1 sr2)"

record MS3Tolerance =
  tol_time :: "(MS3Record \<Rightarrow> double) option"
  tol_samprate :: "(MS3Record \<Rightarrow> double) option"

text \<open>What the search compares of a record.\<close>

record coverage =
  cv_start :: int
  cv_end :: int
  cv_period :: int
  cv_tol :: int
  cv_rate :: double
  cv_ratetol :: double

definition record_coverage :: "MS3Record \<Rightarrow> int \<Rightarrow> MS3Tolerance option \<Rightarrow> coverage option" where
  "record_coverage msr endtime tolerance = do {
     nsperiod \<leftarrow> defined_value (msr3_nsperiod (Some msr));
     nstimetol \<leftarrow> defined_value (
       case Option.bind tolerance tol_time of
         Some time \<Rightarrow> f_to_int64 (f_mul (f_of_int NSTMODULUS) (time msr))
       | None \<Rightarrow> f_to_int64 (f_mul f_half (f_of_int nsperiod)));
     _ \<leftarrow> checked (- nstimetol);
     Some \<lparr>cv_start = msr_starttime msr, cv_end = endtime, cv_period = nsperiod, cv_tol = nstimetol,
           cv_rate = msr3_sampratehz (Some msr),
           cv_ratetol = (case Option.bind tolerance tol_samprate of Some samprate \<Rightarrow> samprate msr | None \<Rightarrow> f_neg f_one)\<rparr>
   }"

text \<open>The gap from one time to another less a sample period.\<close>

definition gap_after :: "int \<Rightarrow> int \<Rightarrow> int \<Rightarrow> int option" where
  "gap_after time before nsperiod = do { d \<leftarrow> checked (time - before); checked (d - nsperiod) }"

definition fits_gap :: "coverage \<Rightarrow> int \<Rightarrow> bool" where
  "fits_gap cv gap \<longleftrightarrow> gap \<le> cv_tol cv \<and> gap \<ge> - cv_tol cv"

subsection \<open>Searching the segments\<close>

text \<open>The first segment with a gap within the tolerances: what was found before, or this one.\<close>

definition match_gap :: "coverage \<Rightarrow> MS3TraceSeg \<Rightarrow> nat \<Rightarrow> int \<Rightarrow> int \<Rightarrow> nat option \<Rightarrow> nat option option" where
  "match_gap cv s a time before found =
     (if found \<noteq> None then Some found
      else do {
        gap \<leftarrow> gap_after time before (cv_period cv);
        Some (if fits_gap cv gap \<and> IS_SAMPRATE_SIMILAR (cv_rate cv) (ts_samprate s) (cv_ratetol cv) then Some a else None)
      })"

text \<open>The segment the record continues, the one that continues it, and the one to insert it behind.\<close>

type_synonym matches = "nat option \<times> nat option \<times> nat option"

partial_function (option) search_loop :: "coverage \<Rightarrow> bool \<Rightarrow> segs \<Rightarrow> nat option \<Rightarrow> matches \<Rightarrow> matches option" where
  "search_loop cv autoheal segs p found =
     (case p of
        None \<Rightarrow> Some found
      | Some a \<Rightarrow> do {
          s \<leftarrow> segs a;
          (case found of (segbefore, segafter, follow) \<Rightarrow>
             if \<not> SEGMENT_HAS_TIME_COVERAGE s then search_loop cv autoheal segs (ts_next s) found
             else if autoheal \<and> cv_start cv = ts_starttime s \<and> cv_end cv = ts_endtime s
             then Some (segbefore, segafter, Some a)
             else do {
               segbefore \<leftarrow> match_gap cv s a (cv_start cv) (ts_endtime s) segbefore;
               segafter \<leftarrow> match_gap cv s a (ts_starttime s) (cv_end cv) segafter;
               (let found = (segbefore, segafter, if cv_start cv > ts_starttime s then Some a else follow)
                in if segbefore \<noteq> None \<and> segafter \<noteq> None then Some found
                   else if \<not> autoheal \<and> (segbefore \<noteq> None \<or> segafter \<noteq> None) then Some found
                   else search_loop cv autoheal segs (ts_next s) found)
             })
        })"

declare search_loop.simps [code]

subsection \<open>Adding to an identifier\<close>

type_synonym added = "MS3TraceList \<times> MS3TraceID \<times> nat option"

definition put_seg :: "nat \<Rightarrow> MS3TraceSeg \<Rightarrow> MS3TraceList \<Rightarrow> MS3TraceList" where
  "put_seg p s st = st\<lparr>tl_segs := (tl_segs st)(p \<mapsto> s)\<rparr>"

definition put_segs :: "segs \<Rightarrow> MS3TraceList \<Rightarrow> MS3TraceList" where
  "put_segs segs st = st\<lparr>tl_segs := segs\<rparr>"

definition create_seg :: "allocs \<Rightarrow> MS3Record \<Rightarrow> int \<Rightarrow> MS3TraceList \<Rightarrow> (MS3TraceList \<times> nat option) option" where
  "create_seg al msr endtime st =
     (case allocate (al_malloc al) st of
        (st, None) \<Rightarrow> Some (st, None)
      | (st, Some p) \<Rightarrow> do {
          r \<leftarrow> lm_msr2seg al msr endtime;
          (case r of None \<Rightarrow> Some (st, None) | Some s \<Rightarrow> Some (put_seg p s st, Some p))
        })"

definition extend_seg ::
  "allocs \<Rightarrow> MS3Record \<Rightarrow> int \<Rightarrow> int \<Rightarrow> nat \<Rightarrow> MS3TraceList \<Rightarrow> (MS3TraceList \<times> bool) option" where
  "extend_seg al msr endtime whence p st = do {
     s \<leftarrow> tl_segs st p;
     (s, ok) \<leftarrow> lm_addmsrtoseg al s msr endtime whence;
     Some (put_seg p s st, ok)
   }"

text \<open>The record list entry, when one is wanted.\<close>

definition add_pointer ::
  "allocs \<Rightarrow> bool \<Rightarrow> MS3Record \<Rightarrow> int \<Rightarrow> int \<Rightarrow> nat \<Rightarrow> MS3TraceList \<Rightarrow> (MS3TraceList \<times> bool) option" where
  "add_pointer al want msr endtime whence p st =
     (if \<not> want then Some (st, True)
      else do {
        s \<leftarrow> tl_segs st p;
        (s, ok) \<leftarrow> lm_add_recordptr al s msr endtime whence;
        Some (put_seg p s st, ok)
      })"

definition later :: "int \<Rightarrow> MS3TraceID \<Rightarrow> MS3TraceID" where
  "later endtime tid = (if endtime > id_latest tid then tid\<lparr>id_latest := endtime\<rparr> else tid)"

definition earlier :: "int \<Rightarrow> MS3TraceID \<Rightarrow> MS3TraceID" where
  "earlier starttime tid = (if starttime < id_earliest tid then tid\<lparr>id_earliest := starttime\<rparr> else tid)"

definition extend_end ::
  "allocs \<Rightarrow> bool \<Rightarrow> MS3Record \<Rightarrow> int \<Rightarrow> int \<Rightarrow> nat \<Rightarrow> (MS3TraceID \<Rightarrow> MS3TraceID) \<Rightarrow> MS3TraceList \<Rightarrow> MS3TraceID \<Rightarrow> added option" where
  "extend_end al want msr endtime whence p track st tid = do {
     (st, ok) \<leftarrow> extend_seg al msr endtime whence p st;
     (if \<not> ok then Some (st, tid, None)
      else do {
        (st, ok) \<leftarrow> add_pointer al want msr endtime whence p st;
        Some (st, track tid, if ok then Some p else None)
      })
   }"

definition new_end ::
  "allocs \<Rightarrow> bool \<Rightarrow> MS3Record \<Rightarrow> int \<Rightarrow> (MS3TraceID \<Rightarrow> nat \<Rightarrow> segs \<Rightarrow> (segs \<times> MS3TraceID) option) \<Rightarrow>
   (MS3TraceID \<Rightarrow> MS3TraceID) \<Rightarrow> MS3TraceList \<Rightarrow> MS3TraceID \<Rightarrow> added option" where
  "new_end al want msr endtime link track st tid = do {
     (st, created) \<leftarrow> create_seg al msr endtime st;
     (case created of
        None \<Rightarrow> Some (st, tid, None)
      | Some p \<Rightarrow> do {
          (segs, tid) \<leftarrow> link tid p (tl_segs st);
          (st, ok) \<leftarrow> add_pointer al want msr endtime 0 p (put_segs segs st);
          Some (st, track tid, if ok then Some p else None)
        })
   }"

text \<open>Merging two segments that the record joins.\<close>

definition merge_segs :: "allocs \<Rightarrow> nat \<Rightarrow> nat \<Rightarrow> MS3TraceList \<Rightarrow> MS3TraceID \<Rightarrow> added option" where
  "merge_segs al b a st tid = do {
     s1 \<leftarrow> tl_segs st b;
     s2 \<leftarrow> tl_segs st a;
     (s1, ok) \<leftarrow> lm_addsegtoseg al s1 s2;
     (let st = put_seg b s1 st
      in if \<not> ok then Some (st, tid, None)
         else do {
           (segs, tid) \<leftarrow> unlink_merged tid a (tl_segs st);
           Some (put_segs segs st, tid, Some b)
         })
   }"

definition place_found ::
  "allocs \<Rightarrow> bool \<Rightarrow> bool \<Rightarrow> MS3Record \<Rightarrow> int \<Rightarrow> matches \<Rightarrow> MS3TraceList \<Rightarrow> MS3TraceID \<Rightarrow> added option" where
  "place_found al want autoheal msr endtime found st tid =
     (case found of
        (Some b, segafter, _) \<Rightarrow> do {
          (st, tid, r) \<leftarrow> extend_end al want msr endtime 1 b (\<lambda>tid. tid) st tid;
          (case (r, segafter) of
             (Some _, Some a) \<Rightarrow> if autoheal \<and> b \<noteq> a then merge_segs al b a st tid else Some (st, tid, r)
           | _ \<Rightarrow> Some (st, tid, r))
        }
      | (None, Some a, _) \<Rightarrow> extend_end al want msr endtime 2 a (\<lambda>tid. tid) st tid
      | (None, None, follow) \<Rightarrow> do {
          (st, created) \<leftarrow> create_seg al msr endtime st;
          (case created of
             None \<Rightarrow> Some (st, tid, None)
           | Some p \<Rightarrow> do {
               (st, ok) \<leftarrow> add_pointer al want msr endtime 0 p st;
               (if \<not> ok then Some (st, tid, None)
                else do {
                  (segs, tid) \<leftarrow> link_behind tid follow p (tl_segs st);
                  Some (put_segs segs st, tid, Some p)
                })
             })
        })"

text \<open>The choice between the simple scenarios, in the order of the code, and the search.\<close>

definition place_coverage ::
  "allocs \<Rightarrow> bool \<Rightarrow> bool \<Rightarrow> MS3Record \<Rightarrow> coverage \<Rightarrow> MS3TraceList \<Rightarrow> MS3TraceID \<Rightarrow> added option" where
  "place_coverage al want autoheal msr cv st tid = do {
     l \<leftarrow> id_last tid;
     last_seg \<leftarrow> tl_segs st l;
     lastgap \<leftarrow> gap_after (cv_start cv) (ts_endtime last_seg) (cv_period cv);
     f \<leftarrow> id_first tid;
     first_seg \<leftarrow> tl_segs st f;
     firstgap \<leftarrow> gap_after (ts_starttime first_seg) (cv_end cv) (cv_period cv);
     (if fits_gap cv lastgap \<and> IS_SAMPRATE_SIMILAR (cv_rate cv) (ts_samprate last_seg) (cv_ratetol cv) \<and>
         SEGMENT_HAS_TIME_COVERAGE last_seg
      then extend_end al want msr (cv_end cv) 1 l (later (cv_end cv)) st tid
      else do {
        t \<leftarrow> gap_after (cv_start cv) (cv_period cv) (cv_tol cv);
        (if t > id_latest tid then new_end al want msr (cv_end cv) link_last (later (cv_end cv)) st tid
         else do {
           u \<leftarrow> checked (cv_end cv + cv_period cv);
           u \<leftarrow> checked (u + cv_tol cv);
           (if u < id_earliest tid then new_end al want msr (cv_end cv) link_first (earlier (cv_start cv)) st tid
            else if fits_gap cv firstgap \<and> IS_SAMPRATE_SIMILAR (cv_rate cv) (ts_samprate first_seg) (cv_ratetol cv) \<and>
              SEGMENT_HAS_TIME_COVERAGE first_seg
            then extend_end al want msr (cv_end cv) 2 f (earlier (cv_start cv)) st tid
            else do {
              found \<leftarrow> search_loop cv autoheal (tl_segs st) (id_first tid) (None, None, None);
              place_found al want autoheal msr (cv_end cv) found st tid
            })
         })
      })
   }"

text \<open>The version is compared as signed and stored as unsigned.\<close>

definition track_version :: "u8 \<Rightarrow> MS3TraceID \<Rightarrow> MS3TraceID" where
  "track_version pubversion tid =
     (if sint pubversion > uint (id_pubversion tid) then tid\<lparr>id_pubversion := pubversion\<rparr> else tid)"

definition add_to_id ::
  "allocs \<Rightarrow> bool \<Rightarrow> bool \<Rightarrow> MS3Record \<Rightarrow> int \<Rightarrow> u8 \<Rightarrow> MS3Tolerance option \<Rightarrow> MS3TraceList \<Rightarrow> MS3TraceID \<Rightarrow> added option" where
  "add_to_id al want autoheal msr endtime pubversion tolerance st tid = do {
     cv \<leftarrow> record_coverage msr endtime tolerance;
     (st, tid, r) \<leftarrow> place_coverage al want autoheal msr cv st tid;
     Some (st, if r = None then tid else later endtime (earlier (msr_starttime msr) (track_version pubversion tid)), r)
   }"

subsection \<open>Adding an identifier\<close>

definition add_new_id ::
  "allocs \<Rightarrow> bool \<Rightarrow> MS3Record \<Rightarrow> int \<Rightarrow> u8 \<Rightarrow> prev_nodes \<Rightarrow> MS3TraceList \<Rightarrow> (MS3TraceList \<times> (nat \<times> nat) option) option" where
  "add_new_id al want msr endtime pubversion previd st =
     (case allocate (al_malloc al) st of
        (st, None) \<Rightarrow> Some (st, None)
      | (st, Some a) \<Rightarrow>
          let tid = \<lparr>id_sid = msr_sid msr, id_pubversion = pubversion, id_earliest = msr_starttime msr, id_latest = endtime,
                     id_numsegments = 1, id_first = None, id_last = None, id_next = (\<lambda>_. None), id_height = 0\<rparr>
          in do {
            (st, created) \<leftarrow> create_seg al msr endtime st;
            (case created of
               None \<Rightarrow> Some (st, None)
             | Some p \<Rightarrow> do {
                 (st, ok) \<leftarrow> add_pointer al want msr endtime 1 p st;
                 (if \<not> ok then Some (st, None)
                  else do {
                    (mstl, r) \<leftarrow> mstl3_addID
                      (Some (st\<lparr>tl_ids := (tl_ids st)(a \<mapsto> tid\<lparr>id_first := Some p, id_last := Some p\<rparr>)\<rparr>)) (Some a) (Some previd);
                    st \<leftarrow> mstl;
                    Some (st, if r = None then None else Some (a, p))
                  })
               })
          })"

subsection \<open>The whole routine\<close>

abbreviation (input) "MSF_PPUPDATETIME \<equiv> 0x0400 :: u32"
abbreviation (input) "MSF_SPLITISVERSION \<equiv> 0x0800 :: u32"

text \<open>Sorting the segment, and its update time.\<close>

definition finish_segment ::
  "allocs \<Rightarrow> int \<Rightarrow> u32 \<Rightarrow> nat \<Rightarrow> nat \<Rightarrow> MS3TraceList \<Rightarrow> (MS3TraceList \<times> nat option) option" where
  "finish_segment al now flags a p st = do {
     tid \<leftarrow> tl_ids st a;
     (segs, tid) \<leftarrow> sort_into_place tid p (tl_segs st);
     (let st = st\<lparr>tl_segs := segs, tl_ids := (tl_ids st)(a \<mapsto> tid)\<rparr>
      in if flags AND MSF_PPUPDATETIME \<noteq> 0 then do {
           s \<leftarrow> segs p;
           (if ts_prvtptr s = None \<and> \<not> al_update al then Some (st, None)
            else Some (put_seg p (s\<lparr>ts_prvtptr := Some now\<rparr>) st, Some p))
         }
         else Some (st, Some p))
   }"

definition mstl3_addmsr_impl ::
  "allocs \<Rightarrow> leapseconds \<Rightarrow> int \<Rightarrow> MS3TraceList option \<Rightarrow> MS3Record option \<Rightarrow> bool \<Rightarrow> u8 \<Rightarrow> bool \<Rightarrow> u32 \<Rightarrow>
   MS3Tolerance option \<Rightarrow> (MS3TraceList option \<times> nat option) option" where
  "mstl3_addmsr_impl al lslist now mstl msr want splitversion autoheal flags tolerance =
     (case (mstl, msr) of
        (Some st, Some m) \<Rightarrow> do {
          endtime \<leftarrow> defined_value (msr3_endtime lslist msr);
          (if endtime = NSTERROR then Some (Some st, None)
           else
             let pubversion = (if flags AND MSF_SPLITISVERSION \<noteq> 0 then splitversion else msr_pubversion m)
             in do {
               (found, previd) \<leftarrow> mstl3_findID (Some st) (Some (msr_sid m)) (if splitversion \<noteq> 0 then pubversion else 0) (\<lambda>_. None);
               (st, r) \<leftarrow> (case found of
                  None \<Rightarrow> add_new_id al want m endtime pubversion previd st
                | Some a \<Rightarrow> do {
                    tid \<leftarrow> tl_ids st a;
                    (st, tid, r) \<leftarrow> add_to_id al want autoheal m endtime pubversion tolerance st tid;
                    Some (st\<lparr>tl_ids := (tl_ids st)(a \<mapsto> tid)\<rparr>, map_option (Pair a) r)
                  });
               (case r of
                  None \<Rightarrow> Some (Some st, None)
                | Some (a, p) \<Rightarrow> do {
                    (st, seg) \<leftarrow> finish_segment al now flags a p st;
                    Some (Some st, seg)
                  })
             })
        }
      | _ \<Rightarrow> Some (mstl, None))"

definition mstl3_addmsr ::
  "allocs \<Rightarrow> leapseconds \<Rightarrow> int \<Rightarrow> MS3TraceList option \<Rightarrow> MS3Record option \<Rightarrow> u8 \<Rightarrow> bool \<Rightarrow> u32 \<Rightarrow>
   MS3Tolerance option \<Rightarrow> (MS3TraceList option \<times> nat option) option" where
  "mstl3_addmsr al lslist now mstl msr splitversion autoheal flags tolerance =
     mstl3_addmsr_impl al lslist now mstl msr False splitversion autoheal flags tolerance"

definition mstl3_addmsr_recordptr ::
  "allocs \<Rightarrow> leapseconds \<Rightarrow> int \<Rightarrow> MS3TraceList option \<Rightarrow> MS3Record option \<Rightarrow> bool \<Rightarrow> u8 \<Rightarrow> bool \<Rightarrow> u32 \<Rightarrow>
   MS3Tolerance option \<Rightarrow> (MS3TraceList option \<times> nat option) option" where
  "mstl3_addmsr_recordptr al lslist now mstl msr want splitversion autoheal flags tolerance =
     mstl3_addmsr_impl al lslist now mstl msr want splitversion autoheal flags tolerance"


subsection \<open>What the steps change\<close>

lemma bind_someE: "Option.bind x f = Some y \<Longrightarrow> (\<And>z. x = Some z \<Longrightarrow> f z = Some y \<Longrightarrow> P) \<Longrightarrow> P"
  by (cases x) auto

text \<open>All of the list but its segments, which the operations on segments keep.\<close>

definition outside :: "MS3TraceList \<Rightarrow> u32 \<times> (nat \<Rightarrow> nat option) \<times> u64 \<times> (nat \<Rightarrow> MS3TraceID option)" where
  "outside st = (tl_numtraceids st, tl_next st, tl_prngstate st, tl_ids st)"

lemma outside_put [simp]: "outside (put_seg p s st) = outside st" "outside (put_segs h st) = outside st"
  by (simp_all add: outside_def put_seg_def put_segs_def)

lemma put_simps [simp]:
  "tl_segs (put_seg p s st) = (tl_segs st)(p \<mapsto> s)" "tl_segs (put_segs h st) = h"
  "tl_fresh (put_seg p s st) = tl_fresh st" "tl_fresh (put_segs h st) = tl_fresh st"
  by (simp_all add: put_seg_def put_segs_def)

lemma addmsrtoseg_ok:
  assumes "lm_addmsrtoseg al s m e w = Some (s', True)"
  shows "ts_prev s' = ts_prev s" "ts_next s' = ts_next s" "ts_samplecnt s' = ts_samplecnt s + msr_samplecnt m"
    "ts_starttime s' = (if w = 1 then ts_starttime s else msr_starttime m)" "ts_endtime s' = (if w = 1 then e else ts_endtime s)"
  using assms
  by (auto simp: lm_addmsrtoseg_def Let_def checked_def split: if_splits option.splits elim!: bind_someE)

lemma add_recordptr_ok:
  assumes "lm_add_recordptr al s m e w = Some (s', ok)"
  shows "s' = s\<lparr>ts_recordlist := ts_recordlist s'\<rparr>"
  using assms by (auto simp: lm_add_recordptr_def Let_def split: if_splits option.splits)

lemma addsegtoseg_ok:
  assumes "lm_addsegtoseg al s t = Some (s', True)"
  shows "ts_prev s' = ts_prev s" "ts_next s' = ts_next s" "ts_samplecnt s' = ts_samplecnt s + ts_samplecnt t"
    "ts_starttime s' = ts_starttime s" "ts_endtime s' = ts_endtime t"
  using assms
  by (auto simp: lm_addsegtoseg_def Let_def checked_def split: if_splits option.splits elim!: bind_someE)

lemma msr2seg_ok:
  assumes "lm_msr2seg al m e = Some (Some s)"
  shows "ts_prev s = None" "ts_next s = None" "ts_samplecnt s = msr_samplecnt m" "ts_starttime s = msr_starttime m" "ts_endtime s = e"
  using assms by (auto simp: lm_msr2seg_def Let_def split: if_splits option.splits elim!: bind_someE)

lemma add_pointer_ok:
  assumes "add_pointer al want m e w p st = Some (st', ok)" "tl_segs st p = Some s"
  shows "\<exists>r. st' = put_seg p (s\<lparr>ts_recordlist := r\<rparr>) st"
proof (cases want)
  case True
  then obtain t where t: "lm_add_recordptr al s m e w = Some (t, ok)" "st' = put_seg p t st"
    using assms by (auto simp: add_pointer_def elim!: bind_someE)
  then have "st' = put_seg p (s\<lparr>ts_recordlist := ts_recordlist t\<rparr>) st" using add_recordptr_ok by metis
  then show ?thesis by blast
next
  case False
  then have "st' = put_seg p (s\<lparr>ts_recordlist := ts_recordlist s\<rparr>) st"
    using assms by (simp add: add_pointer_def put_seg_def fun_upd_idem)
  then show ?thesis by blast
qed

lemma create_seg_ok:
  assumes "create_seg al m e st = Some (st', Some p)"
  shows "\<exists>s. p = tl_fresh st \<and> lm_msr2seg al m e = Some (Some s) \<and> tl_segs st' = (tl_segs st)(p \<mapsto> s) \<and>
    tl_fresh st' = Suc (tl_fresh st) \<and> outside st' = outside st"
  using assms
  by (auto simp: create_seg_def allocate_def put_seg_def outside_def split: if_splits option.splits elim!: bind_someE)


subsection \<open>One identifier\<close>

text \<open>The segments of an identifier: linked, counted, in time order and at addresses already given.\<close>

definition id_segs :: "MS3TraceList \<Rightarrow> MS3TraceID \<Rightarrow> nat list \<Rightarrow> bool" where
  "id_segs st tid xs \<longleftrightarrow>
     xs \<noteq> [] \<and> seglist (tl_segs st) tid xs \<and> id_numsegments tid = of_nat (length xs) \<and> (\<forall>q\<in>set xs. q < tl_fresh st)"

definition sample_total :: "segs \<Rightarrow> nat list \<Rightarrow> int" where
  "sample_total h xs = (\<Sum>q\<leftarrow>xs. ts_samplecnt (the_seg h q))"

text \<open>
  The identifier after the coverage was placed: of its segments only \<open>p\<close> is new or changed,
  its times come from the record or the old segments, and the number of samples
  grew by that of the record.
\<close>

definition placed ::
  "MS3TraceList \<Rightarrow> MS3TraceID \<Rightarrow> nat list \<Rightarrow> MS3Record \<Rightarrow> int \<Rightarrow> MS3TraceList \<Rightarrow> MS3TraceID \<Rightarrow> nat list \<Rightarrow> nat \<Rightarrow> nat list \<Rightarrow> bool" where
  "placed st tid xs m e st' tid' us p vs \<longleftrightarrow>
     id_segs st' tid' (us @ p # vs) \<and> in_order (tl_segs st') (us @ vs) \<and>
     (\<forall>q\<in>set (us @ vs). q \<in> set xs \<and> the_seg (tl_segs st') q = the_seg (tl_segs st) q) \<and>
     (p \<in> set xs \<or> p = tl_fresh st) \<and>
     (\<forall>q. q \<notin> set xs \<longrightarrow> q < tl_fresh st \<longrightarrow> tl_segs st' q = tl_segs st q) \<and>
     outside st' = outside st \<and> tl_fresh st \<le> tl_fresh st' \<and>
     sample_total (tl_segs st') (us @ p # vs) = sample_total (tl_segs st) xs + msr_samplecnt m \<and>
     ts_starttime (the_seg (tl_segs st') p) \<in> insert (msr_starttime m) ((\<lambda>q. ts_starttime (the_seg (tl_segs st) q)) ` set xs) \<and>
     ts_endtime (the_seg (tl_segs st') p) \<in> insert e ((\<lambda>q. ts_endtime (the_seg (tl_segs st) q)) ` set xs) \<and>
     id_sid tid' = id_sid tid \<and> id_pubversion tid' = id_pubversion tid \<and> id_height tid' = id_height tid \<and> id_next tid' = id_next tid \<and>
     min (id_earliest tid') (msr_starttime m) = min (id_earliest tid) (msr_starttime m) \<and>
     max (id_latest tid') e = max (id_latest tid) e"

lemma the_seg_upd: "the_seg (h(p \<mapsto> s)) q = (if q = p then payload s else the_seg h q)"
  by (simp add: the_seg_def)

lemma payload_fields [simp]:
  "ts_starttime (payload s) = ts_starttime s" "ts_endtime (payload s) = ts_endtime s" "ts_samplecnt (payload s) = ts_samplecnt s"
  by (simp_all add: payload_def)

lemma sample_total_split: "sample_total h (us @ p # vs) = sample_total h (us @ vs) + ts_samplecnt (the_seg h p)"
  by (simp add: sample_total_def)

lemma sample_total_cong: "(\<And>q. q \<in> set xs \<Longrightarrow> the_seg h' q = the_seg h q) \<Longrightarrow> sample_total h' xs = sample_total h xs"
  by (auto simp: sample_total_def intro: arg_cong [of _ _ sum_list])

lemma in_order_cong: "(\<And>q. q \<in> set xs \<Longrightarrow> the_seg h' q = the_seg h q) \<Longrightarrow> in_order h' xs = in_order h xs"
  unfolding in_order_def by (auto elim!: sorted_wrt_mono_rel [rotated])

lemma in_order_remove: "in_order h (us @ p # vs) \<Longrightarrow> in_order h (us @ vs)"
  by (simp add: in_order_append in_order_Cons)

text \<open>Extending the segment \<open>p\<close>.\<close>

lemma extend_end_placed:
  assumes "id_segs st tid (us @ p # vs)" "in_order (tl_segs st) (us @ p # vs)"
    and "extend_end al want m e w p track st tid = Some (st', tid', Some r)" "w = 1 \<or> w = 2"
    and "track = (\<lambda>tid. tid) \<or> track = later e \<or> track = earlier (msr_starttime m)"
  shows "r = p \<and> placed st tid (us @ p # vs) m e st' tid' us p vs \<and>
    ts_samplecnt (the_seg (tl_segs st') p) = ts_samplecnt (the_seg (tl_segs st) p) + msr_samplecnt m"
proof -
  obtain s where s: "tl_segs st p = Some s" using assms(1) links_defined by (fastforce simp: id_segs_def seglist_def)
  obtain t st1 where t: "lm_addmsrtoseg al s m e w = Some (t, True)" and st1: "st1 = put_seg p t st"
    and ptr: "add_pointer al want m e w p st1 = Some (st', True)" and tid': "tid' = track tid" and r: "r = p"
    using assms(3) s by (auto simp: extend_end_def extend_seg_def split: if_splits elim!: bind_someE)
  obtain rl where st': "st' = put_seg p (t\<lparr>ts_recordlist := rl\<rparr>) st"
    using add_pointer_ok [OF ptr, of t] st1 by (auto simp: put_seg_def)
  note ok = addmsrtoseg_ok [OF t]
  have dist: "p \<notin> set (us @ vs)" using assms(1) by (auto simp: id_segs_def seglist_def)
  have others: "the_seg (tl_segs st') q = the_seg (tl_segs st) q" if "q \<in> set (us @ vs)" for q
    using that dist by (auto simp: st' the_seg_upd)
  have p: "the_seg (tl_segs st') p = payload (t\<lparr>ts_recordlist := rl\<rparr>)" "the_seg (tl_segs st) p = payload s"
    using s by (simp_all add: st' the_seg_upd the_seg_def)
  have "seglist (tl_segs st') tid (us @ p # vs)"
    using assms(1) ok s seglist_upd_same [of "tl_segs st" p s "t\<lparr>ts_recordlist := rl\<rparr>"] by (simp add: st' id_segs_def)
  then have "id_segs st' tid' (us @ p # vs)"
    using assms(1,5) by (auto simp: id_segs_def tid' st' seglist_def later_def earlier_def)
  moreover have "in_order (tl_segs st') (us @ vs)"
    using in_order_cong [OF others] in_order_remove [OF assms(2)] by blast
  moreover have "sample_total (tl_segs st') (us @ p # vs) = sample_total (tl_segs st) (us @ p # vs) + msr_samplecnt m"
    using sample_total_cong [where xs = "us @ vs", OF others] ok(3) by (simp add: sample_total_split p)
  ultimately show ?thesis
    using r others p ok assms(4,5)
    by (auto simp: placed_def st' tid' later_def earlier_def)
qed


text \<open>A new segment at an end or behind another, with its record pointer before or after it was linked.\<close>

lemma the_seg_created:
  assumes "lm_msr2seg al m e = Some (Some s)" "map_option payload (h p) = Some (payload (s\<lparr>ts_recordlist := rl\<rparr>))"
  shows "ts_starttime (the_seg h p) = msr_starttime m" "ts_endtime (the_seg h p) = e" "ts_samplecnt (the_seg h p) = msr_samplecnt m"
proof -
  have "the_seg h p = payload (s\<lparr>ts_recordlist := rl\<rparr>)" using assms(2) by (auto simp: the_seg_def)
  then show "ts_starttime (the_seg h p) = msr_starttime m" "ts_endtime (the_seg h p) = e" "ts_samplecnt (the_seg h p) = msr_samplecnt m"
    using msr2seg_ok [OF assms(1)] by simp_all
qed

lemma linked_placed:
  assumes "id_segs st tid (us @ vs)" "in_order (tl_segs st) (us @ vs)" "p = tl_fresh st" "lm_msr2seg al m e = Some (Some s)"
    and "seglist (tl_segs st') tid' (us @ p # vs)" "map_option payload (tl_segs st' p) = Some (payload (s\<lparr>ts_recordlist := rl\<rparr>))"
    and "\<And>q. q \<noteq> p \<Longrightarrow> map_option payload (tl_segs st' q) = map_option payload (tl_segs st q)"
    and "\<And>q. q \<notin> set (us @ p # vs) \<Longrightarrow> tl_segs st' q = tl_segs st q"
    and "tl_fresh st' = Suc (tl_fresh st)" "outside st' = outside st"
    and "tid' = tid\<lparr>id_first := f, id_last := l, id_numsegments := id_numsegments tid + 1, id_earliest := a, id_latest := b\<rparr>"
    and "min a (msr_starttime m) = min (id_earliest tid) (msr_starttime m)" "max b e = max (id_latest tid) e"
  shows "placed st tid (us @ vs) m e st' tid' us p vs"
proof -
  have p: "p \<notin> set (us @ vs)" using assms(1,3) by (auto simp: id_segs_def)
  have defd: "tl_segs st q \<noteq> None" if "q \<in> set (us @ vs)" for q
    using assms(1) that links_defined by (auto simp: id_segs_def seglist_def)
  have others: "the_seg (tl_segs st') q = the_seg (tl_segs st) q" if "q \<in> set (us @ vs)" for q
  proof -
    have "q \<noteq> p" using that p by auto
    then have "map_option payload (tl_segs st' q) = map_option payload (tl_segs st q)" by (rule assms(7))
    then show ?thesis using defd [OF that] by (cases "tl_segs st' q"; cases "tl_segs st q") (simp_all add: the_seg_def)
  qed
  note new = the_seg_created [where h = "tl_segs st'" and p = p, OF assms(4,6)]
  have "q < tl_fresh st'" if "q \<in> set (us @ p # vs)" for q
    using assms(1,3,9) that by (auto simp: id_segs_def intro: less_SucI)
  then have "id_segs st' tid' (us @ p # vs)"
    using assms(1,5) by (simp add: id_segs_def assms(11))
  moreover have "in_order (tl_segs st') (us @ vs)" using in_order_cong [OF others] assms(2) by blast
  moreover have "sample_total (tl_segs st') (us @ p # vs) = sample_total (tl_segs st) (us @ vs) + msr_samplecnt m"
    using sample_total_cong [where xs = "us @ vs", OF others] new by (simp add: sample_total_split)
  moreover have "tl_segs st' q = tl_segs st q" if "q \<notin> set (us @ vs)" "q < tl_fresh st" for q
    using that assms(3) by (intro assms(8)) auto
  ultimately show ?thesis
    using others new assms(3,9,10,12,13) by (auto simp: placed_def assms(11))
qed

text \<open>A linking routine that puts the new segment between \<open>us\<close> and \<open>vs\<close>.\<close>

type_synonym linker = "MS3TraceID \<Rightarrow> nat \<Rightarrow> segs \<Rightarrow> (segs \<times> MS3TraceID) option"

definition links_between :: "linker \<Rightarrow> MS3TraceID \<Rightarrow> nat list \<Rightarrow> nat \<Rightarrow> nat list \<Rightarrow> bool" where
  "links_between link tid us p vs \<longleftrightarrow>
     (\<forall>h s. seglist h tid (us @ vs) \<longrightarrow> p \<notin> set (us @ vs) \<longrightarrow> h p = Some s \<longrightarrow> ts_prev s = None \<longrightarrow> ts_next s = None \<longrightarrow>
       (\<exists>h' f l. link tid p h = Some (h', tid\<lparr>id_first := f, id_last := l, id_numsegments := id_numsegments tid + 1\<rparr>) \<and>
          seglist h' (tid\<lparr>id_first := f, id_last := l, id_numsegments := id_numsegments tid + 1\<rparr>) (us @ p # vs) \<and>
          same_payloads (insert p (set (us @ vs))) h h'))"

lemma links_betweenI:
  assumes "\<And>h s. seglist h tid (us @ vs) \<Longrightarrow> p \<notin> set (us @ vs) \<Longrightarrow> h p = Some s \<Longrightarrow> ts_prev s = None \<Longrightarrow> ts_next s = None \<Longrightarrow>
    \<exists>h' tid' f l. link tid p h = Some (h', tid') \<and> seglist h' tid' (us @ p # vs) \<and> same_payloads (insert p (set (us @ vs))) h h' \<and>
      tid' = tid\<lparr>id_first := f, id_last := l, id_numsegments := id_numsegments tid + 1\<rparr>"
  shows "links_between link tid us p vs"
  unfolding links_between_def using assms by metis

lemma link_last_between:
  assumes "xs \<noteq> []"
  shows "links_between link_last tid xs p []"
proof (rule links_betweenI)
  fix h s assume a: "seglist h tid (xs @ [])" "p \<notin> set (xs @ [])" "h p = Some s" "ts_next s = None"
  obtain h' where "link_last tid p h = Some (h', tid\<lparr>id_last := Some p, id_numsegments := id_numsegments tid + 1\<rparr>)"
    "seglist h' (tid\<lparr>id_last := Some p, id_numsegments := id_numsegments tid + 1\<rparr>) (xs @ [p])" "same_payloads (insert p (set xs)) h h'"
    using link_last_spec [of h tid xs p s] a assms by auto
  then show "\<exists>h' tid' f l. link_last tid p h = Some (h', tid') \<and> seglist h' tid' (xs @ [p]) \<and>
      same_payloads (insert p (set (xs @ []))) h h' \<and> tid' = tid\<lparr>id_first := f, id_last := l, id_numsegments := id_numsegments tid + 1\<rparr>"
    by (intro exI [of _ h'] exI [of _ "id_first tid"] exI [of _ "Some p"] exI conjI) (auto simp: seglist_def)
qed

lemma link_first_between:
  assumes "xs \<noteq> []"
  shows "links_between link_first tid [] p xs" "links_between (\<lambda>tid. link_behind tid None) tid [] p xs"
proof (rule_tac [!] links_betweenI)
  fix h s assume a: "seglist h tid ([] @ xs)" "p \<notin> set ([] @ xs)" "h p = Some s" "ts_prev s = None"
  let ?tid = "tid\<lparr>id_first := Some p, id_numsegments := id_numsegments tid + 1\<rparr>"
  have e: "?tid = tid\<lparr>id_first := Some p, id_last := id_last tid, id_numsegments := id_numsegments tid + 1\<rparr>" by simp
  have "\<exists>h'. link_first tid p h = Some (h', ?tid) \<and> seglist h' ?tid (p # xs) \<and> same_payloads (insert p (set xs)) h h'"
    using link_first_spec [of h tid xs p s] a assms by auto
  then show "\<exists>h' tid' f l. link_first tid p h = Some (h', tid') \<and> seglist h' tid' ([] @ p # xs) \<and>
      same_payloads (insert p (set ([] @ xs))) h h' \<and> tid' = tid\<lparr>id_first := f, id_last := l, id_numsegments := id_numsegments tid + 1\<rparr>"
    unfolding append_Nil using e by blast
  have "\<exists>h'. link_behind tid None p h = Some (h', ?tid) \<and> seglist h' ?tid (p # xs) \<and> same_payloads (insert p (set xs)) h h'"
    using link_behind_none_spec [of h tid xs p s] a assms by auto
  then show "\<exists>h' tid' f l. link_behind tid None p h = Some (h', tid') \<and> seglist h' tid' ([] @ p # xs) \<and>
      same_payloads (insert p (set ([] @ xs))) h h' \<and> tid' = tid\<lparr>id_first := f, id_last := l, id_numsegments := id_numsegments tid + 1\<rparr>"
    unfolding append_Nil using e by blast
qed

lemma link_behind_between: "links_between (\<lambda>tid. link_behind tid (Some f)) tid (us @ [f]) p vs"
proof (rule links_betweenI)
  fix h s assume a: "seglist h tid ((us @ [f]) @ vs)" "p \<notin> set ((us @ [f]) @ vs)" "h p = Some s"
  define l where "l = (if Some f = id_last tid then Some p else id_last tid)"
  obtain h' where h': "link_behind tid (Some f) p h = Some (h', tid\<lparr>id_last := l, id_numsegments := id_numsegments tid + 1\<rparr>)"
    "seglist h' (tid\<lparr>id_last := l, id_numsegments := id_numsegments tid + 1\<rparr>) (us @ f # p # vs)" "same_payloads (set (us @ f # vs) \<union> {p}) h h'"
    using link_behind_spec [of h tid us f vs p s] a unfolding l_def by (auto simp: same_payloads_def)
  show "\<exists>h' tid' f' l. link_behind tid (Some f) p h = Some (h', tid') \<and> seglist h' tid' ((us @ [f]) @ p # vs) \<and>
      same_payloads (insert p (set ((us @ [f]) @ vs))) h h' \<and> tid' = tid\<lparr>id_first := f', id_last := l, id_numsegments := id_numsegments tid + 1\<rparr>"
  proof (intro exI conjI)
    show "link_behind tid (Some f) p h = Some (h', tid\<lparr>id_last := l, id_numsegments := id_numsegments tid + 1\<rparr>)" by (rule h'(1))
    show "seglist h' (tid\<lparr>id_last := l, id_numsegments := id_numsegments tid + 1\<rparr>) ((us @ [f]) @ p # vs)" using h'(2) by simp
    show "same_payloads (insert p (set ((us @ [f]) @ vs))) h h'" using h'(3) by (simp add: insert_commute Un_insert_right)
    show "tid\<lparr>id_last := l, id_numsegments := id_numsegments tid + 1\<rparr> =
        tid\<lparr>id_first := id_first tid, id_last := l, id_numsegments := id_numsegments tid + 1\<rparr>" by simp
  qed
qed

lemma payload_recordlist: "payload (t\<lparr>ts_recordlist := r\<rparr>) = (payload t)\<lparr>ts_recordlist := r\<rparr>"
  by (cases t) (simp add: payload_def)

lemma new_end_placed:
  assumes "id_segs st tid (us @ vs)" "in_order (tl_segs st) (us @ vs)" "links_between link tid us (tl_fresh st) vs"
    and "new_end al want m e link track st tid = Some (st', tid', Some r)" "track = later e \<or> track = earlier (msr_starttime m)"
  shows "r = tl_fresh st \<and> placed st tid (us @ vs) m e st' tid' us r vs"
proof -
  obtain st1 p where c: "create_seg al m e st = Some (st1, Some p)"
    using assms(4) by (auto simp: new_end_def split: option.splits elim!: bind_someE)
  obtain s where s: "p = tl_fresh st" "lm_msr2seg al m e = Some (Some s)" "tl_segs st1 = (tl_segs st)(p \<mapsto> s)"
    "tl_fresh st1 = Suc (tl_fresh st)" "outside st1 = outside st"
    using create_seg_ok [OF c] by blast
  have p: "p \<notin> set (us @ vs)" using assms(1) s(1) by (auto simp: id_segs_def)
  have "seglist (tl_segs st1) tid (us @ vs)" using assms(1) p by (simp add: s(3) id_segs_def seglist_def)
  from assms(3) [folded s(1), unfolded links_between_def, rule_format, OF this p, of s] msr2seg_ok(1,2) [OF s(2)]
  obtain h f l where
    l: "link tid p (tl_segs st1) = Some (h, tid\<lparr>id_first := f, id_last := l, id_numsegments := id_numsegments tid + 1\<rparr>)"
      "seglist h (tid\<lparr>id_first := f, id_last := l, id_numsegments := id_numsegments tid + 1\<rparr>) (us @ p # vs)"
      "same_payloads (insert p (set (us @ vs))) (tl_segs st1) h"
    by (auto simp: s(3))
  have "h p \<noteq> None" using l(2) links_defined by (auto simp: seglist_def)
  then obtain t where t: "h p = Some t" by blast
  have pt: "payload t = payload s" using l(3) t s(3) by (auto simp: same_payloads_def dest: spec [of _ p])
  have ptr: "add_pointer al want m e 0 p (put_segs h st1) = Some (st', True)" and r: "r = p"
    and tid': "tid' = track (tid\<lparr>id_first := f, id_last := l, id_numsegments := id_numsegments tid + 1\<rparr>)"
    using assms(4) c l(1) by (auto simp: new_end_def split: if_splits elim!: bind_someE)
  obtain rl where st': "st' = put_seg p (t\<lparr>ts_recordlist := rl\<rparr>) (put_segs h st1)"
    using add_pointer_ok [OF ptr, of t] t by auto
  have "placed st tid (us @ vs) m e st' tid' us p vs"
  proof (rule linked_placed [OF assms(1,2) s(1,2), where rl = rl and f = f and l = l and a = "id_earliest tid'" and b = "id_latest tid'"])
    have "links (h(p \<mapsto> t\<lparr>ts_recordlist := rl\<rparr>)) None (us @ p # vs) None"
      using l(2) links_upd_same [of h p t "t\<lparr>ts_recordlist := rl\<rparr>"] t by (simp add: seglist_def)
    then show "seglist (tl_segs st') tid' (us @ p # vs)"
      using l(2) assms(5) by (auto simp: st' tid' seglist_def later_def earlier_def)
    show "map_option payload (tl_segs st' p) = Some (payload (s\<lparr>ts_recordlist := rl\<rparr>))"
      using pt by (simp add: st' payload_recordlist)
    show "map_option payload (tl_segs st' q) = map_option payload (tl_segs st q)" if "q \<noteq> p" for q
      using that l(3) s(3) by (simp add: st' same_payloads_def)
    show "tl_segs st' q = tl_segs st q" if "q \<notin> set (us @ p # vs)" for q
      using that l(3) s(3) by (simp add: st' same_payloads_def)
    show "tl_fresh st' = Suc (tl_fresh st)" "outside st' = outside st" using s(4,5) by (simp_all add: st')
  qed (use assms(5) in \<open>auto simp: tid' later_def earlier_def\<close>)
  then show ?thesis using r s(1) by simp
qed


text \<open>Merging: the segment \<open>a\<close> goes, and \<open>b\<close> has its coverage too.\<close>

lemma unlink_without:
  assumes "seglist h tid (us @ b # vs)" "a \<in> set (us @ vs)" "a \<noteq> hd (us @ b # vs)"
  shows "\<exists>us' vs' h' l. set (us @ vs) = insert a (set (us' @ vs')) \<and> a \<notin> set (us' @ b # vs') \<and>
    (\<forall>P. sorted_wrt P (us @ vs) \<longrightarrow> sorted_wrt P (us' @ vs')) \<and> length (us @ vs) = Suc (length (us' @ vs')) \<and>
    (\<forall>f :: nat \<Rightarrow> int. sum_list (map f (us @ vs)) = f a + sum_list (map f (us' @ vs'))) \<and>
    unlink_merged tid a h = Some (h', tid\<lparr>id_last := l, id_numsegments := id_numsegments tid - 1\<rparr>) \<and>
    seglist h' (tid\<lparr>id_last := l, id_numsegments := id_numsegments tid - 1\<rparr>) (us' @ b # vs') \<and>
    (\<forall>q. q \<noteq> a \<longrightarrow> map_option payload (h' q) = map_option payload (h q)) \<and>
    (\<forall>q. q \<notin> set (us @ b # vs) \<longrightarrow> h' q = h q)"
proof -
  consider (before) us1 us2 where "us = us1 @ a # us2" "us1 \<noteq> []" | (behind) vs1 vs2 where "vs = vs1 @ a # vs2"
  proof -
    have "us1 \<noteq> []" if "us = us1 @ a # us2" for us1 us2 using assms(3) that by auto
    then show thesis using assms(2) that by (metis Un_iff set_append split_list)
  qed
  then obtain us' vs' ws zs where w: "us @ b # vs = ws @ a # zs" "ws \<noteq> []" "us' @ b # vs' = ws @ zs"
    "set (us @ vs) = insert a (set (us' @ vs'))" "\<forall>P. sorted_wrt P (us @ vs) \<longrightarrow> sorted_wrt P (us' @ vs')"
    "length (us @ vs) = Suc (length (us' @ vs'))"
    "\<forall>f :: nat \<Rightarrow> int. sum_list (map f (us @ vs)) = f a + sum_list (map f (us' @ vs'))"
  proof cases
    case before
    then show thesis
      by (intro that [of us1 "us2 @ b # vs" "us1 @ us2" vs]) (auto simp: sorted_wrt_append)
  next
    case behind
    then show thesis
      by (intro that [of "us @ b # vs1" vs2 us "vs1 @ vs2"]) (auto simp: sorted_wrt_append)
  qed
  have a: "a \<notin> set (ws @ zs)" using assms(1) w(1) by (auto simp: seglist_def)
  have "\<exists>h' l. unlink_merged tid a h = Some (h', tid\<lparr>id_last := l, id_numsegments := id_numsegments tid - 1\<rparr>) \<and>
      seglist h' (tid\<lparr>id_last := l, id_numsegments := id_numsegments tid - 1\<rparr>) (ws @ zs) \<and>
      (\<forall>q. q \<noteq> a \<longrightarrow> map_option payload (h' q) = map_option payload (h q)) \<and> (\<forall>q. q \<notin> set (ws @ a # zs) \<longrightarrow> h' q = h q)"
  proof -
    obtain h' tid' where u: "unlink_merged tid a h = Some (h', tid')" "seglist h' tid' (ws @ zs)"
      "\<forall>q. q \<noteq> a \<longrightarrow> map_option payload (h' q) = map_option payload (h q)" "\<forall>q. q \<notin> set (ws @ a # zs) \<longrightarrow> h' q = h q"
      "tid' = tid\<lparr>id_last := id_last tid', id_numsegments := id_numsegments tid - 1\<rparr>"
      using unlink_merged_spec [of h tid ws a zs] assms(1) w(1,2) by auto
    define l where "l = id_last tid'"
    have e: "tid' = tid\<lparr>id_last := l, id_numsegments := id_numsegments tid - 1\<rparr>" unfolding l_def by (rule u(5))
    show ?thesis using u(3,4) u(1,2) [unfolded e] by blast
  qed
  then obtain h' l where u: "unlink_merged tid a h = Some (h', tid\<lparr>id_last := l, id_numsegments := id_numsegments tid - 1\<rparr>)"
      "seglist h' (tid\<lparr>id_last := l, id_numsegments := id_numsegments tid - 1\<rparr>) (us' @ b # vs')" "a \<notin> set (us' @ b # vs')"
      "\<forall>q. q \<noteq> a \<longrightarrow> map_option payload (h' q) = map_option payload (h q)" "\<forall>q. q \<notin> set (us @ b # vs) \<longrightarrow> h' q = h q"
    using a unfolding w(1,3) by blast
  show ?thesis
    by (intro exI conjI) (rule w(4) u(3) w(5-7) u(1,2,4,5))+
qed


lemma merge_placed:
  assumes "placed st tid xs m e st1 tid1 us b vs" "a \<in> set (us @ vs)" "a \<noteq> hd (us @ b # vs)" "b \<in> set xs"
    and "merge_segs al b a st1 tid1 = Some (st', tid', Some r)"
  shows "r = b \<and> (\<exists>us' vs'. placed st tid xs m e st' tid' us' b vs')"
proof -
  obtain s1 s2 t where s: "tl_segs st1 b = Some s1" "tl_segs st1 a = Some s2" and t: "lm_addsegtoseg al s1 s2 = Some (t, True)"
    and un: "\<exists>h'. unlink_merged tid1 a ((tl_segs st1)(b \<mapsto> t)) = Some (h', tid') \<and> st' = put_segs h' (put_seg b t st1)" and r: "r = b"
    using assms(5) by (auto simp: merge_segs_def Let_def split: if_splits elim!: bind_someE)
  note ok = addsegtoseg_ok [OF t]
  have id: "id_segs st1 tid1 (us @ b # vs)" and old: "\<forall>q\<in>set (us @ vs). q \<in> set xs \<and> the_seg (tl_segs st1) q = the_seg (tl_segs st) q"
    using assms(1) by (auto simp: placed_def)
  have dist: "distinct (us @ b # vs)" using id by (simp add: id_segs_def seglist_def)
  let ?h = "(tl_segs st1)(b \<mapsto> t)"
  have linked: "seglist ?h tid1 (us @ b # vs)"
    using id ok s(1) seglist_upd_same [of "tl_segs st1" b s1 t] by (simp add: id_segs_def)
  obtain us' vs' h' l where
    sets: "set (us @ vs) = insert a (set (us' @ vs'))" "a \<notin> set (us' @ b # vs')"
    and sorted: "\<forall>P. sorted_wrt P (us @ vs) \<longrightarrow> sorted_wrt P (us' @ vs')"
    and len: "length (us @ vs) = Suc (length (us' @ vs'))"
    and sum: "\<forall>f :: nat \<Rightarrow> int. sum_list (map f (us @ vs)) = f a + sum_list (map f (us' @ vs'))"
    and h': "unlink_merged tid1 a ?h = Some (h', tid1\<lparr>id_last := l, id_numsegments := id_numsegments tid1 - 1\<rparr>)"
      "seglist h' (tid1\<lparr>id_last := l, id_numsegments := id_numsegments tid1 - 1\<rparr>) (us' @ b # vs')"
      "\<forall>q. q \<noteq> a \<longrightarrow> map_option payload (h' q) = map_option payload (?h q)"
      "\<forall>q. q \<notin> set (us @ b # vs) \<longrightarrow> h' q = ?h q"
    using unlink_without [OF linked assms(2,3)] by blast
  have tid': "tid' = tid1\<lparr>id_last := l, id_numsegments := id_numsegments tid1 - 1\<rparr>" and st': "st' = put_segs h' (put_seg b t st1)"
    using un h'(1) by auto
  have others: "the_seg h' q = the_seg (tl_segs st1) q" if "q \<in> set (us' @ vs')" for q
  proof -
    have q: "q \<noteq> a" "q \<noteq> b" "q \<in> set (us @ b # vs)" using that sets dist by auto
    have "tl_segs st1 q \<noteq> None" using id q(3) links_defined by (auto simp: id_segs_def seglist_def)
    moreover have "map_option payload (h' q) = map_option payload (tl_segs st1 q)" using h'(3) q(1,2) by simp
    ultimately show ?thesis by (cases "h' q"; cases "tl_segs st1 q") (simp_all add: the_seg_def)
  qed
  have ba: "b \<noteq> a" using sets(2) by auto
  have "map_option payload (h' b) = Some (payload t)" using h'(3) ba by simp
  then have b: "the_seg h' b = payload t" by (auto simp: the_seg_def)
  have "length (us @ b # vs) = Suc (length (us' @ b # vs'))" using len by simp
  then have "id_numsegments tid1 = of_nat (Suc (length (us' @ b # vs')))" using id by (simp only: id_segs_def)
  then have n: "id_numsegments tid1 - 1 = of_nat (length (us' @ b # vs'))" by simp
  have "id_segs st' tid' (us' @ b # vs')"
    unfolding id_segs_def st' tid' using id h'(2) n sets by (auto simp: id_segs_def)
  moreover have "in_order h' (us' @ vs')"
  proof -
    have "in_order (tl_segs st1) (us' @ vs')" using sorted assms(1) by (auto simp: placed_def in_order_def)
    then show ?thesis using in_order_cong [OF others] by blast
  qed
  moreover have "sample_total h' (us' @ b # vs') = sample_total (tl_segs st1) (us @ b # vs)"
  proof -
    have "sample_total (tl_segs st1) (us @ vs) = ts_samplecnt s2 + sample_total (tl_segs st1) (us' @ vs')"
      using spec [OF sum, of "\<lambda>q. ts_samplecnt (the_seg (tl_segs st1) q)"] s(2) by (simp add: sample_total_def the_seg_def)
    then show ?thesis
      using sample_total_cong [where xs = "us' @ vs'", OF others] ok(3) b s(1) by (simp add: sample_total_split the_seg_def)
  qed
  moreover have "ts_endtime t \<in> insert e ((\<lambda>q. ts_endtime (the_seg (tl_segs st) q)) ` set xs)"
  proof -
    have "ts_endtime t = ts_endtime (the_seg (tl_segs st1) a)" using ok(5) s(2) by (simp add: the_seg_def)
    then show ?thesis using old assms(2) by simp
  qed
  moreover have "ts_starttime t = ts_starttime (the_seg (tl_segs st1) b)" using ok(4) s(1) by (simp add: the_seg_def)
  moreover have "tl_segs st' q = tl_segs st q" if "q \<notin> set xs" "q < tl_fresh st" for q
  proof -
    have "q \<notin> set (us @ b # vs)" using that old assms(4) by auto
    then show ?thesis using h'(4) that assms(1) by (auto simp: st' placed_def)
  qed
  ultimately have "placed st tid xs m e st' tid' us' b vs'"
    using assms(1,4) others old sets b by (auto simp: placed_def st' tid')
  then show ?thesis using r by blast
qed


subsection \<open>The search\<close>

text \<open>The segment starts where the record ends, within the tolerances.\<close>

definition joins_after :: "segs \<Rightarrow> coverage \<Rightarrow> nat \<Rightarrow> bool" where
  "joins_after h cv a \<longleftrightarrow>
     (\<exists>s g. h a = Some s \<and> SEGMENT_HAS_TIME_COVERAGE s \<and> gap_after (ts_starttime s) (cv_end cv) (cv_period cv) = Some g \<and>
        fits_gap cv g \<and> IS_SAMPRATE_SIMILAR (cv_rate cv) (ts_samprate s) (cv_ratetol cv))"

definition found_in :: "segs \<Rightarrow> coverage \<Rightarrow> nat set \<Rightarrow> matches \<Rightarrow> bool" where
  "found_in h cv A found \<longleftrightarrow>
     (case found of (segbefore, segafter, follow) \<Rightarrow>
        (\<forall>x. segbefore = Some x \<longrightarrow> x \<in> A) \<and> (\<forall>x. segafter = Some x \<longrightarrow> x \<in> A \<and> joins_after h cv x) \<and>
        (\<forall>x. follow = Some x \<longrightarrow> x \<in> A))"

lemma search_loop_found:
  assumes "links h q ys None" "set ys \<subseteq> A" "found_in h cv A found" "search_loop cv ah h (exit_of ys None) found = Some found'"
  shows "found_in h cv A found'"
  using assms
proof (induction ys arbitrary: q found)
  case Nil
  then show ?case by (subst (asm) search_loop.simps) simp
next
  case (Cons y ys)
  obtain s where s: "h y = Some s" "ts_next s = exit_of ys None" and links: "links h (Some y) ys None" using Cons.prems(1) by auto
  obtain b a f where found: "found = (b, a, f)" by (cases found) auto
  note IH = Cons.IH [OF links]
  have y: "y \<in> A" "set ys \<subseteq> A" using Cons.prems(2) by auto
  show ?case
  proof (cases "SEGMENT_HAS_TIME_COVERAGE s")
    case False
    then have "search_loop cv ah h (exit_of ys None) found = Some found'"
      using Cons.prems(4) s found by (subst (asm) search_loop.simps) simp
    then show ?thesis using IH Cons.prems(3) y by blast
  next
    case True
    show ?thesis
    proof (cases "ah \<and> cv_start cv = ts_starttime s \<and> cv_end cv = ts_endtime s")
      case exact: True
      then have "found' = (b, a, Some y)"
        using Cons.prems(4) s found True by (subst (asm) search_loop.simps) simp
      then show ?thesis using Cons.prems(3) found y by (simp add: found_in_def)
    next
      case differs: False
      have "search_loop cv ah h (Some y) found = do {
          b' \<leftarrow> match_gap cv s y (cv_start cv) (ts_endtime s) b;
          a' \<leftarrow> match_gap cv s y (ts_starttime s) (cv_end cv) a;
          (let found = (b', a', if cv_start cv > ts_starttime s then Some y else f)
           in if b' \<noteq> None \<and> a' \<noteq> None then Some found
              else if \<not> ah \<and> (b' \<noteq> None \<or> a' \<noteq> None) then Some found
              else search_loop cv ah h (ts_next s) found)
        }"
        using s found True differs by (subst search_loop.simps) auto
      then obtain b' a' where b': "match_gap cv s y (cv_start cv) (ts_endtime s) b = Some b'"
        and a': "match_gap cv s y (ts_starttime s) (cv_end cv) a = Some a'"
        and step: "(let found = (b', a', if cv_start cv > ts_starttime s then Some y else f)
          in if b' \<noteq> None \<and> a' \<noteq> None then Some found
             else if \<not> ah \<and> (b' \<noteq> None \<or> a' \<noteq> None) then Some found
             else search_loop cv ah h (ts_next s) found) = Some found'"
        using Cons.prems(4) by (auto elim!: bind_someE simp del: not_None_eq)
      have b': "b' = b \<or> b' = Some y \<or> b' = None" using b' by (auto simp: match_gap_def split: if_splits elim!: bind_someE)
      have a': "a' = a \<or> a' = None \<or> a' = Some y \<and> joins_after h cv y"
        using a' s True by (auto simp: match_gap_def joins_after_def split: if_splits elim!: bind_someE)
      have ok: "found_in h cv A (b', a', if cv_start cv > ts_starttime s then Some y else f)"
        using Cons.prems(3) found y b' a' by (auto simp: found_in_def)
      then show ?thesis using IH [OF y(2) ok] step s(2) by (auto simp: Let_def split: if_splits)
    qed
  qed
qed


subsection \<open>Placing the coverage\<close>

lemma id_segs_split:
  assumes "id_segs st tid xs" "p \<in> set xs"
  obtains us vs where "xs = us @ p # vs"
  using assms(2) split_list by metis

lemma created_with_pointer:
  assumes "add_pointer al want m e 0 p st1 = Some (st2, True)" "tl_segs st1 p = Some s"
  obtains rl where "st2 = put_seg p (s\<lparr>ts_recordlist := rl\<rparr>) st1"
  using add_pointer_ok [OF assms] by blast

lemma place_new_placed:
  assumes "id_segs st tid (us @ vs)" "in_order (tl_segs st) (us @ vs)" "links_between link tid us (tl_fresh st) vs"
    and "create_seg al m e st = Some (st1, Some p)" "add_pointer al want m e 0 p st1 = Some (st2, True)"
    and "link tid p (tl_segs st2) = Some (h, tid')"
  shows "placed st tid (us @ vs) m e (put_segs h st2) tid' us p vs"
proof -
  obtain s where s: "p = tl_fresh st" "lm_msr2seg al m e = Some (Some s)" "tl_segs st1 = (tl_segs st)(p \<mapsto> s)"
    "tl_fresh st1 = Suc (tl_fresh st)" "outside st1 = outside st"
    using create_seg_ok [OF assms(4)] by blast
  obtain rl where st2: "st2 = put_seg p (s\<lparr>ts_recordlist := rl\<rparr>) st1"
    using created_with_pointer [OF assms(5), of s] s(3) by auto
  let ?s = "s\<lparr>ts_recordlist := rl\<rparr>"
  have p: "p \<notin> set (us @ vs)" using assms(1) s(1) by (auto simp: id_segs_def)
  have "seglist (tl_segs st2) tid (us @ vs)" using assms(1) p by (simp add: st2 s(3) id_segs_def seglist_def)
  from assms(3) [folded s(1), unfolded links_between_def, rule_format, OF this p, of ?s] msr2seg_ok(1,2) [OF s(2)] assms(6)
  obtain f l where l: "tid' = tid\<lparr>id_first := f, id_last := l, id_numsegments := id_numsegments tid + 1\<rparr>"
      "seglist h tid' (us @ p # vs)" "same_payloads (insert p (set (us @ vs))) (tl_segs st2) h"
    by (auto simp: st2)
  show ?thesis
  proof (rule linked_placed [OF assms(1,2) s(1,2), where rl = rl and f = f and l = l and a = "id_earliest tid'" and b = "id_latest tid'"])
    show "seglist (tl_segs (put_segs h st2)) tid' (us @ p # vs)" using l(2) by simp
    have "map_option payload (h p) = map_option payload (tl_segs st2 p)" using l(3) by (simp add: same_payloads_def)
    then show "map_option payload (tl_segs (put_segs h st2) p) = Some (payload ?s)" by (simp add: st2)
    show "map_option payload (tl_segs (put_segs h st2) q) = map_option payload (tl_segs st q)" if "q \<noteq> p" for q
    proof -
      have "map_option payload (h q) = map_option payload (tl_segs st2 q)" using l(3) by (simp add: same_payloads_def)
      then show ?thesis using that s(3) by (simp add: st2)
    qed
    show "tl_segs (put_segs h st2) q = tl_segs st q" if "q \<notin> set (us @ p # vs)" for q
    proof -
      have "h q = tl_segs st2 q" using l(3) that by (simp add: same_payloads_def)
      then show ?thesis using that s(3) by (simp add: st2)
    qed
    show "tl_fresh (put_segs h st2) = Suc (tl_fresh st)" "outside (put_segs h st2) = outside st" using s(4,5) by (simp_all add: st2)
  qed (use l(1) in auto)
qed

lemma place_found_placed:
  assumes "id_segs st tid xs" "in_order (tl_segs st) xs" "found_in (tl_segs st) cv (set xs) found"
    and "\<not> joins_after (tl_segs st) cv (hd xs)"
    and "place_found al want ah m e found st tid = Some (st', tid', Some p)"
  shows "\<exists>us vs. placed st tid xs m e st' tid' us p vs"
proof -
  obtain b a f where found: "found = (b, a, f)" by (cases found) auto
  show ?thesis
  proof (cases b)
    case (Some b)
    then have "b \<in> set xs" using assms(3) found by (simp add: found_in_def)
    then obtain us vs where xs: "xs = us @ b # vs" using split_list by metis
    obtain st1 tid1 r where ext: "extend_end al want m e 1 b (\<lambda>tid. tid) st tid = Some (st1, tid1, Some r)"
      and rest: "(case a of Some a \<Rightarrow> if ah \<and> b \<noteq> a then merge_segs al b a st1 tid1 else Some (st1, tid1, Some r)
         | None \<Rightarrow> Some (st1, tid1, Some r)) = Some (st', tid', Some p)"
      using assms(5) found Some by (auto simp: place_found_def split: option.splits elim!: bind_someE)
    have 1: "r = b" "placed st tid xs m e st1 tid1 us b vs"
      using extend_end_placed [of st tid us b vs al want m e 1 "\<lambda>tid. tid" st1 tid1 r] assms(1,2) ext xs by auto
    show ?thesis
    proof (cases "\<exists>c. a = Some c \<and> ah \<and> b \<noteq> c")
      case True
      then obtain c where c: "a = Some c" "ah" "b \<noteq> c" by blast
      then have "c \<in> set xs" "c \<noteq> hd xs" using assms(3,4) found by (auto simp: found_in_def)
      then have "c \<in> set (us @ vs)" "c \<noteq> hd (us @ b # vs)" using xs c(3) by auto
      moreover have "merge_segs al b c st1 tid1 = Some (st', tid', Some p)" using rest c by simp
      ultimately show ?thesis using merge_placed [OF 1(2) _ _ \<open>b \<in> set xs\<close>] by blast
    next
      case False
      then show ?thesis using rest 1 by (auto split: option.splits if_splits)
    qed
  next
    case None
    show ?thesis
    proof (cases a)
      case (Some c)
      then have "c \<in> set xs" using assms(3) found by (simp add: found_in_def)
      then obtain us vs where xs: "xs = us @ c # vs" using split_list by metis
      have "extend_end al want m e 2 c (\<lambda>tid. tid) st tid = Some (st', tid', Some p)"
        using assms(5) found None Some by (simp add: place_found_def)
      then show ?thesis using extend_end_placed [of st tid us c vs al want m e 2 "\<lambda>tid. tid" st' tid' p] assms(1,2) xs by auto
    next
      case no: None
      obtain st1 st2 h where new: "create_seg al m e st = Some (st1, Some p)" "add_pointer al want m e 0 p st1 = Some (st2, True)"
        "link_behind tid f p (tl_segs st2) = Some (h, tid')" "st' = put_segs h st2"
        using assms(5) found None no by (auto simp: place_found_def split: option.splits if_splits elim!: bind_someE)
      show ?thesis
      proof (cases f)
        case None
        have "links_between (\<lambda>tid. link_behind tid None) tid [] (tl_fresh st) xs"
          using assms(1) by (intro link_first_between) (simp add: id_segs_def)
        from place_new_placed [where us = "[]" and vs = xs, OF _ _ this new(1,2)] show ?thesis
          using assms(1,2) new(3,4) None by auto
      next
        case (Some g)
        then have "g \<in> set xs" using assms(3) found by (simp add: found_in_def)
        then obtain us vs where xs: "xs = us @ g # vs" using split_list by metis
        from place_new_placed [where us = "us @ [g]" and vs = vs, OF _ _ link_behind_between new(1,2)]
        have "placed st tid xs m e st' tid' (us @ [g]) p vs" using assms(1,2) new(3,4) Some xs by simp
        then show ?thesis by blast
      qed
    qed
  qed
qed

lemma place_coverage_placed:
  assumes "id_segs st tid xs" "in_order (tl_segs st) xs" "cv_start cv = msr_starttime m"
    and "place_coverage al want ah m cv st tid = Some (st', tid', Some p)"
  shows "\<exists>us vs. placed st tid xs m (cv_end cv) st' tid' us p vs"
proof -
  obtain y ys where xs: "xs = y # ys" using assms(1) by (cases xs) (auto simp: id_segs_def)
  obtain zs z where xs': "xs = zs @ [z]" using assms(1) by (cases xs rule: rev_cases) (auto simp: id_segs_def)
  have links: "links (tl_segs st) None xs None" using assms(1) by (simp add: id_segs_def seglist_def)
  have "id_first tid = Some y" using assms(1) xs by (simp add: id_segs_def seglist_def)
  moreover have "id_last tid = Some z" using assms(1) unfolding xs' by (simp add: id_segs_def seglist_def)
  ultimately have ends: "id_first tid = Some y" "id_last tid = Some z" .
  obtain s where s: "tl_segs st y = Some s" using links xs by auto
  consider (last) "extend_end al want m (cv_end cv) 1 z (later (cv_end cv)) st tid = Some (st', tid', Some p)"
    | (after) "new_end al want m (cv_end cv) link_last (later (cv_end cv)) st tid = Some (st', tid', Some p)"
    | (before) "new_end al want m (cv_end cv) link_first (earlier (cv_start cv)) st tid = Some (st', tid', Some p)"
    | (first) "extend_end al want m (cv_end cv) 2 y (earlier (cv_start cv)) st tid = Some (st', tid', Some p)"
    | (search) found where "\<not> joins_after (tl_segs st) cv y" "search_loop cv ah (tl_segs st) (id_first tid) (None, None, None) = Some found"
        "place_found al want ah m (cv_end cv) found st tid = Some (st', tid', Some p)"
    using assms(4) ends s
    by (auto simp: place_coverage_def joins_after_def split: if_splits elim!: bind_someE)
  then show ?thesis
  proof cases
    case last
    then show ?thesis
      using extend_end_placed [of st tid zs z "[]" al want m "cv_end cv" 1 "later (cv_end cv)" st' tid' p] assms(1,2) xs' by auto
  next
    case after
    have "links_between link_last tid xs (tl_fresh st) []" using xs by (intro link_last_between) simp
    then show ?thesis
      using new_end_placed [of st tid xs "[]" link_last al want m "cv_end cv" "later (cv_end cv)" st' tid' p] assms(1,2) after by auto
  next
    case before
    have "links_between link_first tid [] (tl_fresh st) xs" using xs by (intro link_first_between) simp
    then show ?thesis
      using new_end_placed [of st tid "[]" xs link_first al want m "cv_end cv" "earlier (cv_start cv)" st' tid' p] assms before by auto
  next
    case first
    then show ?thesis
      using extend_end_placed [of st tid "[]" y ys al want m "cv_end cv" 2 "earlier (cv_start cv)" st' tid' p] assms xs by auto
  next
    case (search found)
    have "found_in (tl_segs st) cv (set xs) found"
      using search(2) ends xs by (intro search_loop_found [OF links, of "set xs" cv "(None, None, None)" ah found]) (simp_all add: found_in_def)
    then show ?thesis using place_found_placed [OF assms(1,2)] search(1,3) xs by simp
  qed
qed

end
