(* ===== verification/TraceInvariant.thy ===== *)
theory TraceInvariant
  imports TraceList "HOL-Library.Multiset"
begin

text \<open>
  The invariant of a trace list: the identifiers form a skip list, the segments of each
  are linked, counted, in time order and within its earliest and latest times, and no
  segment belongs to two identifiers. Adding a record keeps it.
\<close>

subsection \<open>Finishing a segment\<close>

text \<open>The coverage and the samples of a segment.\<close>

definition seg_times :: "segs \<Rightarrow> nat \<Rightarrow> (int \<times> int \<times> int) \<times> samples option \<times> int \<times> char" where
  "seg_times h q =
     ((ts_starttime (the_seg h q), ts_endtime (the_seg h q), ts_samplecnt (the_seg h q)),
      ts_datasamples (the_seg h q), ts_numsamples (the_seg h q), ts_sampletype (the_seg h q))"

lemma seg_times_of: "the_seg h' q = the_seg h q \<Longrightarrow> seg_times h' q = seg_times h q"
  by (simp add: seg_times_def)

lemma in_order_times:
  assumes "\<And>q. q \<in> set xs \<Longrightarrow> seg_times h' q = seg_times h q"
  shows "in_order h' xs = in_order h xs"
proof -
  have "starts_after (the_seg h' a) (the_seg h' b) = starts_after (the_seg h a) (the_seg h b)" if "a \<in> set xs" "b \<in> set xs" for a b
    using assms [OF that(1)] assms [OF that(2)] by (simp add: seg_times_def starts_after_def)
  then show ?thesis unfolding in_order_def by (auto elim!: sorted_wrt_mono_rel [rotated])
qed

lemma sample_total_times:
  assumes "\<And>q. q \<in> set xs \<Longrightarrow> seg_times h' q = seg_times h q"
  shows "sample_total h' xs = sample_total h xs"
  unfolding sample_total_def using assms by (auto simp: seg_times_def intro: arg_cong [of _ _ sum_list])

lemma sample_total_mset: "mset xs = mset ys \<Longrightarrow> sample_total h xs = sample_total h ys"
  unfolding sample_total_def by (metis mset_map sum_mset_sum_list)

lemma seglist_times_upd:
  assumes "seglist h tid zs" "h p = Some s"
  shows "seglist (h(p \<mapsto> s\<lparr>ts_prvtptr := x\<rparr>)) tid zs" "seg_times (h(p \<mapsto> s\<lparr>ts_prvtptr := x\<rparr>)) q = seg_times h q"
  using assms seglist_upd_same [of h p s "s\<lparr>ts_prvtptr := x\<rparr>"] by (simp_all add: seg_times_def the_seg_def payload_def)

lemma finish_segment_ok:
  assumes "tl_ids st a = Some tid" "id_segs st tid (us @ p # vs)" "in_order (tl_segs st) (us @ vs)"
    and "finish_segment al now flags a p st = Some (st', Some r)"
  shows "r = p \<and> (\<exists>zs f l. mset zs = mset (us @ p # vs) \<and>
    tl_ids st' = (tl_ids st)(a \<mapsto> tid\<lparr>id_first := f, id_last := l\<rparr>) \<and>
    id_segs st' (tid\<lparr>id_first := f, id_last := l\<rparr>) zs \<and> in_order (tl_segs st') zs \<and>
    (\<forall>q\<in>set zs. seg_times (tl_segs st') q = seg_times (tl_segs st) q) \<and>
    (\<forall>q. q \<notin> set zs \<longrightarrow> tl_segs st' q = tl_segs st q) \<and>
    tl_next st' = tl_next st \<and> tl_numtraceids st' = tl_numtraceids st \<and> tl_fresh st' = tl_fresh st)"
proof -
  obtain h' tid' us' vs' where sort: "sort_into_place tid p (tl_segs st) = Some (h', tid')" "us @ vs = us' @ vs'"
    "seglist h' tid' (us' @ p # vs')" "in_order h' (us' @ p # vs')" "same_payloads (set (us @ p # vs)) (tl_segs st) h'" "only_ends tid tid'"
    using sort_into_place_spec [of "tl_segs st" tid us p vs] assms(2,3) by (auto simp: id_segs_def)
  obtain f l where tid': "tid' = tid\<lparr>id_first := f, id_last := l\<rparr>" using sort(6) by (auto simp: only_ends_def)
  let ?zs = "us' @ p # vs'"
  have "mset ?zs = mset (us' @ vs') + {#p#}" by simp
  then have mset: "mset ?zs = mset (us @ p # vs)" unfolding sort(2) [symmetric] by simp
  then have set: "set ?zs = set (us @ p # vs)" by (rule mset_eq_setD)
  have old: "tl_segs st q \<noteq> None" if "q \<in> set ?zs" for q
    using assms(2) that links_defined unfolding set by (auto simp: id_segs_def seglist_def)
  have times: "seg_times h' q = seg_times (tl_segs st) q" if "q \<in> set ?zs" for q
    using the_seg_same [OF old [OF that] sort(5)] by (rule seg_times_of)
  have frame: "h' q = tl_segs st q" if "q \<notin> set ?zs" for q
    using sort(5) that unfolding set by (simp add: same_payloads_def)
  obtain s where s: "h' p = Some s" using sort(3) links_defined [of h' None ?zs None p] by (auto simp: seglist_def)
  define st1 where "st1 = st\<lparr>tl_segs := h', tl_ids := (tl_ids st)(a \<mapsto> tid')\<rparr>"
  have ids: "id_segs (put_segs h st1) tid' ?zs" if "seglist h tid' ?zs" for h
    using assms(2) that mset_eq_length [OF mset] unfolding id_segs_def set by (simp add: tid' st1_def put_segs_def)
  consider (plain) "st' = st1" "r = p" | (time) "st' = put_seg p (s\<lparr>ts_prvtptr := Some now\<rparr>) st1" "r = p"
  proof -
    have "finish_segment al now flags a p st = (if flags AND MSF_PPUPDATETIME \<noteq> 0 then
        if ts_prvtptr s = None \<and> \<not> al_update al then Some (st1, None)
        else Some (put_seg p (s\<lparr>ts_prvtptr := Some now\<rparr>) st1, Some p)
      else Some (st1, Some p))"
      by (simp add: finish_segment_def assms(1) sort(1) s st1_def Let_def del: not_None_eq)
    then show thesis using assms(4) that by (simp split: if_splits)
  qed
  then obtain h where st': "st' = put_segs h st1" "r = p" and h: "seglist h tid' ?zs" "\<And>q. seg_times h q = seg_times h' q" "\<And>q. q \<noteq> p \<Longrightarrow> h q = h' q"
  proof cases
    case plain
    then show thesis using sort(3) by (intro that [of h']) (simp_all add: put_segs_def st1_def)
  next
    case time
    have "put_seg p (s\<lparr>ts_prvtptr := Some now\<rparr>) st1 = put_segs (h'(p \<mapsto> s\<lparr>ts_prvtptr := Some now\<rparr>)) st1"
      by (simp add: put_seg_def put_segs_def st1_def)
    then show thesis using time seglist_times_upd [OF sort(3) s]
      by (intro that [of "h'(p \<mapsto> s\<lparr>ts_prvtptr := Some now\<rparr>)"]) simp_all
  qed
  have "in_order h ?zs" using in_order_times [of ?zs h h'] h(2) sort(4) by blast
  moreover have "h q = tl_segs st q" if "q \<notin> set ?zs" for q using that frame h(3) by simp
  moreover have "tl_ids st' = (tl_ids st)(a \<mapsto> tid')" "tl_next st' = tl_next st" "tl_numtraceids st' = tl_numtraceids st"
    "tl_fresh st' = tl_fresh st" "tl_segs st' = h" using st'(1) by (simp_all add: st1_def put_segs_def)
  moreover have "\<forall>q\<in>set ?zs. seg_times h q = seg_times (tl_segs st) q" using times h(2) by simp
  moreover have "id_segs st' tid' ?zs" using ids [OF h(1)] st'(1) by simp
  ultimately show ?thesis
    using st'(2) mset unfolding tid' by (intro conjI exI [of _ ?zs] exI [of _ f] exI [of _ l]) (assumption | simp)+
qed


subsection \<open>The invariant\<close>

definition id_ok :: "MS3TraceList \<Rightarrow> nat \<Rightarrow> nat list \<Rightarrow> bool" where
  "id_ok st a xs \<longleftrightarrow>
     (\<exists>tid. tl_ids st a = Some tid \<and> id_segs st tid xs \<and> in_order (tl_segs st) xs \<and>
        (\<forall>q\<in>set xs. id_earliest tid \<le> ts_starttime (the_seg (tl_segs st) q) \<and> ts_endtime (the_seg (tl_segs st) q) \<le> id_latest tid))"

text \<open>
  The identifiers \<open>ns\<close> with their segments \<open>sl\<close>. Without splitting by version there is one
  identifier for each source identifier.
\<close>

definition trace_ok :: "bool \<Rightarrow> MS3TraceList \<Rightarrow> nat list \<Rightarrow> (nat \<Rightarrow> nat list) \<Rightarrow> bool" where
  "trace_ok split st ns sl \<longleftrightarrow>
     skip_ok st ns \<and> tl_numtraceids st = of_nat (length ns) \<and> (split \<or> distinct (map (\<lambda>a. fst (node_key st a)) ns)) \<and>
     (\<forall>a\<in>set ns. a < tl_fresh st \<and> id_ok st a (sl a)) \<and>
     (\<forall>a\<in>set ns. \<forall>b\<in>set ns. a \<noteq> b \<longrightarrow> set (sl a) \<inter> set (sl b) = {})"

definition list_samples :: "MS3TraceList \<Rightarrow> nat list \<Rightarrow> (nat \<Rightarrow> nat list) \<Rightarrow> int" where
  "list_samples st ns sl = (\<Sum>a\<leftarrow>ns. sample_total (tl_segs st) (sl a))"

text \<open>An identifier that a call does not touch.\<close>

lemma seglist_cong:
  assumes "\<And>q. q \<in> set xs \<Longrightarrow> h' q = h q" "id_first tid' = id_first tid" "id_last tid' = id_last tid"
  shows "seglist h' tid' xs = seglist h tid xs"
proof -
  have "links h' p xs n = links h p xs n" for p n
    using assms(1) by (induction xs arbitrary: p) auto
  then show ?thesis using assms(2,3) by (simp add: seglist_def)
qed

lemma unlinked_more:
  assumes "i\<lparr>id_next := f\<rparr> = j\<lparr>id_next := f\<rparr>"
  shows "id_first i = id_first j" "id_last i = id_last j" "id_numsegments i = id_numsegments j" "id_earliest i = id_earliest j" "id_latest i = id_latest j"
  using assms by (cases i; cases j; simp)+

lemma id_ok_fields:
  assumes "id_ok st a xs" "tl_ids st a = Some tid" "tl_ids st' a = Some tid'" "tl_fresh st \<le> tl_fresh st'"
    and "\<And>q. q \<in> set xs \<Longrightarrow> tl_segs st' q = tl_segs st q" "id_first tid' = id_first tid" "id_last tid' = id_last tid"
    and "id_numsegments tid' = id_numsegments tid" "id_earliest tid' = id_earliest tid" "id_latest tid' = id_latest tid"
  shows "id_ok st' a xs" "sample_total (tl_segs st') xs = sample_total (tl_segs st) xs"
proof -
  have same: "the_seg (tl_segs st') q = the_seg (tl_segs st) q" if "q \<in> set xs" for q using assms(5) [OF that] by (simp add: the_seg_def)
  have tid: "id_segs st tid xs" "in_order (tl_segs st) xs"
    "\<forall>q\<in>set xs. id_earliest tid \<le> ts_starttime (the_seg (tl_segs st) q) \<and> ts_endtime (the_seg (tl_segs st) q) \<le> id_latest tid"
    using assms(1,2) by (auto simp: id_ok_def)
  have "id_segs st' tid' xs"
    using tid(1) seglist_cong [of xs "tl_segs st'" "tl_segs st" tid' tid] assms(4-8) by (auto simp: id_segs_def)
  moreover have "in_order (tl_segs st') xs" using in_order_cong [OF same] tid(2) by blast
  ultimately show "id_ok st' a xs" using tid(3) assms(3,9,10) same by (auto simp: id_ok_def)
  show "sample_total (tl_segs st') xs = sample_total (tl_segs st) xs" using sample_total_cong [OF same] by blast
qed

lemma id_ok_frame:
  assumes "id_ok st a xs" "unlinked st' a = unlinked st a" "\<And>q. q \<in> set xs \<Longrightarrow> tl_segs st' q = tl_segs st q" "tl_fresh st \<le> tl_fresh st'"
  shows "id_ok st' a xs" "sample_total (tl_segs st') xs = sample_total (tl_segs st) xs"
proof -
  obtain tid where tid: "tl_ids st a = Some tid" using assms(1) by (auto simp: id_ok_def)
  obtain tid' where tid': "tl_ids st' a = Some tid'" "tid'\<lparr>id_next := (\<lambda>_. None)\<rparr> = tid\<lparr>id_next := (\<lambda>_. None)\<rparr>"
    using assms(2) tid by (auto simp: unlinked_def)
  note fields = unlinked_more [OF tid'(2)]
  show "id_ok st' a xs" "sample_total (tl_segs st') xs = sample_total (tl_segs st) xs"
    using id_ok_fields [OF assms(1) tid tid'(1) assms(4,3) fields] by auto
qed

text \<open>Changing the data of a node but not its links.\<close>

lemma sorted_wrt_distinct:
  assumes "sorted_wrt P xs" "distinct (map g xs)" "\<And>a b. P a b \<Longrightarrow> g a \<noteq> g b \<Longrightarrow> Q a b"
  shows "sorted_wrt Q xs"
  using assms(1,2)
proof (induction xs)
  case (Cons x xs)
  have "Q x y" if "y \<in> set xs" for y
  proof (rule assms(3))
    show "P x y" using Cons.prems(1) that by simp
    show "g x \<noteq> g y" using Cons.prems(2) that by (metis distinct.simps(2) image_eqI list.map(2) list.set_map)
  qed
  then show ?case using Cons by simp
qed simp

lemma skip_ok_update:
  assumes "skip_ok st ns" "tl_ids st a = Some t" "tl_ids st' = (tl_ids st)(a \<mapsto> t')" "tl_next st' = tl_next st"
    and "id_next t' = id_next t" "id_height t' = id_height t" "id_sid t' = id_sid t"
    and "id_pubversion t' = id_pubversion t \<or> distinct (map (\<lambda>a. fst (node_key st a)) ns)"
  shows "skip_ok st' ns" "fst (node_key st' b) = fst (node_key st b)"
proof -
  have key: "fst (node_key st' b) = fst (node_key st b)" for b using assms(2,3,7) by (simp add: node_key_def)
  have height: "node_height st' b = node_height st b" for b using assms(2,3,6) by (simp add: node_height_def)
  have nx: "next_at st' x l = next_at st x l" for x l using assms(2-5) by (simp add: next_at_def split: node.split)
  have levels: "level_nodes st' l ns = level_nodes st l ns" for l by (simp add: level_nodes_def height)
  have "path st' l Head (level_nodes st' l ns) None" if "l < MSTRACEID_SKIPLIST_HEIGHT" for l
    using assms(1) that path_other_level [of st' l st] nx levels by (simp add: skip_ok_def)
  moreover have "sorted_wrt (<) (map (node_key st') ns)"
  proof (cases "id_pubversion t' = id_pubversion t")
    case True
    then have "node_key st' = node_key st" using assms(2,3,7) by (intro ext) (simp add: node_key_def)
    then show ?thesis using assms(1) by (simp add: skip_ok_def)
  next
    case False
    have "sorted_wrt (\<lambda>a b. node_key st' a < node_key st' b) ns"
    proof (rule sorted_wrt_distinct [where P = "\<lambda>a b. node_key st a < node_key st b" and g = "\<lambda>a. fst (node_key st a)"])
      show "sorted_wrt (\<lambda>a b. node_key st a < node_key st b) ns" using assms(1) by (simp add: skip_ok_def sorted_wrt_map)
      show "node_key st' a < node_key st' b" if "node_key st a < node_key st b" "fst (node_key st a) \<noteq> fst (node_key st b)" for a b
        using that key [of a] key [of b]
        by (cases "node_key st a"; cases "node_key st b"; cases "node_key st' a"; cases "node_key st' b") (auto simp: less_prod_simp le_less)
    qed (use False assms(8) in blast)
    then show ?thesis by (simp add: sorted_wrt_map)
  qed
  ultimately show "skip_ok st' ns" using assms(1,3) by (auto simp: skip_ok_def height)
  show "fst (node_key st' b) = fst (node_key st b)" by (rule key)
qed


subsection \<open>Adding to a known identifier\<close>

lemma times_later:
  "id_earliest (later e (earlier s (track_version v tid))) = min (id_earliest tid) s"
  "id_latest (later e (earlier s (track_version v tid))) = max (id_latest tid) e"
  "id_sid (later e (earlier s (track_version v tid))) = id_sid tid"
  "id_next (later e (earlier s (track_version v tid))) = id_next tid"
  "id_height (later e (earlier s (track_version v tid))) = id_height tid"
  "id_first (later e (earlier s (track_version v tid))) = id_first tid"
  "id_last (later e (earlier s (track_version v tid))) = id_last tid"
  "id_numsegments (later e (earlier s (track_version v tid))) = id_numsegments tid"
  by (simp_all add: later_def earlier_def track_version_def)

lemma sint_le_uint: "sint (v :: u8) \<le> uint v"
  using order_trans [OF _ uint_ge_0 [of v], of "- 128"] by (simp add: sint_uint signed_take_bit_int_less_eq_self_iff)

lemma track_version_same: "id_pubversion tid = v \<or> v = 0 \<Longrightarrow> id_pubversion (later e (earlier s (track_version v tid))) = id_pubversion tid"
  using sint_le_uint [of v] by (auto simp: later_def earlier_def track_version_def)

text \<open>The identifier after the coverage was placed and its segment sorted.\<close>

lemma placed_finished:
  assumes "id_ok st a xs" "tl_ids st a = Some tid" "placed st tid xs m e st1 tid1 us p vs"
    and "tid2 = later e (earlier (msr_starttime m) (track_version v tid1))" "st2 = st1\<lparr>tl_ids := (tl_ids st1)(a \<mapsto> tid2)\<rparr>"
    and "finish_segment al now flags a p st2 = Some (st', Some r)"
  shows "r = p \<and> (\<exists>zs f l. p \<in> set zs \<and> set zs \<subseteq> insert (tl_fresh st) (set xs) \<and> id_ok st' a zs \<and>
    tl_ids st' = (tl_ids st)(a \<mapsto> tid2\<lparr>id_first := f, id_last := l\<rparr>) \<and>
    sample_total (tl_segs st') zs = sample_total (tl_segs st) xs + msr_samplecnt m \<and>
    (\<forall>q. q \<notin> set xs \<longrightarrow> q < tl_fresh st \<longrightarrow> tl_segs st' q = tl_segs st q) \<and>
    tl_next st' = tl_next st \<and> tl_numtraceids st' = tl_numtraceids st \<and> tl_fresh st \<le> tl_fresh st')"
proof -
  have pl: "id_segs st1 tid1 (us @ p # vs)" "in_order (tl_segs st1) (us @ vs)" using assms(3) by (simp_all add: placed_def)
  have segs2: "tl_segs st2 = tl_segs st1" "tl_fresh st2 = tl_fresh st1" "tl_ids st2 a = Some tid2" by (simp_all add: assms(5))
  have ids2: "id_segs st2 tid2 (us @ p # vs)" using pl(1) by (simp add: id_segs_def seglist_def segs2 assms(4) times_later)
  from finish_segment_ok [OF segs2(3) ids2 _ assms(6)] pl(2) obtain zs f l where zs: "r = p" "mset zs = mset (us @ p # vs)"
    "tl_ids st' = (tl_ids st2)(a \<mapsto> tid2\<lparr>id_first := f, id_last := l\<rparr>)" "id_segs st' (tid2\<lparr>id_first := f, id_last := l\<rparr>) zs"
    "in_order (tl_segs st') zs" "\<forall>q\<in>set zs. seg_times (tl_segs st') q = seg_times (tl_segs st2) q"
    "\<forall>q. q \<notin> set zs \<longrightarrow> tl_segs st' q = tl_segs st2 q" "tl_next st' = tl_next st2" "tl_numtraceids st' = tl_numtraceids st2" "tl_fresh st' = tl_fresh st2"
    unfolding segs2 by metis
  have set: "set zs = set (us @ p # vs)" using zs(2) by (rule mset_eq_setD)
  have range: "id_earliest tid2 \<le> ts_starttime (the_seg (tl_segs st1) q) \<and> ts_endtime (the_seg (tl_segs st1) q) \<le> id_latest tid2" if "q \<in> set zs" for q
  proof -
    have t2: "id_earliest tid2 = min (id_earliest tid) (msr_starttime m)" "id_latest tid2 = max (id_latest tid) e"
      using assms(3) by (simp_all add: assms(4) times_later placed_def)
    have old: "id_earliest tid \<le> ts_starttime (the_seg (tl_segs st) q) \<and> ts_endtime (the_seg (tl_segs st) q) \<le> id_latest tid" if "q \<in> set xs" for q
      using assms(1,2) that by (simp add: id_ok_def)
    show ?thesis
    proof (cases "q = p")
      case True
      then show ?thesis using assms(3) old unfolding t2 placed_def by fastforce
    next
      case False
      then have "q \<in> set (us @ vs)" using that set by auto
      then have "q \<in> set xs" "the_seg (tl_segs st1) q = the_seg (tl_segs st) q" using assms(3) by (simp_all add: placed_def)
      then show ?thesis using old [of q] unfolding t2 by auto
    qed
  qed
  have "id_ok st' a zs"
    using zs(3-6) range by (auto simp: id_ok_def seg_times_def segs2)
  moreover have "sample_total (tl_segs st') zs = sample_total (tl_segs st) xs + msr_samplecnt m"
    using sample_total_times [of zs "tl_segs st'" "tl_segs st2"] sample_total_mset [OF zs(2), of "tl_segs st1"] zs(6) assms(3)
    by (simp add: segs2 placed_def)
  moreover have "tl_segs st' q = tl_segs st q" if "q \<notin> set xs" "q < tl_fresh st" for q
  proof -
    have "q \<notin> set zs" using that assms(3) set by (auto simp: placed_def)
    then show ?thesis using zs(7) assms(3) that by (simp add: segs2 placed_def)
  qed
  moreover have "p \<in> set zs" "set zs \<subseteq> insert (tl_fresh st) (set xs)" using set assms(3) by (auto simp: placed_def)
  moreover have "tl_ids st' = (tl_ids st)(a \<mapsto> tid2\<lparr>id_first := f, id_last := l\<rparr>)" "tl_next st' = tl_next st"
    "tl_numtraceids st' = tl_numtraceids st" "tl_fresh st \<le> tl_fresh st'"
    using zs(3,8-10) assms(3) by (simp_all add: assms(5) placed_def outside_def)
  ultimately show ?thesis using zs(1) by blast
qed


subsection \<open>Adding an identifier\<close>

lemma addID_returns: "mstl3_addID (Some st) (Some a) prev = Some (mstl, Some b) \<Longrightarrow> b = a"
  by (auto simp: mstl3_addID_def Let_def split: if_splits prod.splits elim!: bind_someE)

lemma create_new_id:
  assumes "add_new_id al want m e v prev st = Some (st', Some (a, p))"
  shows "\<exists>st0 tid. a = tl_fresh st \<and> p = Suc a \<and>
    tl_ids st0 = (tl_ids st)(a \<mapsto> tid) \<and> tl_next st0 = tl_next st \<and> tl_numtraceids st0 = tl_numtraceids st \<and>
    tl_fresh st0 = Suc (Suc (tl_fresh st)) \<and> (\<forall>q. q \<noteq> p \<longrightarrow> tl_segs st0 q = tl_segs st q) \<and>
    id_sid tid = msr_sid m \<and> id_pubversion tid = v \<and> id_ok st0 a [p] \<and> ts_samplecnt (the_seg (tl_segs st0) p) = msr_samplecnt m \<and>
    mstl3_addID (Some st0) (Some a) (Some prev) = Some (Some st', Some a)"
proof -
  let ?tid = "\<lparr>id_sid = msr_sid m, id_pubversion = v, id_earliest = msr_starttime m, id_latest = e,
                     id_numsegments = 1, id_first = None, id_last = None, id_next = (\<lambda>_. None), id_height = 0\<rparr>"
  define st1 where "st1 = st\<lparr>tl_fresh := Suc (tl_fresh st)\<rparr>"
  have a: "allocate (al_malloc al) st = (st1, if al_malloc al (tl_fresh st) then Some (tl_fresh st) else None)"
    by (simp add: allocate_def st1_def)
  have al: "al_malloc al (tl_fresh st)" using assms a by (auto simp: add_new_id_def split: if_splits)
  note unfolded = assms [unfolded add_new_id_def a Let_def, simplified al if_True prod.case option.case]
  then obtain st2 q where c: "create_seg al m e st1 = Some (st2, Some q)"
    by (auto split: option.splits elim!: bind_someE)
  from create_seg_ok [OF c] obtain s where s: "q = tl_fresh st1" "lm_msr2seg al m e = Some (Some s)" "tl_segs st2 = (tl_segs st1)(q \<mapsto> s)"
    "tl_fresh st2 = Suc (tl_fresh st1)" "outside st2 = outside st1" by blast
  define tid where "tid = ?tid\<lparr>id_first := Some q, id_last := Some q\<rparr>"
  obtain st3 ok where ptr: "add_pointer al want m e 1 q st2 = Some (st3, ok)"
    using unfolded c by (cases "add_pointer al want m e 1 q st2") auto
  then have ok using unfolded c by (cases ok) auto
  define st0 where "st0 = st3\<lparr>tl_ids := (tl_ids st3)(tl_fresh st \<mapsto> tid)\<rparr>"
  have rest: "Option.bind (mstl3_addID (Some st0) (Some (tl_fresh st)) (Some prev))
      (\<lambda>(mstl, r). Option.bind mstl (\<lambda>st'. Some (st', if r = None then None else Some (tl_fresh st, q)))) = Some (st', Some (a, p))"
    using unfolded c ptr \<open>ok\<close> by (simp add: st0_def tid_def)
  obtain mstl r where r: "mstl3_addID (Some st0) (Some (tl_fresh st)) (Some prev) = Some (mstl, r)"
    using rest by (auto elim!: bind_someE)
  have "mstl = Some st' \<and> r \<noteq> None \<and> a = tl_fresh st \<and> p = q"
    using rest r by (cases mstl; cases r) auto
  then have add: "mstl3_addID (Some st0) (Some a) (Some prev) = Some (Some st', Some a)" and ap: "a = tl_fresh st" "p = q"
    using r addID_returns [of st0 "tl_fresh st" "Some prev" mstl] by auto
  from add_pointer_ok [OF ptr, of s] s(3) obtain rl where st3: "st3 = put_seg q (s\<lparr>ts_recordlist := rl\<rparr>) st2" by auto
  note ok = msr2seg_ok [OF s(2)]
  have tid: "id_sid tid = msr_sid m" "id_pubversion tid = v" "id_first tid = Some q" "id_last tid = Some q" "id_numsegments tid = 1"
    "id_earliest tid = msr_starttime m" "id_latest tid = e" by (simp_all add: tid_def)
  have st0: "tl_segs st0 = (tl_segs st)(q \<mapsto> s\<lparr>ts_recordlist := rl\<rparr>)" "tl_ids st0 = (tl_ids st)(a \<mapsto> tid)"
    "tl_next st0 = tl_next st" "tl_numtraceids st0 = tl_numtraceids st" "tl_fresh st0 = Suc (Suc (tl_fresh st))"
    using s(3-5) by (simp_all add: st0_def ap st3 st1_def outside_def put_seg_def)
  have q: "q = Suc (tl_fresh st)" using s(1) by (simp add: st1_def)
  have seg: "the_seg (tl_segs st0) q = payload (s\<lparr>ts_recordlist := rl\<rparr>)" by (simp add: st0(1) the_seg_def)
  have "id_segs st0 tid [q]"
    using ok(1,2) tid(3-5) by (simp add: id_segs_def seglist_def st0(1,5)) (simp add: q)
  then have "id_ok st0 a [q]"
    using ok(4,5) tid(6,7) by (simp add: id_ok_def st0(2) seg in_order_def)
  moreover have "ts_samplecnt (the_seg (tl_segs st0) q) = msr_samplecnt m" using ok(3) by (simp add: seg)
  moreover have "mstl3_addID (Some st0) (Some a) (Some prev) = Some (Some st', Some a)" by (rule add)
  moreover have "a = tl_fresh st" "p = Suc a" using ap q by simp_all
  moreover have "\<forall>x. x \<noteq> p \<longrightarrow> tl_segs st0 x = tl_segs st x" using ap(2) by (simp add: st0(1))
  ultimately show ?thesis using st0(2-5) tid(1,2) ap(2) by blast
qed


subsection \<open>The invariant is kept\<close>

lemma list_samples_others:
  assumes "distinct ns" "a \<in> set ns" "\<And>b. b \<in> set ns \<Longrightarrow> b \<noteq> a \<Longrightarrow> sample_total h' (sl' b) = sample_total h (sl b)"
    and "sample_total h' (sl' a) = sample_total h (sl a) + n"
  shows "(\<Sum>b\<leftarrow>ns. sample_total h' (sl' b)) = (\<Sum>b\<leftarrow>ns. sample_total h (sl b)) + n"
proof -
  obtain us vs where ns: "ns = us @ a # vs" using assms(2) split_list by metis
  have e: "map (\<lambda>b. sample_total h' (sl' b)) us = map (\<lambda>b. sample_total h (sl b)) us"
    "map (\<lambda>b. sample_total h' (sl' b)) vs = map (\<lambda>b. sample_total h (sl b)) vs"
    using assms(1,3) ns by auto
  show ?thesis by (simp add: ns e assms(4))
qed

lemma add_known_keeps:
  assumes "trace_ok split st ns sl" "a \<in> set ns" "tl_ids st a = Some tid" "split \<Longrightarrow> v = 0 \<or> id_pubversion tid = v"
    and "add_to_id al want ah m e v tol st tid = Some (st1, tid2, Some p)"
    and "finish_segment al now flags a p (st1\<lparr>tl_ids := (tl_ids st1)(a \<mapsto> tid2)\<rparr>) = Some (st', Some r)"
  shows "r = p \<and> (\<exists>sl'. trace_ok split st' ns sl' \<and> list_samples st' ns sl' = list_samples st ns sl + msr_samplecnt m \<and>
    p \<in> set (sl' a) \<and> fst (node_key st' a) = id_sid tid)"
proof -
  have ok: "id_ok st a (sl a)" and segs: "id_segs st tid (sl a)" "in_order (tl_segs st) (sl a)"
    using assms(1-3) by (auto simp: trace_ok_def id_ok_def)
  have skip: "skip_ok st ns" using assms(1) by (simp add: trace_ok_def)
  obtain cv tid1 where cv: "record_coverage m e tol = Some cv" "place_coverage al want ah m cv st tid = Some (st1, tid1, Some p)"
    and tid2: "tid2 = later e (earlier (msr_starttime m) (track_version v tid1))"
    using assms(5) by (auto simp: add_to_id_def split: if_splits elim!: bind_someE)
  have ends: "cv_start cv = msr_starttime m" "cv_end cv = e" using cv(1) by (auto simp: record_coverage_def elim!: bind_someE)
  obtain us vs where pl: "placed st tid (sl a) m e st1 tid1 us p vs"
    using place_coverage_placed [OF segs ends(1) cv(2)] ends(2) by auto
  obtain zs f l where zs: "r = p" "p \<in> set zs" "set zs \<subseteq> insert (tl_fresh st) (set (sl a))" "id_ok st' a zs"
    "tl_ids st' = (tl_ids st)(a \<mapsto> tid2\<lparr>id_first := f, id_last := l\<rparr>)"
    "sample_total (tl_segs st') zs = sample_total (tl_segs st) (sl a) + msr_samplecnt m"
    "\<forall>q. q \<notin> set (sl a) \<longrightarrow> q < tl_fresh st \<longrightarrow> tl_segs st' q = tl_segs st q"
    "tl_next st' = tl_next st" "tl_numtraceids st' = tl_numtraceids st" "tl_fresh st \<le> tl_fresh st'"
    using placed_finished [OF ok assms(3) pl tid2 refl assms(6)] by blast
  have fields: "id_next tid2 = id_next tid" "id_height tid2 = id_height tid" "id_sid tid2 = id_sid tid"
    using pl by (simp_all add: tid2 times_later placed_def)
  have "id_pubversion tid2 = id_pubversion tid1" if split
    unfolding tid2 using assms(4) [OF that] pl by (intro track_version_same) (auto simp: placed_def)
  then have vers: "id_pubversion tid2 = id_pubversion tid \<or> distinct (map (\<lambda>a. fst (node_key st a)) ns)"
    using assms(1) pl by (auto simp: trace_ok_def placed_def)
  have upd: "skip_ok st' ns" "\<And>b. fst (node_key st' b) = fst (node_key st b)"
    using skip_ok_update [OF skip assms(3) zs(5,8)] fields vers by simp_all
  have inside: "q < tl_fresh st" if "b \<in> set ns" "q \<in> set (sl b)" for b q
    using assms(1) that by (auto simp: trace_ok_def id_ok_def id_segs_def)
  have disj: "set (sl b) \<inter> set (sl c) = {}" if "b \<in> set ns" "c \<in> set ns" "b \<noteq> c" for b c
    using assms(1) that by (auto simp: trace_ok_def)
  have other: "id_ok st' b (sl b)" "sample_total (tl_segs st') (sl b) = sample_total (tl_segs st) (sl b)" if "b \<in> set ns" "b \<noteq> a" for b
  proof -
    have "id_ok st b (sl b)" using assms(1) that by (simp add: trace_ok_def)
    moreover have "unlinked st' b = unlinked st b" using that zs(5) by (simp add: unlinked_def)
    moreover have "tl_segs st' q = tl_segs st q" if q: "q \<in> set (sl b)" for q
      using zs(7) disj [OF \<open>b \<in> set ns\<close> assms(2) \<open>b \<noteq> a\<close>] inside [OF \<open>b \<in> set ns\<close> q] q by blast
    ultimately show "id_ok st' b (sl b)" "sample_total (tl_segs st') (sl b) = sample_total (tl_segs st) (sl b)"
      using id_ok_frame zs(10) by blast+
  qed
  let ?sl = "sl(a := zs)"
  have apart: "set (?sl b) \<inter> set (?sl c) = {}" if "b \<in> set ns" "c \<in> set ns" "b \<noteq> c" for b c
  proof -
    have new: "set zs \<inter> set (sl d) = {}" if "d \<in> set ns" "d \<noteq> a" for d
      using zs(3) disj [OF that(1) assms(2) that(2)] inside [OF that(1)] by fastforce
    show ?thesis using that disj new by (auto simp: disjoint_iff)
  qed
  have "trace_ok split st' ns ?sl"
    using assms(1) upd zs(4,9,10) other apart by (auto simp: trace_ok_def intro: less_le_trans)
  moreover have "list_samples st' ns ?sl = list_samples st ns sl + msr_samplecnt m"
    unfolding list_samples_def using other zs(6) by (intro list_samples_others [OF skip_ok_distinct [OF skip] assms(2)]) simp_all
  moreover have "fst (node_key st' a) = id_sid tid" using upd(2) [of a] assms(3) by (simp add: node_key_def)
  ultimately show ?thesis using zs(1,2) by (intro conjI exI [of _ ?sl]) simp_all
qed


lemma findID_absent:
  assumes "skip_ok st ns" "mstl3_findID (Some st) (Some sid) 0 prev = Some (None, prev')" "b \<in> set ns"
  shows "fst (node_key st b) \<noteq> sid"
proof -
  have "search_result st sid 0 MSTRACEID_SKIPLIST_HEIGHT Head ns prev (None, prev')"
    using findID_result [OF assms(1), of sid 0 prev] assms(2) by simp
  then have "\<forall>l<MSTRACEID_SKIPLIST_HEIGHT. \<forall>a\<in>set (level_nodes st l ns). cmp_at st sid 0 a \<noteq> 0" by (simp add: search_result_def)
  from spec [OF this, of 0] have "\<forall>a\<in>set (level_nodes st 0 ns). cmp_at st sid 0 a \<noteq> 0" by simp
  then have "cmp_at st sid 0 b \<noteq> 0" using assms(3) by (simp add: skip_ok_levels [OF assms(1)])
  moreover have "tl_ids st b \<noteq> None" using assms(1,3) by (simp add: skip_ok_def)
  ultimately show ?thesis using cmp_at_0 by auto
qed

lemma distinct_between: "distinct (xs @ ys) \<Longrightarrow> z \<notin> set (xs @ ys) \<Longrightarrow> distinct (xs @ z # ys)"
  by auto

lemma add_new_keeps:
  assumes "trace_ok split st ns sl" "add_new_id al want m e v prev st = Some (st1, Some (a, p))"
    and "mstl3_findID (Some st) (Some (msr_sid m)) (if split then v else 0) (\<lambda>_. None) = Some (None, prev)"
    and "finish_segment al now flags a p st1 = Some (st', Some r)"
  shows "r = p \<and> (\<exists>ns' sl'. trace_ok split st' ns' sl' \<and> list_samples st' ns' sl' = list_samples st ns sl + msr_samplecnt m \<and>
    a \<in> set ns' \<and> p \<in> set (sl' a) \<and> fst (node_key st' a) = msr_sid m)"
proof -
  have skip: "skip_ok st ns" using assms(1) by (simp add: trace_ok_def)
  obtain st0 tid where new: "a = tl_fresh st" "p = Suc a" "tl_ids st0 = (tl_ids st)(a \<mapsto> tid)" "tl_next st0 = tl_next st"
    "tl_numtraceids st0 = tl_numtraceids st" "tl_fresh st0 = Suc (Suc (tl_fresh st))" "\<forall>q. q \<noteq> p \<longrightarrow> tl_segs st0 q = tl_segs st q"
    "id_sid tid = msr_sid m" "id_pubversion tid = v" "id_ok st0 a [p]" "ts_samplecnt (the_seg (tl_segs st0) p) = msr_samplecnt m"
    "mstl3_addID (Some st0) (Some a) (Some prev) = Some (Some st1, Some a)"
    using create_new_id [OF assms(2)] by blast
  have fresh: "a \<notin> set ns" using assms(1) new(1) by (auto simp: trace_ok_def)
  have key: "node_key st0 b = node_key st b" if "b \<in> set ns" for b using new(3) fresh that by (auto simp: node_key_def)
  have keya: "node_key st0 a = (msr_sid m, v)" using new(3,8,9) by (simp add: node_key_def)
  have skip0: "skip_ok st0 ns"
  proof -
    have height: "node_height st0 b = node_height st b" if "b \<in> set ns" for b using new(3) fresh that by (auto simp: node_height_def)
    then have levels: "level_nodes st0 l ns = level_nodes st l ns" for l by (auto simp: level_nodes_def intro: filter_cong)
    have "path st0 l Head (level_nodes st0 l ns) None = path st l Head (level_nodes st l ns) None" for l
      unfolding levels using new(3,4) fresh by (intro path_cong) (auto simp: next_at_def level_nodes_def)
    moreover have "map (node_key st0) ns = map (node_key st) ns" using key by simp
    ultimately show ?thesis using skip height new(3) by (simp add: skip_ok_def del: map_eq_conv)
  qed
  have "search_result st (msr_sid m) (if split then v else 0) MSTRACEID_SKIPLIST_HEIGHT Head ns (\<lambda>_. None) (None, prev)"
    using findID_result [OF skip, of "msr_sid m" "if split then v else 0" "\<lambda>_. None"] assms(3) by simp
  moreover have "(if split then v else 0) = 0 \<or> (if split then v else 0) = v" by simp
  ultimately obtain as bs where ns: "ns = as @ bs"
    and prev: "\<forall>l<MSTRACEID_SKIPLIST_HEIGHT. prev l = Some (last_node Head (level_nodes st l as))"
    and order: "\<forall>b\<in>set as. node_key st b < (msr_sid m, v)" "\<forall>b\<in>set bs. (msr_sid m, v) < node_key st b"
    using not_found_split [OF skip] by blast
  have "level_nodes st0 l as = level_nodes st l as" for l
  proof -
    have "node_height st0 b = node_height st b" if "b \<in> set as" for b using new(3) fresh ns that by (auto simp: node_height_def)
    then show ?thesis by (auto simp: level_nodes_def intro: filter_cong)
  qed
  then have prev0: "\<forall>l<MSTRACEID_SKIPLIST_HEIGHT. prev l = Some (last_node Head (level_nodes st0 l as))" using prev by simp
  have order0: "\<forall>b\<in>set as. node_key st0 b < node_key st0 a" "\<forall>b\<in>set bs. node_key st0 a < node_key st0 b"
    using order key keya ns by auto
  have tid0: "tl_ids st0 a = Some tid" using new(3) by simp
  obtain height where add: "skip_ok st1 (as @ a # bs)" "\<And>b. node_key st1 b = node_key st0 b" "\<And>b. b \<noteq> a \<Longrightarrow> unlinked st1 b = unlinked st0 b"
    "unlinked st1 a = Some (tid\<lparr>id_height := height, id_next := (\<lambda>_. None)\<rparr>)" "tl_segs st1 = tl_segs st0" "tl_fresh st1 = tl_fresh st0"
    "tl_numtraceids st1 = tl_numtraceids st0 + 1"
    using addID_links [OF skip0 [unfolded ns] tid0 fresh [unfolded ns] prev0 order0] new(12) by auto
  obtain tid1 where tid1: "tl_ids st1 a = Some tid1" "tid1\<lparr>id_next := (\<lambda>_. None)\<rparr> = (tid\<lparr>id_height := height\<rparr>)\<lparr>id_next := (\<lambda>_. None)\<rparr>"
    using add(4) by (auto simp: unlinked_def)
  note fields = unlinked_more [OF tid1(2)] unlinked_fields [OF tid1(2)]
  have ok1: "id_ok st1 a [p]"
    using id_ok_fields(1) [OF new(10) tid0 tid1(1)] add(5,6) fields by simp
  then have segs1: "id_segs st1 tid1 ([] @ p # [])" using tid1(1) by (simp add: id_ok_def)
  have "in_order (tl_segs st1) ([] @ [])" by (simp add: in_order_def)
  from finish_segment_ok [OF tid1(1) segs1 this assms(4)] obtain zs f l where zs: "r = p" "mset zs = mset [p]"
    "tl_ids st' = (tl_ids st1)(a \<mapsto> tid1\<lparr>id_first := f, id_last := l\<rparr>)" "id_segs st' (tid1\<lparr>id_first := f, id_last := l\<rparr>) zs"
    "in_order (tl_segs st') zs" "\<forall>q\<in>set zs. seg_times (tl_segs st') q = seg_times (tl_segs st1) q"
    "\<forall>q. q \<notin> set zs \<longrightarrow> tl_segs st' q = tl_segs st1 q" "tl_next st' = tl_next st1" "tl_numtraceids st' = tl_numtraceids st1" "tl_fresh st' = tl_fresh st1"
    unfolding append_Nil by metis
  have zsp: "zs = [p]" using zs(2) by simp
  have oka: "id_ok st' a [p]"
    using ok1 zs(3-6) tid1(1) by (auto simp: id_ok_def zsp seg_times_def)
  have total: "sample_total (tl_segs st') [p] = msr_samplecnt m"
    using zs(6) new(11) add(5) by (simp add: sample_total_def zsp seg_times_def)
  have upd: "skip_ok st' (as @ a # bs)" "\<And>b. fst (node_key st' b) = fst (node_key st1 b)"
    using skip_ok_update [OF add(1) tid1(1) zs(3,8)] by simp_all
  have inside: "q < tl_fresh st" if "b \<in> set ns" "q \<in> set (sl b)" for b q
    using assms(1) that by (auto simp: trace_ok_def id_ok_def id_segs_def)
  have other: "id_ok st' b (sl b)" "sample_total (tl_segs st') (sl b) = sample_total (tl_segs st) (sl b)" if b: "b \<in> set ns" for b
  proof -
    have ba: "b \<noteq> a" using b fresh by auto
    have "id_ok st b (sl b)" using assms(1) b by (simp add: trace_ok_def)
    moreover have "unlinked st' b = unlinked st b" using ba zs(3) add(3) [OF ba] new(3) by (simp add: unlinked_def)
    moreover have "tl_segs st' q = tl_segs st q" if "q \<in> set (sl b)" for q
      using zs(7) new(1,2,7) add(5) inside [OF b that] by (simp add: zsp)
    moreover have "tl_fresh st \<le> tl_fresh st'" using zs(10) add(6) new(6) by simp
    ultimately show "id_ok st' b (sl b)" "sample_total (tl_segs st') (sl b) = sample_total (tl_segs st) (sl b)"
      using id_ok_frame by blast+
  qed
  let ?sl = "sl(a := [p])" let ?ns = "as @ a # bs"
  have sets: "set ?ns = insert a (set ns)" using ns by auto
  have apart: "set (?sl b) \<inter> set (?sl c) = {}" if "b \<in> set ?ns" "c \<in> set ?ns" "b \<noteq> c" for b c
  proof -
    have "p \<notin> set (sl d)" if "d \<in> set ns" for d using inside [OF that, of p] new(1,2) by auto
    moreover have "set (sl b) \<inter> set (sl c) = {}" if "b \<in> set ns" "c \<in> set ns" using assms(1) that \<open>b \<noteq> c\<close> by (auto simp: trace_ok_def)
    moreover have "b = a \<or> b \<in> set ns" "c = a \<or> c \<in> set ns" using that(1,2) unfolding sets by simp_all
    ultimately show ?thesis using that(3) by auto
  qed
  have sids: "fst (node_key st' b) = fst (node_key st b)" if "b \<in> set ns" for b using upd(2) add(2) key [OF that] by simp
  have sida: "fst (node_key st' a) = msr_sid m" using upd(2) add(2) keya by simp
  have dist: "distinct (map (\<lambda>a. fst (node_key st' a)) ?ns)" if "\<not> split"
  proof -
    have absent: "fst (node_key st b) \<noteq> msr_sid m" if "b \<in> set ns" for b
      using findID_absent [OF skip, of "msr_sid m"] assms(3) \<open>\<not> split\<close> that by simp
    have e: "map (\<lambda>a. fst (node_key st' a)) ?ns = map (\<lambda>a. fst (node_key st a)) as @ msr_sid m # map (\<lambda>a. fst (node_key st a)) bs"
      using sids sida ns by simp
    have "distinct (map (\<lambda>a. fst (node_key st a)) as @ map (\<lambda>a. fst (node_key st a)) bs)"
      using assms(1) that by (simp add: trace_ok_def ns)
    moreover have "msr_sid m \<notin> set (map (\<lambda>a. fst (node_key st a)) as @ map (\<lambda>a. fst (node_key st a)) bs)"
      using absent unfolding ns by fastforce
    ultimately show ?thesis unfolding e by (rule distinct_between)
  qed
  have "a < tl_fresh st'" using zs(10) add(6) new(1,6) by simp
  moreover have "b < tl_fresh st'" if "b < tl_fresh st" for b using that zs(10) add(6) new(6) by simp
  ultimately have "trace_ok split st' ?ns ?sl"
    using assms(1) upd(1) dist oka other apart zs(9) add(7) new(5) fresh ns by (auto simp: trace_ok_def)
  moreover have "list_samples st' ?ns ?sl = list_samples st ns sl + msr_samplecnt m"
  proof -
    have "(\<Sum>b\<leftarrow>xs. sample_total (tl_segs st') (if b = a then [p] else sl b)) = (\<Sum>b\<leftarrow>xs. sample_total (tl_segs st) (sl b))"
      if "set xs \<subseteq> set ns" for xs
      using that by (induction xs) (use other(2) fresh in auto)
    from this [of as] this [of bs] show ?thesis using total by (simp add: list_samples_def ns)
  qed
  ultimately show ?thesis using zs(1) sida by (intro conjI exI [of _ ?ns] exI [of _ ?sl]) simp_all
qed


lemma addmsr_keeps:
  assumes "trace_ok (splitversion \<noteq> 0) st ns sl"
    and "mstl3_addmsr_impl al lslist now (Some st) (Some m) want splitversion autoheal flags tolerance = Some (Some st', Some p)"
  shows "\<exists>ns' sl'. trace_ok (splitversion \<noteq> 0) st' ns' sl' \<and>
    list_samples st' ns' sl' = list_samples st ns sl + msr_samplecnt m \<and>
    (\<exists>a\<in>set ns'. p \<in> set (sl' a) \<and> fst (node_key st' a) = msr_sid m)"
proof -
  define v where "v = (if flags AND MSF_SPLITISVERSION \<noteq> 0 then splitversion else msr_pubversion m)"
  obtain e found prev where e: "defined_value (msr3_endtime lslist (Some m)) = Some e" "e \<noteq> NSTERROR"
    and find: "mstl3_findID (Some st) (Some (msr_sid m)) (if splitversion \<noteq> 0 then v else 0) (\<lambda>_. None) = Some (found, prev)"
    using assms(2) by (auto simp: mstl3_addmsr_impl_def v_def Let_def split: if_splits elim!: bind_someE)
  show ?thesis
  proof (cases found)
    case None
    obtain st1 a q where new: "add_new_id al want m e v prev st = Some (st1, Some (a, q))" "finish_segment al now flags a q st1 = Some (st', Some p)"
      using assms(2) e find None
      by (auto simp: mstl3_addmsr_impl_def v_def [symmetric] Let_def split: option.splits elim!: bind_someE)
    then show ?thesis using add_new_keeps [OF assms(1) new(1) find [unfolded None] new(2)] by blast
  next
    case (Some a)
    have skip: "skip_ok st ns" using assms(1) by (simp add: trace_ok_def)
    have res: "search_result st (msr_sid m) (if splitversion \<noteq> 0 then v else 0) MSTRACEID_SKIPLIST_HEIGHT Head ns (\<lambda>_. None) (Some a, prev)"
      using findID_result [OF skip, of "msr_sid m" "if splitversion \<noteq> 0 then v else 0" "\<lambda>_. None"] find Some by simp
    then have a: "a \<in> set ns" by (simp add: search_result_def)
    then obtain tid where tid: "tl_ids st a = Some tid" using skip by (auto simp: skip_ok_def)
    have match: "id_sid tid = msr_sid m" "splitversion \<noteq> 0 \<Longrightarrow> v = 0 \<or> id_pubversion tid = v"
      using res cmp_at_0 [of st a "msr_sid m"] tid by (auto simp: search_result_def node_key_def split: if_splits)
    obtain st1 tid2 q where known: "add_to_id al want autoheal m e v tolerance st tid = Some (st1, tid2, Some q)"
      "finish_segment al now flags a q (st1\<lparr>tl_ids := (tl_ids st1)(a \<mapsto> tid2)\<rparr>) = Some (st', Some p)"
      using assms(2) e find Some tid
      by (auto simp: mstl3_addmsr_impl_def v_def [symmetric] Let_def split: option.splits elim!: bind_someE)
    then show ?thesis using add_known_keeps [OF assms(1) a tid match(2) known] a match(1) by metis
  qed
qed


subsection \<open>The lists that additions make\<close>

text \<open>
  The lists that successful additions make of an empty one, by version or not, with the
  number of samples added. Everything else may change from call to call.
\<close>

inductive built :: "bool \<Rightarrow> MS3TraceList \<Rightarrow> int \<Rightarrow> bool" where
  built_init: "built split mstl3_init 0"
| built_add: "built split st n \<Longrightarrow> (splitversion \<noteq> 0) = split \<Longrightarrow>
    mstl3_addmsr_impl al lslist now (Some st) (Some m) want splitversion autoheal flags tolerance = Some (Some st', Some p) \<Longrightarrow>
    built split st' (n + msr_samplecnt m)"

lemma built_ok:
  assumes "built split st n"
  shows "\<exists>ns sl. trace_ok split st ns sl \<and> list_samples st ns sl = n"
  using assms
proof induction
  case (built_init split)
  have "trace_ok split mstl3_init [] (\<lambda>_. [])" by (simp add: trace_ok_def skip_ok_init) (simp add: mstl3_init_def)
  moreover have "list_samples mstl3_init [] (\<lambda>_. []) = 0" by (simp add: list_samples_def)
  ultimately show ?case by blast
next
  case (built_add split st n splitversion al lslist now m want autoheal flags tolerance st' p)
  then obtain ns sl where "trace_ok (splitversion \<noteq> 0) st ns sl" "list_samples st ns sl = n" by blast
  from addmsr_keeps [OF this(1) built_add.hyps(3)] this(2) show ?case using built_add.hyps(2) by auto
qed

text \<open>
  C2. A trace list that additions made is well-formed after one more: the skip list is
  sorted and linked at all levels and counts its identifiers, the segments of each are
  linked in both directions, counted, in time order and within its earliest and latest
  times, and no segment is in two identifiers. The segment returned belongs to the
  identifier with the source identifier of the record, and the list covers exactly the samples that
  were added: none are lost or counted twice by extending, inserting, healing or sorting,
  whatever the records, their order, the tolerances and the flags.
\<close>

theorem addmsr_keeps_trace_list:
  assumes "built (splitversion \<noteq> 0) st n"
    and "mstl3_addmsr_impl al lslist now (Some st) (Some m) want splitversion autoheal flags tolerance = Some (Some st', Some p)"
  shows "\<exists>ns sl. trace_ok (splitversion \<noteq> 0) st' ns sl \<and> list_samples st' ns sl = n + msr_samplecnt m \<and>
    (\<exists>a\<in>set ns. p \<in> set (sl a) \<and> fst (node_key st' a) = msr_sid m)"
proof -
  obtain ns sl where ok: "trace_ok (splitversion \<noteq> 0) st ns sl" "list_samples st ns sl = n" using built_ok [OF assms(1)] by blast
  from addmsr_keeps [OF ok(1) assms(2)] ok(2) show ?thesis by auto
qed

text \<open>Three records of one channel, the last of which joins the segments of the others.\<close>

definition all_ok :: allocs where
  "all_ok = \<lparr>al_malloc = (\<lambda>_. True), al_data = True, al_realloc = True, al_merge = True, al_recordptr = True, al_update = True, al_block = 0\<rparr>"

definition rec_at :: "int \<Rightarrow> i32 list \<Rightarrow> MS3Record" where
  "rec_at t xs = MS3Record_INITIALIZER\<lparr>msr_sid := [70, 68], msr_pubversion := 1, msr_starttime := t, msr_samprate := f_one,
     msr_samplecnt := int (length xs), msr_datasamples := Some (IntSamples xs), msr_datasize := 4 * length xs,
     msr_numsamples := int (length xs), msr_sampletype := CHR ''i''\<rparr>"

definition add_next :: "MS3TraceList \<Rightarrow> MS3Record \<Rightarrow> (MS3TraceList \<times> nat) option" where
  "add_next st m = do {
     (mstl, seg) \<leftarrow> mstl3_addmsr_impl all_ok [] 0 (Some st) (Some m) True 0 True 0 None;
     st \<leftarrow> mstl;
     p \<leftarrow> seg;
     Some (st, p)
   }"

lemma add_next_eq: "add_next st m = Some (st', p) \<longleftrightarrow>
  mstl3_addmsr_impl all_ok [] 0 (Some st) (Some m) True 0 True 0 None = Some (Some st', Some p)"
  by (auto simp: add_next_def elim!: bind_someE)

lemma three_records:
  "do { (s1, p1) \<leftarrow> add_next mstl3_init (rec_at 0 [1, 2]);
        (s2, p2) \<leftarrow> add_next s1 (rec_at 3000000000 [4]);
        (s3, p3) \<leftarrow> add_next s2 (rec_at 2000000000 [3]);
        s \<leftarrow> tl_segs s3 p3;
        Some ([p1, p2, p3], seg_samples s) } = Some ([1, 2, 1], Some (IntSamples [1, 2, 3, 4]))"
  by code_simp

theorem addmsr_keeps_trace_list_witness:
  "\<exists>st n st' ns sl. built False st n \<and>
    mstl3_addmsr_impl all_ok [] 0 (Some st) (Some (rec_at 2000000000 [3])) True 0 True 0 None = Some (Some st', Some 1) \<and>
    trace_ok False st' ns sl \<and> list_samples st' ns sl = 4"
proof -
  obtain s1 s2 s3 where s: "add_next mstl3_init (rec_at 0 [1, 2]) = Some (s1, 1)" "add_next s1 (rec_at 3000000000 [4]) = Some (s2, 2)"
    "add_next s2 (rec_at 2000000000 [3]) = Some (s3, 1)"
    using three_records by (auto elim!: bind_someE)
  have "built False s1 (0 + msr_samplecnt (rec_at 0 [1, 2]))"
    using s(1) by (intro built_add [OF built_init _ s(1) [unfolded add_next_eq]]) simp
  from built_add [OF this _ s(2) [unfolded add_next_eq]] have "built False s2 3" by (simp add: rec_at_def)
  from this addmsr_keeps_trace_list [of 0 s2 3, OF _ s(3) [unfolded add_next_eq]] s(3) show ?thesis
    unfolding add_next_eq by (auto simp: rec_at_def)
qed

end
