(* ===== verification/TraceExtend.thy ===== *)
theory TraceExtend
  imports TraceInvariant
begin

text \<open>
  What adding a record does to the data: a record that continues the last segment of its
  identifier extends it, with the default tolerances; and the effect of a sample rate
  tolerance.
\<close>

subsection \<open>Rates compared with themselves\<close>

definition f_finite :: "double \<Rightarrow> bool" where
  "f_finite w \<longleftrightarrow> \<not> f_nan w \<and> \<not> f_inf w"

lemma f_magnitude_pos: "\<not> f_zero w \<Longrightarrow> 0 < f_magnitude w"
proof -
  assume nz: "\<not> f_zero w"
  have frac: "0 \<le> f_fraction w" by (simp add: f_fraction_def)
  have two: "0 < two_pow e" for e by (simp add: two_pow_def)
  show ?thesis
  proof (cases "f_exponent w = 0")
    case True
    then have "0 < f_fraction w" using nz frac by (simp add: f_zero_def)
    then show ?thesis using True two by (simp add: f_magnitude_def)
  next
    case False
    have "(0::rat) < of_int (f_fraction w + 2 ^ 52)" using frac by (simp add: add_nonneg_pos del: of_int_add)
    then show ?thesis using False two by (simp add: f_magnitude_def del: of_int_add)
  qed
qed

lemma f_round_one: "f_round False 1 = f_one"
  by code_simp

lemma f_div_self: "f_finite w \<Longrightarrow> \<not> f_zero w \<Longrightarrow> f_div w w = f_one"
  using f_magnitude_pos [of w] f_round_one by (simp add: f_div_def f_finite_def)

lemma default_rate_similar: "f_finite w \<Longrightarrow> \<not> f_zero w \<Longrightarrow> \<not> f_less 0 srt \<Longrightarrow> IS_SAMPRATE_SIMILAR w w srt"
proof -
  assume w: "f_finite w" "\<not> f_zero w" and srt: "\<not> f_less 0 srt"
  have "f_less (f_abs (f_add f_one (f_neg f_one))) 0x3F1A36E2EB1C432D" by code_simp
  then show ?thesis using srt f_div_self [OF w] by (simp add: IS_SAMPRATE_SIMILAR_def MS_ISRATETOLERABLE_def)
qed

lemma f_neg_parts: "f_exponent (f_neg w) = f_exponent w" "f_fraction (f_neg w) = f_fraction w" "f_negative (f_neg w) = (\<not> f_negative w)"
proof -
  have b: "bit (f_neg w) n = (bit w n \<noteq> (n = 63))" if "n < 64" for n
  proof -
    have "(0x8000000000000000 :: u64) = push_bit 63 1" by simp
    then have "bit (f_neg w) n = (bit w n \<noteq> bit (push_bit 63 1 :: u64) n)" by (simp only: f_neg_def bit_xor_iff)
    also have "bit (push_bit 63 1 :: u64) n = (n = 63)" using that unfolding bit_push_bit_iff bit_1_iff by auto
    finally show ?thesis .
  qed
  show "f_negative (f_neg w) = (\<not> f_negative w)" using b [of 63] by (simp add: f_negative_def)
  have t: "take_bit 63 (uint (f_neg w)) = take_bit 63 (uint w)"
    by (rule bit_eqI) (use b in \<open>auto simp: bit_take_bit_iff bit_uint_iff\<close>)
  have "take_bit 52 (take_bit 63 (uint (f_neg w))) = take_bit 52 (take_bit 63 (uint w))" unfolding t by (rule refl)
  then show "f_fraction (f_neg w) = f_fraction w" by (simp add: f_fraction_def take_bit_eq_mod min_def mod_mod_cancel)
  have "take_bit 11 (drop_bit 52 (take_bit 63 (uint (f_neg w)))) = take_bit 11 (drop_bit 52 (take_bit 63 (uint w)))" unfolding t by (rule refl)
  then have "take_bit 11 (drop_bit 52 (uint (f_neg w))) = take_bit 11 (drop_bit 52 (uint w))" by (simp add: drop_bit_take_bit)
  then show "f_exponent (f_neg w) = f_exponent w"
    by (simp add: f_exponent_def drop_bit_take_bit take_bit_eq_mod drop_bit_eq_div)
qed

lemma rate_difference_self: "f_finite w \<Longrightarrow> f_abs (f_add w (f_neg w)) = 0"
proof -
  assume "f_finite w"
  moreover have "f_value (f_neg w) = - f_value w" using f_neg_parts [of w] by (simp add: f_value_def f_magnitude_def)
  moreover have "f_nan (f_neg w) = f_nan w" "f_inf (f_neg w) = f_inf w" using f_neg_parts [of w] by (simp_all add: f_nan_def f_inf_def)
  ultimately have "f_add w (f_neg w) = f_sign_bit (f_negative w \<and> f_negative (f_neg w))" by (simp add: f_add_def f_finite_def)
  then show ?thesis using f_neg_parts(3) [of w] by (simp add: f_sign_bit_def f_abs_def)
qed

lemma f_less_asym: "f_less 0 b \<Longrightarrow> \<not> f_less b 0"
proof -
  have "\<not> f_inf 0" by (simp add: f_inf_def f_exponent_def)
  then show "f_less 0 b \<Longrightarrow> \<not> f_less b 0" by (auto simp: f_less_def split: if_splits)
qed

lemma given_rate_dissimilar: "f_finite w \<Longrightarrow> f_less 0 srt \<Longrightarrow> \<not> IS_SAMPRATE_SIMILAR w w srt"
  using rate_difference_self f_less_asym by (simp add: IS_SAMPRATE_SIMILAR_def)


subsection \<open>Signs\<close>

lemma f_round_not_negative: "0 \<le> x \<Longrightarrow> \<not> f_negative (f_round False x)"
proof -
  assume x: "0 \<le> x"
  define e where "e = max (-1074) (ilog2 x - 52)"
  define pattern where "pattern = (e + 1074) * 2 ^ 52 + round_even (x / two_pow e)"
  have r: "0 \<le> round_even (x / two_pow e)"
    using x by (auto simp: round_even_def Let_def two_pow_def zero_le_divide_iff)
  have small: "\<not> f_negative (word_of_int pattern)" if "pattern < 2047 * 2 ^ 52"
  proof -
    have "0 \<le> (e + 1074) * 2 ^ 52" by (rule mult_nonneg_nonneg) (simp_all add: e_def)
    then have "0 \<le> pattern" using r unfolding pattern_def by linarith
    then have "uint (word_of_int pattern :: u64) = pattern" using that by (simp add: uint_word_of_int)
    then have "bit (word_of_int pattern :: u64) 63 = bit pattern 63" using bit_uint_iff [of "word_of_int pattern :: u64" 63] by simp
    moreover have "pattern div 2 ^ 63 = 0" using that \<open>0 \<le> pattern\<close> by (intro div_pos_pos_trivial) simp_all
    ultimately show ?thesis by (simp add: f_negative_def bit_iff_odd)
  qed
  have "\<not> f_negative (f_infinity False)" by (simp add: f_negative_def f_infinity_def f_sign_bit_def)
  moreover have "\<not> f_negative 0" by (simp add: f_negative_def)
  ultimately show ?thesis
    using small by (auto simp: f_round_def f_sign_bit_def Let_def e_def pattern_def not_le)
qed

lemma f_mul_not_negative: "\<not> f_negative a \<Longrightarrow> \<not> f_negative b \<Longrightarrow> \<not> f_negative (f_mul a b)"
proof -
  assume s: "\<not> f_negative a" "\<not> f_negative b"
  have "0 \<le> f_magnitude a * f_magnitude b"
    by (simp add: f_magnitude_def f_fraction_def two_pow_def)
  moreover have "\<not> f_negative f_nan_value" "\<not> f_negative (f_infinity False)"
    by (simp_all add: f_negative_def f_nan_value_def f_infinity_def f_sign_bit_def)
  ultimately show ?thesis using s f_round_not_negative by (simp add: f_mul_def Let_def)
qed

lemma f_to_int64_nonneg: "f_to_int64 w = Inr i \<Longrightarrow> \<not> f_negative w \<Longrightarrow> 0 \<le> i"
  by (auto simp: f_to_int64_def f_magnitude_def f_fraction_def two_pow_def Let_def split: if_splits)

text \<open>The default time tolerance, half the sample period, is not negative.\<close>

lemma default_tolerance: "0 \<le> per \<Longrightarrow> f_to_int64 (f_mul f_half (f_of_int per)) = Inr tol \<Longrightarrow> 0 \<le> tol"
proof -
  assume "0 \<le> per" "f_to_int64 (f_mul f_half (f_of_int per)) = Inr tol"
  moreover have "\<not> f_negative f_half" by (simp add: f_negative_def)
  moreover have "\<not> f_negative (f_of_int per)" using \<open>0 \<le> per\<close> f_round_not_negative by (simp add: f_of_int_def)
  ultimately show ?thesis using f_to_int64_nonneg f_mul_not_negative by blast
qed


subsection \<open>The identifier of a record\<close>

lemma found_id:
  assumes "trace_ok False st ns sl" "a \<in> set ns" "fst (node_key st a) = sid"
  shows "\<exists>prev. mstl3_findID (Some st) (Some sid) 0 (\<lambda>_. None) = Some (Some a, prev)"
proof -
  have skip: "skip_ok st ns" and dist: "distinct (map (\<lambda>a. fst (node_key st a)) ns)" using assms(1) by (simp_all add: trace_ok_def)
  obtain r prev where r: "mstl3_findID (Some st) (Some sid) 0 (\<lambda>_. None) = Some (r, prev)"
    and res: "search_result st sid 0 MSTRACEID_SKIPLIST_HEIGHT Head ns (\<lambda>_. None) (r, prev)"
    using findID_result [OF skip, of sid 0 "\<lambda>_. None"] by auto
  obtain b where b: "r = Some b" using findID_absent [OF skip _ assms(2)] r assms(3) by (cases r) auto
  then have "b \<in> set ns" "cmp_at st sid 0 b = 0" using res by (simp_all add: search_result_def)
  moreover have "tl_ids st b \<noteq> None" using skip \<open>b \<in> set ns\<close> by (simp add: skip_ok_def)
  ultimately have "fst (node_key st b) = fst (node_key st a)" using cmp_at_0 assms(3) by simp
  then have "b = a" using dist \<open>b \<in> set ns\<close> assms(2) by (auto simp: distinct_map inj_on_def)
  then show ?thesis using r b by simp
qed

text \<open>
  The steps of an addition to a known identifier, without splitting by version, for any call
  that returns, and for one that gives a segment.
\<close>

lemma returned_steps:
  assumes "trace_ok False st ns sl" "a \<in> set ns" "fst (node_key st a) = msr_sid m" "msr3_endtime lslist (Some m) \<noteq> Inr NSTERROR"
    and "mstl3_addmsr_impl al lslist now (Some st) (Some m) want 0 autoheal flags tolerance = Some (Some st', r)"
  obtains tid e v cv st1 tid1 q where "tl_ids st a = Some tid" "id_segs st tid (sl a)" "in_order (tl_segs st) (sl a)"
    "msr3_endtime lslist (Some m) = Inr e" "record_coverage m e tolerance = Some cv"
    "place_coverage al want autoheal m cv st tid = Some (st1, tid1, q)"
    "q = None \<longrightarrow> r = None \<and> tl_segs st' = tl_segs st1"
    "\<forall>p. q = Some p \<longrightarrow> finish_segment al now flags a p
       (st1\<lparr>tl_ids := (tl_ids st1)(a \<mapsto> later e (earlier (msr_starttime m) (track_version v tid1)))\<rparr>) = Some (st', r)"
proof -
  obtain prev where prev: "mstl3_findID (Some st) (Some (msr_sid m)) 0 (\<lambda>_. None) = Some (Some a, prev)"
    using found_id [OF assms(1-3)] by blast
  obtain tid where tid: "tl_ids st a = Some tid" "id_segs st tid (sl a)" "in_order (tl_segs st) (sl a)"
    using assms(1,2) by (auto simp: trace_ok_def id_ok_def)
  obtain e where e: "defined_value (msr3_endtime lslist (Some m)) = Some e"
    using assms(5) by (auto simp: mstl3_addmsr_impl_def elim!: bind_someE)
  then have end_is: "msr3_endtime lslist (Some m) = Inr e" by (auto simp: defined_value_def split: sum.splits)
  define v where "v = (if flags AND MSF_SPLITISVERSION \<noteq> 0 then 0 else msr_pubversion m)"
  obtain st1 tid2 q where known: "add_to_id al want autoheal m e v tolerance st tid = Some (st1, tid2, q)"
    and none: "q = None \<longrightarrow> r = None \<and> tl_segs st' = tl_segs st1"
    and fin: "\<And>p. q = Some p \<Longrightarrow> finish_segment al now flags a p (st1\<lparr>tl_ids := (tl_ids st1)(a \<mapsto> tid2)\<rparr>) = Some (st', r)"
    using assms(4,5) e end_is prev tid(1)
    by (auto simp: mstl3_addmsr_impl_def v_def [symmetric] Let_def split: option.splits elim!: bind_someE)
  obtain cv tid1 where cv: "record_coverage m e tolerance = Some cv" "place_coverage al want autoheal m cv st tid = Some (st1, tid1, q)"
    "q \<noteq> None \<Longrightarrow> tid2 = later e (earlier (msr_starttime m) (track_version v tid1))"
    using known by (auto simp: add_to_id_def split: if_splits elim!: bind_someE)
  have "\<forall>p. q = Some p \<longrightarrow> finish_segment al now flags a p
      (st1\<lparr>tl_ids := (tl_ids st1)(a \<mapsto> later e (earlier (msr_starttime m) (track_version v tid1)))\<rparr>) = Some (st', r)"
    using fin cv(3) by auto
  from that [OF tid end_is cv(1,2) none this] show thesis .
qed

lemma known_steps:
  assumes "trace_ok False st ns sl" "a \<in> set ns" "fst (node_key st a) = msr_sid m"
    and "mstl3_addmsr_impl al lslist now (Some st) (Some m) want 0 autoheal flags tolerance = Some (Some st', Some p)"
  obtains tid e v cv st1 tid1 q where "tl_ids st a = Some tid" "id_segs st tid (sl a)" "in_order (tl_segs st) (sl a)"
    "msr3_endtime lslist (Some m) = Inr e" "record_coverage m e tolerance = Some cv"
    "place_coverage al want autoheal m cv st tid = Some (st1, tid1, Some q)"
    "finish_segment al now flags a q (st1\<lparr>tl_ids := (tl_ids st1)(a \<mapsto> later e (earlier (msr_starttime m) (track_version v tid1)))\<rparr>) = Some (st', Some p)"
proof -
  have "msr3_endtime lslist (Some m) \<noteq> Inr NSTERROR"
    using assms(4) by (auto simp: mstl3_addmsr_impl_def defined_value_def Let_def split: if_splits elim!: bind_someE)
  then show thesis
  proof (rule returned_steps [OF assms(1-3) _ assms(4)])
    fix tid e v cv st1 tid1 q
    assume k: "tl_ids st a = Some tid" "id_segs st tid (sl a)" "in_order (tl_segs st) (sl a)" "msr3_endtime lslist (Some m) = Inr e"
        "record_coverage m e tolerance = Some cv" "place_coverage al want autoheal m cv st tid = Some (st1, tid1, q)"
      and none: "q = None \<longrightarrow> Some p = None \<and> tl_segs st' = tl_segs st1"
      and fin: "\<forall>p'. q = Some p' \<longrightarrow> finish_segment al now flags a p'
        (st1\<lparr>tl_ids := (tl_ids st1)(a \<mapsto> later e (earlier (msr_starttime m) (track_version v tid1)))\<rparr>) = Some (st', Some p)"
    obtain p' where q: "q = Some p'" using none by (cases q) auto
    show thesis by (rule that [OF k(1-5) k(6) [unfolded q] fin [rule_format, OF q]])
  qed
qed

text \<open>Finishing keeps the coverage and the samples of all segments.\<close>

lemma finish_keeps_segment:
  assumes "id_segs st tid xs" "in_order (tl_segs st) xs" "placed st tid xs m e st1 tid1 us q vs"
    and "finish_segment al now flags a q (st1\<lparr>tl_ids := (tl_ids st1)(a \<mapsto> later e (earlier s (track_version v tid1)))\<rparr>) = Some (st', Some p)"
  shows "p = q" "seg_times (tl_segs st') q = seg_times (tl_segs st1) q" "tl_segs st' q \<noteq> None"
proof -
  let ?tid = "later e (earlier s (track_version v tid1))" let ?st = "st1\<lparr>tl_ids := (tl_ids st1)(a \<mapsto> ?tid)\<rparr>"
  have pl: "id_segs st1 tid1 (us @ q # vs)" "in_order (tl_segs st1) (us @ vs)" using assms(3) by (simp_all add: placed_def)
  have "tl_ids ?st a = Some ?tid" by simp
  moreover have "id_segs ?st ?tid (us @ q # vs)" using pl(1) by (simp add: id_segs_def seglist_def times_later)
  moreover have "in_order (tl_segs ?st) (us @ vs)" using pl(2) by simp
  ultimately obtain zs f l where zs: "p = q" "mset zs = mset (us @ q # vs)" "\<forall>x\<in>set zs. seg_times (tl_segs st') x = seg_times (tl_segs ?st) x"
    "id_segs st' (?tid\<lparr>id_first := f, id_last := l\<rparr>) zs"
    using finish_segment_ok [of ?st a ?tid us q vs al now flags st' p] assms(4) by blast
  have q: "q \<in> set zs" using mset_eq_setD [OF zs(2)] by auto
  then show "p = q" "seg_times (tl_segs st') q = seg_times (tl_segs st1) q" using zs(1,3) by simp_all
  show "tl_segs st' q \<noteq> None" using zs(4) q links_defined by (auto simp: id_segs_def seglist_def)
qed

subsection \<open>A record that continues the last segment\<close>

lemma first_samples_parts:
  "first_samples t b n = Some c \<Longrightarrow> samples_type c = t \<and> samples_length c = nat n \<and> 0 \<le> n"
  by (cases b) (auto simp: first_samples_def split: if_splits)

lemma take_all_samples: "samples_length b \<le> n \<Longrightarrow> take_samples n b = b"
  by (cases b) auto

lemma append_samples_parts:
  "append_samples a b = Some c \<Longrightarrow> 0 < samples_length b \<Longrightarrow>
   samples_type c = samples_type b \<and> samples_length c = samples_length a + samples_length b"
  by (cases a; cases b) (auto split: if_splits)

lemma seg_samples_length: "seg_samples s = Some old \<Longrightarrow> samples_length old = nat (ts_numsamples s) \<and> 0 \<le> ts_numsamples s"
  by (auto simp: seg_samples_def dest: first_samples_parts split: option.splits if_splits)

lemma addmsrtoseg_data:
  assumes "lm_addmsrtoseg al s m e 1 = Some (t, True)" "msr_datasamples m = Some b" "0 < msr_numsamples m"
    and "first_samples (msr_sampletype m) b (msr_numsamples m) = Some new" "seg_samples s = Some old"
  shows "ts_sampletype s = msr_sampletype m \<and> (\<exists>both. append_samples old new = Some both \<and> seg_samples t = Some both)"
proof -
  have same: "seg_samples (s\<lparr>ts_datasize := d, ts_endtime := e', ts_samplecnt := n\<rparr>) = Some old" for d e' n
    using assms(5) by (simp add: seg_samples_def cong: option.case_cong)
  have "\<exists>both. append_samples old new = Some both \<and> ts_datasamples t = Some both \<and>
    ts_numsamples t = ts_numsamples s + msr_numsamples m \<and> ts_sampletype t = msr_sampletype m \<and> ts_sampletype s = msr_sampletype m"
    using assms(1,4) by (auto simp: lm_addmsrtoseg_def Let_def assms(2,3) same split: if_splits option.splits elim!: bind_someE)
  then obtain both where both: "append_samples old new = Some both" "ts_datasamples t = Some both"
    "ts_numsamples t = ts_numsamples s + msr_numsamples m" "ts_sampletype t = msr_sampletype m" "ts_sampletype s = msr_sampletype m"
    by blast
  note new = first_samples_parts [OF assms(4)] and old = seg_samples_length [OF assms(5)]
  from append_samples_parts [OF both(1)] new assms(3)
  have "samples_type both = msr_sampletype m" "samples_length both = samples_length old + samples_length new" by auto
  moreover have "samples_length old + samples_length new = nat (ts_numsamples t)" "0 \<le> ts_numsamples t"
    using new old assms(3) both(3) by auto
  ultimately have "seg_samples t = Some both"
    using both(2,4) by (simp add: seg_samples_def first_samples_def take_all_samples)
  then show ?thesis using both(1,5) by blast
qed

text \<open>Data of another sample type is refused and the segment kept; with memory data of its type is taken.\<close>

lemma addmsrtoseg_other_type:
  assumes "msr_datasamples m = Some b" "0 < msr_numsamples m" "msr_sampletype m \<noteq> ts_sampletype s"
  shows "lm_addmsrtoseg al s m e w = Some (s, False)"
  using assms by (simp add: lm_addmsrtoseg_def)

lemma addmsrtoseg_same_type:
  assumes "lm_addmsrtoseg al s m e 1 = Some (t, ok)" "msr_datasamples m = Some b" "0 < msr_numsamples m"
    and "first_samples (msr_sampletype m) b (msr_numsamples m) = Some new" "ts_sampletype s = msr_sampletype m"
    and "al_realloc al" "al_block al = 0 \<or> ts_datasamples s \<noteq> None"
  shows "ok"
proof -
  have "samples_type new = msr_sampletype m" using first_samples_parts [OF assms(4)] by simp
  then have "ms_samplesize (msr_sampletype m) \<noteq> 0" by (cases new) (auto simp: ms_samplesize_def)
  moreover have grown: "grow_buffer (al_block al) (al_realloc al) s n = None \<longleftrightarrow> False" for n
    using assms(6,7) by (auto simp: grow_buffer_def libmseed_memory_prealloc_def)
  ultimately show ?thesis
    using assms(1-3,5) by (auto simp: lm_addmsrtoseg_def Let_def grown split: if_splits option.splits elim!: bind_someE)
qed

lemma extend_end_segment:
  assumes "extend_end al want m e w p track st tid = Some (st', tid', Some r)" "tl_segs st p = Some s"
  shows "\<exists>t rl. lm_addmsrtoseg al s m e w = Some (t, True) \<and> st' = put_seg p (t\<lparr>ts_recordlist := rl\<rparr>) st"
proof -
  obtain t st1 where t: "lm_addmsrtoseg al s m e w = Some (t, True)" and st1: "st1 = put_seg p t st"
    and ptr: "add_pointer al want m e w p st1 = Some (st', True)"
    using assms by (auto simp: extend_end_def extend_seg_def split: if_splits elim!: bind_someE)
  from add_pointer_ok [OF ptr, of t] st1 show ?thesis using t by (auto simp: put_seg_def)
qed

lemma extend_end_refused:
  assumes "extend_end al want m e w p track st tid = Some (st', tid', q)" "tl_segs st p = Some s"
    and "lm_addmsrtoseg al s m e w = Some (s, False)"
  shows "q = None" "tl_segs st' = tl_segs st"
  using assms by (auto simp: extend_end_def extend_seg_def put_seg_def fun_upd_idem)

lemma extend_end_taken:
  assumes "extend_end al False m e w p track st tid = Some (st', tid', q)" "tl_segs st p = Some s"
    and "\<And>t ok. lm_addmsrtoseg al s m e w = Some (t, ok) \<Longrightarrow> ok"
  shows "q = Some p"
  using assms by (auto simp: extend_end_def extend_seg_def add_pointer_def split: if_splits elim!: bind_someE)

lemma ends_in_list: "exit_of xs None = Some y \<Longrightarrow> y \<in> set xs" "last_of xs None = Some y \<Longrightarrow> y \<in> set xs"
  by (cases xs; simp) (auto simp: last_of_def split: if_splits)

text \<open>The first scenario of the code is taken by a record without a gap.\<close>

lemma contiguous_extends_end:
  assumes "id_segs st tid xs" "tl_segs st (last xs) = Some s" "SEGMENT_HAS_TIME_COVERAGE s"
    and "msr3_sampratehz (Some m) = ts_samprate s" "f_finite (ts_samprate s)" "msr3_nsperiod (Some m) = Inr per" "0 \<le> per"
    and "msr_starttime m = ts_endtime s + per" "record_coverage m e None = Some cv"
    and "place_coverage al want ah m cv st tid = Some (st1, tid1, q)"
  shows "extend_end al want m e 1 (last xs) (later e) st tid = Some (st1, tid1, q)"
proof -
  have last: "id_last tid = Some (last xs)" using assms(1) by (auto simp: id_segs_def seglist_def last_of_def)
  obtain tol where cv: "cv_start cv = msr_starttime m" "cv_end cv = e" "cv_period cv = per" "cv_rate cv = ts_samprate s"
    "cv_ratetol cv = f_neg f_one" "cv_tol cv = tol" "f_to_int64 (f_mul f_half (f_of_int per)) = Inr tol"
    using assms(4,6,9) by (auto simp: record_coverage_def defined_value_def split: sum.splits elim!: bind_someE)
  have tol: "0 \<le> tol" using default_tolerance [OF assms(7) cv(7)] .
  obtain gap where gap: "gap_after (cv_start cv) (ts_endtime s) (cv_period cv) = Some gap"
    using assms(10) last assms(2) by (auto simp: place_coverage_def elim!: bind_someE)
  then have "gap = 0" using assms(8) cv(1,3) by (auto simp: gap_after_def checked_def split: if_splits elim!: bind_someE)
  then have fits: "fits_gap cv gap" using tol cv(6) by (simp add: fits_gap_def)
  have "\<not> f_less 0 (f_neg f_one)" by code_simp
  then have "IS_SAMPRATE_SIMILAR (cv_rate cv) (ts_samprate s) (cv_ratetol cv)"
    using default_rate_similar assms(3,5) cv(4,5) by (simp add: SEGMENT_HAS_TIME_COVERAGE_def)
  then show ?thesis
    using assms(2,3,10) last gap fits cv(2) by (auto simp: place_coverage_def elim!: bind_someE)
qed


text \<open>
  The store keeps what finishing the extended segment does to it.
\<close>

lemma finished_extension:
  assumes "id_segs st tid xs" "in_order (tl_segs st) xs" "tl_segs st (last xs) = Some s"
    and "extend_end al want m e 1 (last xs) (later e) st tid = Some (st1, tid1, Some q)"
    and "finish_segment al now flags a q (st1\<lparr>tl_ids := (tl_ids st1)(a \<mapsto> later e (earlier sm (track_version v tid1)))\<rparr>) = Some (st', Some p)"
    and data: "msr_datasamples m = Some b" "0 < msr_numsamples m"
      "first_samples (msr_sampletype m) b (msr_numsamples m) = Some new" "seg_samples s = Some old"
  shows "p = last xs \<and> ts_sampletype s = msr_sampletype m \<and>
    (\<exists>t both. tl_segs st' p = Some t \<and> ts_starttime t = ts_starttime s \<and> ts_endtime t = e \<and>
       ts_samplecnt t = ts_samplecnt s + msr_samplecnt m \<and> append_samples old new = Some both \<and> seg_samples t = Some both)"
proof -
  let ?l = "last xs"
  obtain us where xs: "xs = us @ ?l # []" using assms(1) by (cases xs rule: rev_cases) (auto simp: id_segs_def)
  have pl: "q = ?l" "placed st tid xs m e st1 tid1 us ?l []"
    using extend_end_placed [of st tid us ?l "[]" al want m e 1 "later e" st1 tid1 q] assms(1,2,4) xs by auto
  obtain t rl where t: "lm_addmsrtoseg al s m e 1 = Some (t, True)" "st1 = put_seg ?l (t\<lparr>ts_recordlist := rl\<rparr>) st"
    using extend_end_segment [OF assms(4,3)] by blast
  obtain both where both: "ts_sampletype s = msr_sampletype m" "append_samples old new = Some both" "seg_samples t = Some both"
    using addmsrtoseg_data [OF t(1) data] by blast
  note cover = addmsrtoseg_ok [OF t(1)]
  have fin: "p = q" "seg_times (tl_segs st') q = seg_times (tl_segs st1) q" "tl_segs st' q \<noteq> None"
    using finish_keeps_segment [OF assms(1,2) pl(2) assms(5) [unfolded pl(1)]] pl(1) by simp_all
  then obtain t' where t': "tl_segs st' ?l = Some t'" using pl(1) by auto
  have "seg_times (tl_segs st') ?l = ((ts_starttime t, ts_endtime t, ts_samplecnt t), ts_datasamples t, ts_numsamples t, ts_sampletype t)"
    using fin(2) pl(1) t(2) by (simp add: seg_times_def the_seg_def payload_def)
  then have same: "ts_starttime t' = ts_starttime t" "ts_endtime t' = ts_endtime t" "ts_samplecnt t' = ts_samplecnt t"
    "ts_datasamples t' = ts_datasamples t" "ts_numsamples t' = ts_numsamples t" "ts_sampletype t' = ts_sampletype t"
    using t' by (simp_all add: seg_times_def the_seg_def payload_def)
  have "seg_samples t' = Some both" using both(3) by (simp add: seg_samples_def same(4-6) cong: option.case_cong)
  then show ?thesis using fin(1) pl(1) t' same(1-3) cover both(1,2) by auto
qed

text \<open>
  C15. A call, with the default tolerances and without splitting by version, that adds a
  record with data samples of any type whose start is one sample period after the end of
  the last segment of its identifier, which has samples and the record's sample rate. If the sample
  types differ the call gives no segment and leaves all segments as they are. If they agree
  and memory is available, neither a record list nor update times being asked for, it gives
  a segment. And the segment a call gives is that last one, extended by the count, the
  end time and the samples of the record behind those it had. Calls that return are meant,
  as the model has no value for integer overflow.
\<close>

theorem contiguous_record_appends:
  assumes "trace_ok False st ns sl" "a \<in> set ns" "fst (node_key st a) = msr_sid m"
    and "tl_segs st (last (sl a)) = Some s" "SEGMENT_HAS_TIME_COVERAGE s" "seg_samples s = Some old"
    and "msr3_sampratehz (Some m) = ts_samprate s" "f_finite (ts_samprate s)" "msr3_nsperiod (Some m) = Inr per" "0 \<le> per"
    and "msr_starttime m = ts_endtime s + per" "msr3_endtime lslist (Some m) \<noteq> Inr NSTERROR"
    and "msr_datasamples m = Some b" "0 < msr_numsamples m" "first_samples (msr_sampletype m) b (msr_numsamples m) = Some new"
    and "mstl3_addmsr_impl al lslist now (Some st) (Some m) want 0 autoheal flags None = Some (Some st', r)"
  shows "(ts_sampletype s \<noteq> msr_sampletype m \<longrightarrow> r = None \<and> tl_segs st' = tl_segs st) \<and>
    (ts_sampletype s = msr_sampletype m \<and> al_realloc al \<and> (al_block al = 0 \<or> ts_datasamples s \<noteq> None) \<and> \<not> want \<and>
       flags AND MSF_PPUPDATETIME = 0 \<longrightarrow> r \<noteq> None) \<and>
    (\<forall>p. r = Some p \<longrightarrow> p = last (sl a) \<and>
      (\<exists>t both. tl_segs st' p = Some t \<and> ts_starttime t = ts_starttime s \<and> msr3_endtime lslist (Some m) = Inr (ts_endtime t) \<and>
         ts_samplecnt t = ts_samplecnt s + msr_samplecnt m \<and> append_samples old new = Some both \<and> seg_samples t = Some both))"
proof -
  let ?l = "last (sl a)"
  obtain tid e v cv st1 tid1 q where k: "tl_ids st a = Some tid" "id_segs st tid (sl a)" "in_order (tl_segs st) (sl a)"
    "msr3_endtime lslist (Some m) = Inr e" "record_coverage m e None = Some cv"
    "place_coverage al want autoheal m cv st tid = Some (st1, tid1, q)"
    and none: "q = None \<longrightarrow> r = None \<and> tl_segs st' = tl_segs st1"
    and fin: "\<forall>p. q = Some p \<longrightarrow> finish_segment al now flags a p
       (st1\<lparr>tl_ids := (tl_ids st1)(a \<mapsto> later e (earlier (msr_starttime m) (track_version v tid1)))\<rparr>) = Some (st', r)"
    by (rule returned_steps [OF assms(1-3,12,16)])
  have ext: "extend_end al want m e 1 ?l (later e) st tid = Some (st1, tid1, q)"
    using contiguous_extends_end [OF k(2) assms(4,5,7-11) k(5,6)] .
  have "r = None \<and> tl_segs st' = tl_segs st" if "ts_sampletype s \<noteq> msr_sampletype m"
    using extend_end_refused [OF ext assms(4) addmsrtoseg_other_type] assms(13,14) that none by metis
  moreover have "r \<noteq> None" if ok: "ts_sampletype s = msr_sampletype m" "al_realloc al" "al_block al = 0 \<or> ts_datasamples s \<noteq> None"
    "\<not> want" "flags AND MSF_PPUPDATETIME = 0"
  proof -
    have "q = Some ?l" using ext ok(4) addmsrtoseg_same_type [OF _ assms(13-15) ok(1-3)] by (intro extend_end_taken [OF _ assms(4)]) auto
    from fin [rule_format, OF this] ok(5) show ?thesis by (auto simp: finish_segment_def Let_def elim!: bind_someE)
  qed
  moreover have "p = ?l \<and> (\<exists>t both. tl_segs st' p = Some t \<and> ts_starttime t = ts_starttime s \<and> msr3_endtime lslist (Some m) = Inr (ts_endtime t) \<and>
       ts_samplecnt t = ts_samplecnt s + msr_samplecnt m \<and> append_samples old new = Some both \<and> seg_samples t = Some both)" if rp: "r = Some p" for p
  proof -
    obtain q' where q: "q = Some q'" using none rp by (cases q) auto
    show ?thesis
      using finished_extension [OF k(2,3) assms(4) ext [unfolded q] fin [rule_format, OF q, unfolded rp] assms(13-15,6)] k(4) by auto
  qed
  ultimately show ?thesis by blast
qed

subsection \<open>A sample rate tolerance\<close>

lemma search_dissimilar:
  assumes "links h q ys None" "\<forall>y\<in>set ys. \<forall>s. h y = Some s \<longrightarrow> \<not> IS_SAMPRATE_SIMILAR (cv_rate cv) (ts_samprate s) (cv_ratetol cv)"
    and "search_loop cv ah h (exit_of ys None) (None, None, f) = Some found"
  shows "\<exists>g. found = (None, None, g)"
  using assms
proof (induction ys arbitrary: q f)
  case Nil
  then show ?case by (subst (asm) search_loop.simps) auto
next
  case (Cons y ys)
  obtain s where s: "h y = Some s" "ts_next s = exit_of ys None" and links: "links h (Some y) ys None" using Cons.prems(1) by auto
  have no: "match_gap cv s y t b None = Some r \<Longrightarrow> r = None" for t b r
    using Cons.prems(2) s(1) by (auto simp: match_gap_def split: if_splits elim!: bind_someE)
  have rest: "\<exists>g. found = (None, None, g)" if "search_loop cv ah h (exit_of ys None) (None, None, f') = Some found" for f'
    using Cons.IH [OF links _ that] Cons.prems(2) by simp
  have "search_loop cv ah h (Some y) (None, None, f) = Some found" using Cons.prems(3) by simp
  then show ?case
    using s rest by (subst (asm) search_loop.simps) (auto simp: Let_def dest!: no split: if_splits elim!: bind_someE)
qed

text \<open>
  C20. With a positive sample rate tolerance a record is never joined to a segment of its
  own sample rate: if all segments of its identifier have that rate, a record always makes
  a new segment, however well it fits.
\<close>

theorem rate_tolerance_never_joins:
  assumes "trace_ok False st ns sl" "a \<in> set ns" "fst (node_key st a) = msr_sid m"
    and "\<forall>y\<in>set (sl a). \<forall>s. tl_segs st y = Some s \<longrightarrow> ts_samprate s = msr3_sampratehz (Some m)" "f_finite (msr3_sampratehz (Some m))"
    and "tol_samprate tolerance = Some rate_tolerance" "f_less 0 (rate_tolerance m)"
    and "mstl3_addmsr_impl al lslist now (Some st) (Some m) want 0 autoheal flags (Some tolerance) = Some (Some st', Some p)"
  shows "p \<notin> set (sl a)"
proof -
  obtain tid e v cv st1 tid1 q where k: "tl_ids st a = Some tid" "id_segs st tid (sl a)" "in_order (tl_segs st) (sl a)"
    "record_coverage m e (Some tolerance) = Some cv" "place_coverage al want autoheal m cv st tid = Some (st1, tid1, Some q)"
    "finish_segment al now flags a q (st1\<lparr>tl_ids := (tl_ids st1)(a \<mapsto> later e (earlier (msr_starttime m) (track_version v tid1)))\<rparr>) = Some (st', Some p)"
    by (rule known_steps [OF assms(1-3,8)])
  have cv: "cv_rate cv = msr3_sampratehz (Some m)" "cv_ratetol cv = rate_tolerance m" "cv_start cv = msr_starttime m" "cv_end cv = e"
    using k(4) assms(6) by (auto simp: record_coverage_def elim!: bind_someE)
  have no: "\<not> IS_SAMPRATE_SIMILAR (cv_rate cv) (ts_samprate s) (cv_ratetol cv)" if "y \<in> set (sl a)" "tl_segs st y = Some s" for y s
    using given_rate_dissimilar [OF assms(5,7)] assms(4) that cv(1,2) by simp
  have ends: "id_first tid = exit_of (sl a) None" "id_last tid = last_of (sl a) None" "links (tl_segs st) None (sl a) None"
    using k(2) by (simp_all add: id_segs_def seglist_def)
  have member: "y \<in> set (sl a)" if "id_first tid = Some y \<or> id_last tid = Some y" for y
    using that ends_in_list unfolding ends(1,2) by blast
  have found: "\<exists>g. found = (None, None, g)" if "search_loop cv autoheal (tl_segs st) (id_first tid) (None, None, None) = Some found" for found
    using search_dissimilar [OF ends(3) _ that [unfolded ends(1)]] no by blast
  obtain us vs where pl: "placed st tid (sl a) m e st1 tid1 us q vs"
    using place_coverage_placed [OF k(2,3) cv(3) k(5)] cv(4) by auto
  have created: "q = tl_fresh st" if "create_seg al m e st = Some (st2, Some q)" for st2
    using create_seg_ok [OF that] by blast
  have noend: False if "id_first tid = Some y \<or> id_last tid = Some y" "tl_segs st y = Some s"
      "IS_SAMPRATE_SIMILAR (cv_rate cv) (ts_samprate s) (cv_ratetol cv)" for y s
    using no [OF member [OF that(1)] that(2)] that(3) by simp
  obtain l s1 f s2 where ls: "id_last tid = Some l" "tl_segs st l = Some s1" "id_first tid = Some f" "tl_segs st f = Some s2"
    using k(5) by (auto simp: place_coverage_def elim!: bind_someE)
  have dis: "\<not> IS_SAMPRATE_SIMILAR (cv_rate cv) (ts_samprate s1) (cv_ratetol cv)" "\<not> IS_SAMPRATE_SIMILAR (cv_rate cv) (ts_samprate s2) (cv_ratetol cv)"
    using noend ls by blast+
  consider (new) link track where "new_end al want m (cv_end cv) link track st tid = Some (st1, tid1, Some q)"
    | (search) g where "place_found al want autoheal m (cv_end cv) (None, None, g) st tid = Some (st1, tid1, Some q)"
    using k(5) ls dis found by (auto simp: place_coverage_def split: if_splits elim!: bind_someE)
  then have "\<exists>st2. create_seg al m e st = Some (st2, Some q)"
    using cv(4) by cases (auto simp: place_found_def new_end_def split: if_splits option.splits elim!: bind_someE)
  then have "q = tl_fresh st" using created by blast
  then have "q \<notin> set (sl a)" using k(2) by (auto simp: id_segs_def)
  then show ?thesis using finish_keeps_segment(1) [OF k(2,3) pl k(6)] by simp
qed


subsection \<open>Two records\<close>

text \<open>A record of two samples, and the next one of the same channel without and with a rate tolerance of 1 Hz.\<close>

definition one_hertz :: MS3Tolerance where
  "one_hertz = \<lparr>tol_time = None, tol_samprate = Some (\<lambda>_. f_one)\<rparr>"

lemma two_records:
  "do { (s1, p1) \<leftarrow> add_next mstl3_init (rec_at 0 [1, 2]);
        (found, _) \<leftarrow> mstl3_findID (Some s1) (Some [70, 68]) 0 (\<lambda>_. None);
        tid \<leftarrow> tl_ids s1 0;
        s \<leftarrow> tl_segs s1 1;
        (s2, p2) \<leftarrow> mstl3_addmsr_impl all_ok [] 0 (Some s1) (Some (rec_at 2000000000 [3])) True 0 True 0 None;
        (s3, p3) \<leftarrow> mstl3_addmsr_impl all_ok [] 0 (Some s1) (Some (rec_at 2000000000 [3])) True 0 True 0 (Some one_hertz);
        Some ((p1, found, id_first tid, id_last tid), (ts_samprate s, ts_endtime s, ts_samplecnt s, seg_samples s), (p2, p3, s2 = None, s3 = None)) }
   = Some ((1, Some 0, Some 1, Some 1), (f_one, 1000000000, 2, Some (IntSamples [1, 2])), (Some 1, Some 2, False, False))"
  by code_simp

lemma seglist_single: "seglist h tid xs \<Longrightarrow> id_first tid = Some p \<Longrightarrow> id_last tid = Some p \<Longrightarrow> xs = [p]"
  by (cases xs; cases xs rule: rev_cases) (auto simp: seglist_def last_of_def split: if_splits)

lemma two_records_list:
  "\<exists>s1 s s2 s3 ns sl. trace_ok False s1 ns sl \<and> 0 \<in> set ns \<and> fst (node_key s1 0) = [70, 68] \<and> sl 0 = [1] \<and> tl_segs s1 1 = Some s \<and>
    ts_samprate s = f_one \<and> ts_endtime s = 1000000000 \<and> ts_samplecnt s = 2 \<and> seg_samples s = Some (IntSamples [1, 2]) \<and>
    mstl3_addmsr_impl all_ok [] 0 (Some s1) (Some (rec_at 2000000000 [3])) True 0 True 0 None = Some (Some s2, Some 1) \<and>
    mstl3_addmsr_impl all_ok [] 0 (Some s1) (Some (rec_at 2000000000 [3])) True 0 True 0 (Some one_hertz) = Some (Some s3, Some 2)"
proof -
  obtain s1 prev tid s s2 s3 where e: "add_next mstl3_init (rec_at 0 [1, 2]) = Some (s1, 1)"
    "mstl3_findID (Some s1) (Some [70, 68]) 0 (\<lambda>_. None) = Some (Some 0, prev)" "tl_ids s1 0 = Some tid" "tl_segs s1 1 = Some s"
    "id_first tid = Some 1" "id_last tid = Some 1"
    "ts_samprate s = f_one \<and> ts_endtime s = 1000000000 \<and> ts_samplecnt s = 2 \<and> seg_samples s = Some (IntSamples [1, 2])"
    "mstl3_addmsr_impl all_ok [] 0 (Some s1) (Some (rec_at 2000000000 [3])) True 0 True 0 None = Some (Some s2, Some 1)"
    "mstl3_addmsr_impl all_ok [] 0 (Some s1) (Some (rec_at 2000000000 [3])) True 0 True 0 (Some one_hertz) = Some (Some s3, Some 2)"
    using two_records by (auto elim!: bind_someE)
  have "trace_ok (0 \<noteq> (0 :: u8)) mstl3_init [] (\<lambda>_. [])" by (simp add: trace_ok_def skip_ok_init) (simp add: mstl3_init_def)
  from addmsr_keeps [OF this e(1) [unfolded add_next_eq]] obtain ns sl a where ok: "trace_ok False s1 ns sl"
    and a: "a \<in> set ns" "1 \<in> set (sl a)" "fst (node_key s1 a) = [70, 68]" by (auto simp: rec_at_def)
  have "a = 0" using found_id [OF ok a(1,3)] e(2) by simp
  moreover have "sl 0 = [1]"
  proof -
    have "id_ok s1 0 (sl 0)" using ok a(1) \<open>a = 0\<close> by (simp add: trace_ok_def)
    then have "seglist (tl_segs s1) tid (sl 0)" using e(3) by (simp add: id_ok_def id_segs_def)
    then show ?thesis using seglist_single e(5,6) by blast
  qed
  ultimately show ?thesis using ok a e(4,7-9) by blast
qed

theorem contiguous_record_appends_witness:
  "\<exists>st st' s t. tl_segs st 1 = Some s \<and> seg_samples s = Some (IntSamples [1, 2]) \<and>
    mstl3_addmsr_impl all_ok [] 0 (Some st) (Some (rec_at 2000000000 [3])) True 0 True 0 None = Some (Some st', Some 1) \<and>
    tl_segs st' 1 = Some t \<and> seg_samples t = Some (IntSamples [1, 2, 3])"
proof -
  obtain s1 s s2 ns sl where l: "trace_ok False s1 ns sl" "0 \<in> set ns" "fst (node_key s1 0) = [70, 68]" "sl 0 = [1]" "tl_segs s1 1 = Some s"
    "ts_samprate s = f_one" "ts_endtime s = 1000000000" "ts_samplecnt s = 2" "seg_samples s = Some (IntSamples [1, 2])"
    "mstl3_addmsr_impl all_ok [] 0 (Some s1) (Some (rec_at 2000000000 [3])) True 0 True 0 None = Some (Some s2, Some 1)"
    using two_records_list by blast
  have "msr3_sampratehz (Some (rec_at 2000000000 [3])) = f_one" "msr3_nsperiod (Some (rec_at 2000000000 [3])) = Inr 1000000000"
    "f_finite f_one" "\<not> f_zero f_one" by code_simp+
  moreover have "msr3_endtime [] (Some (rec_at 2000000000 [3])) \<noteq> Inr NSTERROR" by code_simp
  moreover have "first_samples (CHR ''i'') (IntSamples [3]) 1 = Some (IntSamples [3])" by (simp add: first_samples_def)
  ultimately show ?thesis
    using contiguous_record_appends [OF l(1,2) _ _ _ l(9) _ _ _ _ _ _ _ _ _ l(10), of 1000000000 "IntSamples [3]" "IntSamples [3]"] l
    by (auto simp: rec_at_def SEGMENT_HAS_TIME_COVERAGE_def)
qed

theorem rate_tolerance_never_joins_witness:
  "\<exists>st st' ns sl. mstl3_addmsr_impl all_ok [] 0 (Some st) (Some (rec_at 2000000000 [3])) True 0 True 0 (Some one_hertz) = Some (Some st', Some 2) \<and>
    trace_ok False st ns sl \<and> 0 \<in> set ns \<and> sl 0 = [1] \<and> 2 \<notin> set (sl 0)"
proof -
  obtain s1 s s3 ns sl where l: "trace_ok False s1 ns sl" "0 \<in> set ns" "fst (node_key s1 0) = [70, 68]" "sl 0 = [1]" "tl_segs s1 1 = Some s"
    "ts_samprate s = f_one"
    "mstl3_addmsr_impl all_ok [] 0 (Some s1) (Some (rec_at 2000000000 [3])) True 0 True 0 (Some one_hertz) = Some (Some s3, Some 2)"
    using two_records_list by blast
  have "msr3_sampratehz (Some (rec_at 2000000000 [3])) = f_one" "f_finite f_one" "f_less 0 f_one" by code_simp+
  then have "2 \<notin> set (sl 0)"
    using rate_tolerance_never_joins [OF l(1,2) _ _ _ _ _ l(7), of "\<lambda>_. f_one"] l(3-6) by (simp add: rec_at_def one_hertz_def)
  then show ?thesis using l(1,2,4,7) by blast
qed

end
