(* ===== verification/PackData.thy ===== *)
theory PackData
  imports UnpackData SteimCodec PlainCodec
begin

text \<open>
  The encoding of a payload: \<open>msr_pack_data\<close> of pack.c over the encoders of packdata.c, and
  the contract between it and \<open>ms_decode_data\<close> of unpack.c. Source and destination are
  memory: the source from its pointer to the end of the buffer of samples, the destination
  the whole buffer. A routine gives the number of samples it returns, the value stored
  through \<open>byteswritten\<close> and the destination after the call.
\<close>

subsection \<open>Samples in memory\<close>

text \<open>
  The bytes behind \<open>datasamples\<close>. Gain-ranged samples are values of the model, not bit
  patterns: they have no memory image here.
\<close>

definition sample_memory :: "byteorder \<Rightarrow> samples \<Rightarrow> u8 list option" where
  "sample_memory h samples =
     (case samples of
        TextSamples xs \<Rightarrow> Some xs
      | IntSamples xs \<Rightarrow> Some (concat (map (host_bytes h 4) xs))
      | FloatSamples xs \<Rightarrow> Some (concat (map (host_bytes h 4) xs))
      | DoubleSamples xs \<Rightarrow> Some (concat (map (host_bytes h 8) xs))
      | GainSamples _ \<Rightarrow> None)"

text \<open>The words an encoder left in the destination, which may end with a part of a word.\<close>

definition store_words :: "byteorder \<Rightarrow> nat \<Rightarrow> 'a::len word list \<Rightarrow> u8 list \<Rightarrow> u8 list" where
  "store_words h width ws dest = concat (map (host_bytes h width) ws) @ drop (width * length ws) dest"

definition encoded_plain ::
  "byteorder \<Rightarrow> nat \<Rightarrow> u8 list option \<Rightarrow> (nat \<times> 'a::len word list option) result \<Rightarrow>
   (nat \<times> u32 \<times> u8 list option) result" where
  "encoded_plain h width dest r =
     (case r of
        Inl e \<Rightarrow> Inl e
      | Inr (nsamples, None) \<Rightarrow> Inr (nsamples, of_nat (nsamples * width), dest)
      | Inr (nsamples, Some ws) \<Rightarrow> Inr (nsamples, of_nat (nsamples * width), map_option (store_words h width ws) dest))"

definition encoded_steim :: "byteorder \<Rightarrow> u8 list option \<Rightarrow> enc_result result \<Rightarrow> (nat \<times> u32 \<times> u8 list option) result" where
  "encoded_steim h dest r =
     (case r of
        Inl e \<Rightarrow> Inl e
      | Inr r \<Rightarrow> Inr (er_samples r, case er_byteswritten r of None \<Rightarrow> 0 | Some n \<Rightarrow> n,
                   map_option (store_words h 4 (er_output r)) dest))"

definition msr_pack_data ::
  "byteorder \<Rightarrow> u8 list option \<Rightarrow> u8 list option \<Rightarrow> nat \<Rightarrow> nat \<Rightarrow> char \<Rightarrow> u8 \<Rightarrow> bool \<Rightarrow>
   (nat \<times> u32 \<times> u8 list option) result" where
  "msr_pack_data h dest src maxsamples maxdatabytes sampletype encoding swapflag =
     (let src4 = map_option (host_words h 4) src; dest4 = map_option (host_words h 4) dest
      in if encoding = DE_TEXT then
           if sampletype \<noteq> CHR ''t'' \<and> sampletype \<noteq> CHR ''a'' then Inl (ReturnError (-1))
           else (case msr_encode_text src maxsamples dest maxdatabytes of
                   Inl e \<Rightarrow> Inl e
                 | Inr (nsamples, dest) \<Rightarrow> Inr (nsamples, of_nat nsamples, dest))
         else if encoding = DE_INT16 then
           if sampletype \<noteq> CHR ''i'' \<or> maxdatabytes < 2 then Inl (ReturnError (-1))
           else encoded_plain h 2 dest
                  (msr_encode_int16 src4 maxsamples (map_option (host_words h 2) dest) maxdatabytes swapflag)
         else if encoding = DE_INT32 then
           if sampletype \<noteq> CHR ''i'' \<or> maxdatabytes < 4 then Inl (ReturnError (-1))
           else encoded_plain h 4 dest (msr_encode_int32 src4 maxsamples dest4 maxdatabytes swapflag)
         else if encoding = DE_FLOAT32 then
           if sampletype \<noteq> CHR ''f'' \<or> maxdatabytes < 4 then Inl (ReturnError (-1))
           else encoded_plain h 4 dest (msr_encode_float32 src4 maxsamples dest4 maxdatabytes swapflag)
         else if encoding = DE_FLOAT64 then
           if sampletype \<noteq> CHR ''d'' \<or> maxdatabytes < 8 then Inl (ReturnError (-1))
           else encoded_plain h 8 dest
                  (msr_encode_float64 (map_option (host_words h 8) src) maxsamples (map_option (host_words h 8) dest)
                     maxdatabytes swapflag)
         else if encoding = DE_STEIM1 then
           if sampletype \<noteq> CHR ''i'' \<or> maxdatabytes < 64 then Inl (ReturnError (-1))
           else encoded_steim h dest
                  (msr_encode_steim1 h src4 maxsamples dest4 maxdatabytes 0 (\<not> ms_bigendianhost h))
         else if encoding = DE_STEIM2 then
           if sampletype \<noteq> CHR ''i'' \<or> maxdatabytes < 64 then Inl (ReturnError (-1))
           else encoded_steim h dest
                  (msr_encode_steim2 h src4 maxsamples dest4 maxdatabytes 0 (\<not> ms_bigendianhost h))
         else Inl (ReturnError (-1)))"

subsection \<open>Words and memory\<close>

lemma host_words_host:
  assumes "LENGTH('a) = 8 * n" "0 < n" "length rest < n"
  shows "host_words h n (concat (map (host_bytes h n) xs) @ rest) = (xs :: 'a::len word list)"
proof (induction xs)
  case Nil
  then show ?case using assms(3) by (subst host_words.simps) simp
next
  case (Cons x xs)
  then show ?case using assms(1,2) by (subst host_words.simps) simp
qed

lemma length_concat_host_bytes [simp]: "length (concat (map (host_bytes h n) xs)) = n * length xs"
  by (induction xs) simp_all

lemma drop_concat_host_bytes:
  "drop (n * k) (concat (map (host_bytes h n) xs)) = concat (map (host_bytes h n) (drop k xs))"
proof (induction k arbitrary: xs)
  case (Suc k)
  then show ?case by (cases xs) simp_all
qed simp

lemma take_concat_host_bytes:
  "take (n * k) (concat (map (host_bytes h n) xs)) = concat (map (host_bytes h n) (take k xs))"
proof (induction k arbitrary: xs)
  case (Suc k)
  then show ?case by (cases xs) simp_all
qed simp

lemma host_words_memory:
  "LENGTH('a) = 8 * n \<Longrightarrow> 0 < n \<Longrightarrow> host_words h n (concat (map (host_bytes h n) xs)) = (xs :: 'a::len word list)"
  using host_words_host [of n "[]" h xs] by simp

text \<open>The destination keeps its size, and begins with the bytes of the words.\<close>

lemma store_words_split:
  assumes "k \<le> length ws" "width * length ws \<le> length dest"
  shows "length (store_words h width ws dest) = length dest"
    and "peek 0 (width * k) (store_words h width ws dest) = concat (map (host_bytes h width) (take k ws))"
  using assms take_concat_host_bytes [of width k h ws]
  by (simp_all add: store_words_def peek_def min_def)

subsection \<open>The contract of a payload encoding\<close>

text \<open>
  The swap the unpacking of a version 3 record uses for a payload on a host: Steim frames
  are big-endian, everything else is little-endian.
\<close>

definition payload_swapped :: "byteorder \<Rightarrow> u8 \<Rightarrow> bool" where
  "payload_swapped h encoding = (if encoding = DE_STEIM1 \<or> encoding = DE_STEIM2 then \<not> ms_bigendianhost h else ms_bigendianhost h)"

text \<open>
  An encoding of integers: given room it takes some of the samples that are left, and
  what it wrote decodes to them on any host.
\<close>

locale payload_codec =
  fixes encoding :: u8 and representable :: "i32 list \<Rightarrow> bool" and room :: nat
  assumes representable_drop: "representable xs \<Longrightarrow> representable (drop k xs)"
    and packs: "\<lbrakk>representable xs; xs \<noteq> []; length xs < 2 ^ 31; room \<le> maxb; maxb < 2 ^ 30; length dest = maxb\<rbrakk> \<Longrightarrow>
      \<exists>n k dest'. msr_pack_data h (Some dest) (Some (concat (map (host_bytes h 4) xs))) (length xs) maxb CHR ''i'' encoding
                    (ms_bigendianhost h) = Inr (n, of_nat k, Some dest') \<and>
        0 < n \<and> n \<le> length xs \<and> k \<le> maxb \<and> length dest' = maxb \<and>
        (\<forall>h'. ms_decode_data h' (Some (peek 0 k dest')) k encoding n True (4 * n) True (payload_swapped h' encoding) =
                Inr (n, Some (IntSamples (take n xs)), Some CHR ''i''))"

subsection \<open>Fixed-width integers\<close>

lemma concat_map_host_little:
  "concat (map (host_bytes h 2) (map (\<lambda>x. swap2_if (ms_bigendianhost h) (f x)) xs)) = concat (map (le_bytes 2) (map f xs))"
  "concat (map (host_bytes h 4) (map (\<lambda>x. swap4_if (ms_bigendianhost h) (g x)) xs)) = concat (map (le_bytes 4) (map g xs))"
  by (simp_all add: host_bytes_little o_def)

lemma room_for:
  assumes "0 < width" "width \<le> maxb" "n = min (length xs) (maxb div width)" "xs \<noteq> []"
  shows "0 < n" "n \<le> length xs" "width * n \<le> maxb"
proof -
  have "0 < maxb div width" using assms(1,2) by (simp add: div_greater_zero_iff)
  then show "0 < n" "n \<le> length xs" using assms(3,4) by simp_all
  show "width * n \<le> maxb" using assms(3) by (metis min.cobounded2 mult_le_mono2 times_div_less_eq_dividend le_trans)
qed

lemma length_host_words_memory: "0 < n \<Longrightarrow> length (host_words h n (concat (map (host_bytes h n) xs))) = length xs"
  by (simp add: length_host_words)

interpretation int32_payload: payload_codec 3 "\<lambda>xs. True" 4
proof unfold_locales
  fix xs :: "i32 list" and maxb and dest :: "u8 list" and h
  assume a: "xs \<noteq> []" "length xs < 2 ^ 31" "4 \<le> maxb" "maxb < 2 ^ 30" "length dest = maxb"
  define n where "n = min (length xs) (maxb div 4)"
  have n: "0 < n" "n \<le> length xs" "4 * n \<le> maxb" using room_for [OF _ a(3) n_def a(1)] by simp_all
  define ws where "ws = map (swap4_if (ms_bigendianhost h)) (take n xs) @ drop n (host_words h 4 dest)"
  define dest' where "dest' = store_words h 4 ws dest"
  have wlen: "length (host_words h 4 dest :: u32 list) = maxb div 4" using a(5) by (simp add: length_host_words)
  then have ws: "n \<le> length ws" "4 * length ws \<le> length dest" using n a(5) by (simp_all add: ws_def)
  have "msr_pack_data h (Some dest) (Some (concat (map (host_bytes h 4) xs))) (length xs) maxb CHR ''i'' 3 (ms_bigendianhost h) =
      Inr (n, of_nat (4 * n), Some dest')"
    using a(1,3) n wlen encode_plain_result [OF n_def, of xs "host_words h 4 dest" "swap4_if (ms_bigendianhost h)"]
    by (simp add: msr_pack_data_def msr_encode_int32_def host_words_memory encoded_plain_def dest'_def ws_def mult.commute)
  moreover have "peek 0 (4 * n) dest' = concat (map (le_bytes 4) (take n xs))"
    using store_words_split(2) [OF ws] concat_map_host_little(2) [of h "\<lambda>x. x" "take n xs"] n
    by (simp add: dest'_def ws_def)
  moreover have "ms_decode_data h' (Some (concat (map (le_bytes 4) (take n xs)))) (4 * n) 3 n True (4 * n) True (payload_swapped h' 3) =
      Inr (n, Some (IntSamples (take n xs)), Some CHR ''i'')" for h'
    using decode_data_int32 [of n h' "take n xs" "4 * n"] n a(2) by (simp add: payload_swapped_def)
  ultimately show "\<exists>n k dest'. msr_pack_data h (Some dest) (Some (concat (map (host_bytes h 4) xs))) (length xs) maxb CHR ''i'' 3
                    (ms_bigendianhost h) = Inr (n, of_nat k, Some dest') \<and>
        0 < n \<and> n \<le> length xs \<and> k \<le> maxb \<and> length dest' = maxb \<and>
        (\<forall>h'. ms_decode_data h' (Some (peek 0 k dest')) k 3 n True (4 * n) True (payload_swapped h' 3) =
                Inr (n, Some (IntSamples (take n xs)), Some CHR ''i''))"
    using n store_words_split(1) [OF ws] a(5) by (intro exI [of _ n] exI [of _ "4 * n"] exI [of _ dest']) (simp add: dest'_def)
qed simp

definition int16_range :: "i32 list \<Rightarrow> bool" where
  "int16_range xs \<longleftrightarrow> (\<forall>x\<in>set xs. - 32768 \<le> sint x \<and> sint x \<le> 32767)"

lemma int16_values: "int16_range xs \<Longrightarrow> map (\<lambda>x. scast (ucast x :: u16)) xs = xs"
  by (intro map_idI) (simp add: int16_range_def int16_norm signed_take_bit_fits)

lemma decode_data_int16:
  assumes "0 < n" "n < 2 ^ 31" "length xs = n" "int16_range xs"
  shows "ms_decode_data h (Some (concat (map (le_bytes 2) (map ucast xs :: u16 list)))) insize 1 n True (4 * n) True (ms_bigendianhost h) =
           Inr (n, Some (IntSamples xs), Some CHR ''i'')"
proof -
  define mem where "mem = concat (map (le_bytes 2) (map ucast xs :: u16 list))"
  define ws :: "u16 list" where "ws = map (\<lambda>w. host_word h (le_bytes 2 w)) (map ucast xs :: u16 list)"
  let ?conv = "\<lambda>w :: u16. scast (swap2_if (ms_bigendianhost h) w) :: i32"
  have words: "host_words h 2 mem = ws" unfolding mem_def ws_def
    using host_words_le [of 2 "[]" h "map ucast xs :: u16 list"] by simp
  have len: "length ws = n" using assms(3) by (simp add: ws_def)
  have vals: "map ?conv ws = xs"
    using int16_values [OF assms(4)] by (simp add: ws_def host_word_little o_def)
  have "decode_plain (\<lambda>w. Inr (?conv w)) 4 4 (Some ws) n (Some (replicate n 0)) (4 * n) =
      Inr (n, Some (map ?conv (take n ws) @ drop n (replicate n 0)))"
    using assms len by (intro decode_plain_result) simp_all
  then have "decode_plain (\<lambda>w. Inr (?conv w)) 4 4 (Some ws) n (Some (replicate n 0)) (4 * n) = Inr (n, Some xs)"
    using len vals by simp
  moreover have "n * 4 mod 2 ^ 64 = 4 * n" using assms(2) by simp
  ultimately show ?thesis unfolding mem_def [symmetric]
    using assms(1,3) by (simp add: ms_decode_data_def Let_def ms_encoding_sizetype_def decode_switch_def words msr_decode_int16_def decoded_def)
qed

interpretation int16_payload: payload_codec 1 int16_range 2
proof unfold_locales
  show "int16_range xs \<Longrightarrow> int16_range (drop k xs)" for xs k by (auto simp: int16_range_def dest: in_set_dropD)
next
  fix xs :: "i32 list" and maxb and dest :: "u8 list" and h
  assume a: "int16_range xs" "xs \<noteq> []" "length xs < 2 ^ 31" "2 \<le> maxb" "maxb < 2 ^ 30" "length dest = maxb"
  define n where "n = min (length xs) (maxb div 2)"
  have n: "0 < n" "n \<le> length xs" "2 * n \<le> maxb" using room_for [OF _ a(4) n_def a(2)] by simp_all
  define ws where "ws = map (\<lambda>x. swap2_if (ms_bigendianhost h) (ucast x)) (take n xs) @ drop n (host_words h 2 dest)"
  define dest' where "dest' = store_words h 2 ws dest"
  have wlen: "length (host_words h 2 dest :: u16 list) = maxb div 2" using a(6) by (simp add: length_host_words)
  then have ws: "n \<le> length ws" "2 * length ws \<le> length dest" using n a(6) by (simp_all add: ws_def)
  have "msr_pack_data h (Some dest) (Some (concat (map (host_bytes h 4) xs))) (length xs) maxb CHR ''i'' 1 (ms_bigendianhost h) =
      Inr (n, of_nat (2 * n), Some dest')"
    using a(2,4) n wlen encode_plain_result [OF n_def, of xs "host_words h 2 dest" "\<lambda>x. swap2_if (ms_bigendianhost h) (ucast x)"]
    by (simp add: msr_pack_data_def msr_encode_int16_def host_words_memory encoded_plain_def dest'_def ws_def mult.commute)
  moreover have "peek 0 (2 * n) dest' = concat (map (le_bytes 2) (map ucast (take n xs) :: u16 list))"
    using store_words_split(2) [OF ws] concat_map_host_little(1) [of h ucast "take n xs"] n
    by (simp add: dest'_def ws_def)
  moreover have "int16_range (take n xs)" using a(1) by (auto simp: int16_range_def dest: in_set_takeD)
  then have "ms_decode_data h' (Some (concat (map (le_bytes 2) (map ucast (take n xs) :: u16 list)))) (2 * n) 1 n True (4 * n) True
      (payload_swapped h' 1) = Inr (n, Some (IntSamples (take n xs)), Some CHR ''i'')" for h'
    using decode_data_int16 [of n "take n xs" h' "2 * n"] n a(3) by (simp add: payload_swapped_def)
  ultimately show "\<exists>n k dest'. msr_pack_data h (Some dest) (Some (concat (map (host_bytes h 4) xs))) (length xs) maxb CHR ''i'' 1
                    (ms_bigendianhost h) = Inr (n, of_nat k, Some dest') \<and>
        0 < n \<and> n \<le> length xs \<and> k \<le> maxb \<and> length dest' = maxb \<and>
        (\<forall>h'. ms_decode_data h' (Some (peek 0 k dest')) k 1 n True (4 * n) True (payload_swapped h' 1) =
                Inr (n, Some (IntSamples (take n xs)), Some CHR ''i''))"
    using n store_words_split(1) [OF ws] a(6) by (intro exI [of _ n] exI [of _ "2 * n"] exI [of _ dest']) (simp add: dest'_def)
qed

end
