(* ===== verification/SteimPayload.thy ===== *)
theory SteimPayload
  imports PackData
begin

text \<open>
  The frames a Steim encoder wrote, as the payload of a record: only the frames it used
  are kept, and they decode on a host of either byte order. With that the two Steim
  encodings keep the contract of a payload encoding.
\<close>

subsection \<open>The frames that were used\<close>

lemma steim_frames_stepE:
  assumes "steim_frames n pack sw input m maxframes fi st out = Inr r" "fi < maxframes" "outputsamples st < m"
  obtains st1 fr1 where "length fr1 = 16"
    "\<And>mf. fi < mf \<Longrightarrow> steim_frames n pack sw input m mf fi st out =
       steim_frames n pack sw input m mf (Suc fi) st1 (out @ fr1[0 := swap4_if sw (fr1 ! 0)])"
proof -
  define frame where "frame = (if fi = 0 then (replicate 16 0)[1 := swap4_if sw (input ! 0)] else replicate 16 (0 :: u32))"
  obtain st1 fr1 where w: "steim_words n pack input m (if fi = 0 then 3 else 1) st frame = Inr (st1, fr1)"
    using assms by (subst (asm) steim_frames.simps) (auto simp: Let_def frame_def split: sum.splits)
  have "length fr1 = 16" using steim_words_length [OF w] by (simp add: frame_def)
  moreover have "steim_frames n pack sw input m mf fi st out =
       steim_frames n pack sw input m mf (Suc fi) st1 (out @ fr1[0 := swap4_if sw (fr1 ! 0)])" if "fi < mf" for mf
    using w that assms(3) by (subst steim_frames.simps) (simp add: Let_def frame_def split del: if_split)
  ultimately show ?thesis using that by blast
qed

lemma steim_frames_cap:
  "steim_frames n pack sw input m maxframes fi st out = Inr (fi', st', out') \<Longrightarrow> fi \<le> maxframes \<Longrightarrow>
   fi \<le> fi' \<and> fi' \<le> maxframes \<and> (fi < maxframes \<and> outputsamples st < m \<longrightarrow> fi < fi') \<and>
   length out' = length out + 16 * (fi' - fi) \<and>
   steim_frames n pack sw input m fi' fi st out = Inr (fi', st', out')"
proof (induction "maxframes - fi" arbitrary: fi st out)
  case 0
  then show ?case by (auto simp: steim_frames.simps)
next
  case (Suc c)
  then have c: "c = maxframes - Suc fi" "Suc fi \<le> maxframes" "fi < maxframes" by simp_all
  show ?case
  proof (cases "outputsamples st < m")
    case True
    obtain st1 fr1 where l: "length fr1 = 16" and step: "\<And>mf. fi < mf \<Longrightarrow> steim_frames n pack sw input m mf fi st out =
       steim_frames n pack sw input m mf (Suc fi) st1 (out @ fr1[0 := swap4_if sw (fr1 ! 0)])"
      using steim_frames_stepE [OF Suc.prems(1) c(3) True] by metis
    have "steim_frames n pack sw input m maxframes (Suc fi) st1 (out @ fr1[0 := swap4_if sw (fr1 ! 0)]) = Inr (fi', st', out')"
      using step [OF c(3)] Suc.prems(1) by simp
    from Suc.hyps(1) [OF c(1) this c(2)] show ?thesis using l step by auto
  next
    case False
    then have "fi' = fi" "st' = st" "out' = out" using Suc.prems by (auto simp: steim_frames.simps)
    then show ?thesis using False Suc.prems by (simp add: steim_frames.simps)
  qed
qed

text \<open>Encoding into just the frames used leaves them and nothing else.\<close>

lemma steim_encode_capped:
  assumes "steim_encode n pack input m output outputlength d sw = Inr r" "0 < m" "64 \<le> outputlength"
  obtains k where "0 < k" "k \<le> outputlength div 64" "er_byteswritten r = Some (of_nat (64 * k))"
    "length (er_output r) = max (16 * k) (length output)"
    "steim_encode n pack input m [] (64 * k) d sw =
       Inr \<lparr>er_samples = er_samples r, er_output = take (16 * k) (er_output r), er_byteswritten = Some (of_nat (64 * k))\<rparr>"
proof -
  obtain k st out where f: "steim_frames n pack sw input m (outputlength div 64) 0 (enc_init n d) [] = Inr (k, st, out)"
    using assms(1) by (auto simp: steim_encode_def split: sum.splits)
  have "0 < outputlength div 64" using assms(3) by (simp add: div_greater_zero_iff)
  then have k: "0 < k" "length out = 16 * k" "k \<le> outputlength div 64"
    and cap: "steim_frames n pack sw input m k 0 (enc_init n d) [] = Inr (k, st, out)"
    using steim_frames_cap [OF f] assms(2) by (simp_all add: enc_init_def)
  show ?thesis
    using assms(1) k f cap by (intro that [of k]) (auto simp: steim_encode_def Let_def mult.commute)
qed

subsection \<open>Both hosts\<close>

lemma u32_bytes_host: "u32_bytes h w = host_bytes h 4 w"
  by (cases h) (simp_all add: u32_bytes_def host_bytes_def le_bytes_def upt_small get_d8_def d8_shift_def)

lemma words_bytes_host: "words_bytes h ws = concat (map (host_bytes h 4) ws)"
  by (simp add: words_bytes_def u32_bytes_host [abs_def])

context host_pair
begin

lemma steim_encode_pair_back:
  assumes "0 < m" "64 \<le> outputlength" "steim_encode n packL input m [] outputlength d True = Inr r"
  shows "\<exists>r'. steim_encode n packB input m [] outputlength d False = Inr r' \<and>
     er_samples r' = er_samples r \<and> words_bytes BigEndian (er_output r') = words_bytes LittleEndian (er_output r)"
proof -
  obtain fi st out where "steim_frames n packL True input m (outputlength div 64) 0 (enc_init n d) [] = Inr (fi, st, out)"
    using assms(3) by (auto simp: steim_encode_def split: sum.splits)
  then obtain fi' st' out' where "steim_frames n packB False input m (outputlength div 64) 0 (enc_init n d) [] = Inr (fi', st', out')"
    using steim_frames_pair [of input m "outputlength div 64" 0 "enc_init n d" "[]"] by (auto split: sum.splits)
  then obtain r' where r': "steim_encode n packB input m [] outputlength d False = Inr r'"
    by (simp add: steim_encode_def Let_def)
  show ?thesis using steim_encode_pair [OF assms(1,2) r'] assms(3) r' by auto
qed

end

text \<open>
  A Steim encoding with its packers for both hosts, each swapping on a little-endian
  host. \<open>frames_decode\<close> is what the payload of a record is good for.
\<close>

locale steim_pair =
  fixes n :: nat and pack :: "byteorder \<Rightarrow> bool \<Rightarrow> packer" and word_diffs :: "byteorder \<Rightarrow> bool \<Rightarrow> word_decoder"
  assumes codec: "steim_codec n (pack h sw) (word_diffs h sw)"
    and hosts: "host_pair (pack LittleEndian True) (pack BigEndian False)"
begin

lemma encode_on_other:
  assumes "0 < m" "64 \<le> outputlength"
    and "steim_encode n (pack h (\<not> ms_bigendianhost h)) input m [] outputlength d (\<not> ms_bigendianhost h) = Inr r"
  shows "\<exists>r'. steim_encode n (pack h' (\<not> ms_bigendianhost h')) input m [] outputlength d (\<not> ms_bigendianhost h') = Inr r' \<and>
     er_samples r' = er_samples r \<and> words_bytes h' (er_output r') = words_bytes h (er_output r)"
proof -
  have forth: "\<exists>r'. steim_encode n (pack LittleEndian True) input m [] outputlength d True = Inr r' \<and> er_samples r' = er_samples x \<and>
       words_bytes LittleEndian (er_output r') = words_bytes BigEndian (er_output x)"
    if "steim_encode n (pack BigEndian False) input m [] outputlength d False = Inr x" for x
    using host_pair.steim_encode_pair [OF hosts assms(1,2) that] by auto
  show ?thesis
    using assms forth host_pair.steim_encode_pair_back [OF hosts assms(1,2)]
    by (cases h; cases h') (auto simp: ms_bigendianhost_iff)
qed

lemma frames_decode:
  assumes "steim_encode n (pack h (\<not> ms_bigendianhost h)) input m output outputlength d (\<not> ms_bigendianhost h) = Inr r"
    and "0 < m" "m \<le> length input" "64 \<le> outputlength"
  obtains k where "0 < k" "64 * k \<le> outputlength" "er_byteswritten r = Some (of_nat (64 * k))"
    "length (er_output r) = max (16 * k) (length output)"
    "\<And>h' room. 4 * er_samples r \<le> room \<Longrightarrow>
       steim_decode (word_diffs h' (\<not> ms_bigendianhost h'))
         (Some (host_words h' 4 (concat (map (host_bytes h 4) (take (16 * k) (er_output r)))))) (64 * k) (er_samples r) True room
         (\<not> ms_bigendianhost h') = Inr \<lparr>dr_output = take (er_samples r) input, dr_warned = False\<rparr>"
proof -
  obtain k where k: "0 < k" "k \<le> outputlength div 64" "er_byteswritten r = Some (of_nat (64 * k))"
    "length (er_output r) = max (16 * k) (length output)"
    and cap: "steim_encode n (pack h (\<not> ms_bigendianhost h)) input m [] (64 * k) d (\<not> ms_bigendianhost h) =
       Inr \<lparr>er_samples = er_samples r, er_output = take (16 * k) (er_output r), er_byteswritten = Some (of_nat (64 * k))\<rparr>"
    by (rule steim_encode_capped [OF assms(1,2,4)])
  have "64 * k \<le> outputlength" using k(2) by (simp add: less_eq_div_iff_mult_less_eq mult.commute)
  moreover have "steim_decode (word_diffs h' (\<not> ms_bigendianhost h'))
         (Some (host_words h' 4 (concat (map (host_bytes h 4) (take (16 * k) (er_output r)))))) (64 * k) (er_samples r) True room
         (\<not> ms_bigendianhost h') = Inr \<lparr>dr_output = take (er_samples r) input, dr_warned = False\<rparr>"
    if "4 * er_samples r \<le> room" for h' room
  proof -
    have "64 \<le> 64 * k" using k(1) by simp
    with encode_on_other [OF assms(2) _ cap] obtain r' where r':
      "steim_encode n (pack h' (\<not> ms_bigendianhost h')) input m [] (64 * k) d (\<not> ms_bigendianhost h') = Inr r'"
      "er_samples r' = er_samples r"
      "concat (map (host_bytes h' 4) (er_output r')) = concat (map (host_bytes h 4) (take (16 * k) (er_output r)))"
      unfolding words_bytes_host by auto
    have "host_words h' 4 (concat (map (host_bytes h 4) (take (16 * k) (er_output r)))) = er_output r'"
      using host_words_memory [of 4 h' "er_output r'"] unfolding r'(3) by simp
    then show ?thesis
      using steim_codec.encode_decode [OF codec r'(1) assms(2,3) \<open>64 \<le> 64 * k\<close>, of "64 * k" room] that r'(2) by simp
  qed
  ultimately show ?thesis using k by (intro that [of k])
qed

lemma frames_payload:
  assumes "steim_encode n (pack h (\<not> ms_bigendianhost h)) xs (length xs) (host_words h 4 dest) maxb 0 (\<not> ms_bigendianhost h) = Inr r"
    and "xs \<noteq> []" "64 \<le> maxb" "length dest = maxb"
  obtains k dest' where "encoded_steim h (Some dest) (Inr r) = Inr (er_samples r, of_nat k, Some dest')"
    "k \<le> maxb" "length dest' = maxb"
    "\<And>h' room. 4 * er_samples r \<le> room \<Longrightarrow>
       steim_decode (word_diffs h' (\<not> ms_bigendianhost h')) (Some (host_words h' 4 (peek 0 k dest'))) k (er_samples r) True room
         (\<not> ms_bigendianhost h') = Inr \<lparr>dr_output = take (er_samples r) xs, dr_warned = False\<rparr>"
proof -
  have m: "0 < length xs" using assms(2) by simp
  obtain k where k: "0 < k" "64 * k \<le> maxb" "er_byteswritten r = Some (of_nat (64 * k))"
    "length (er_output r) = max (16 * k) (length (host_words h 4 dest :: u32 list))"
    and decode: "\<And>h' room. 4 * er_samples r \<le> room \<Longrightarrow>
       steim_decode (word_diffs h' (\<not> ms_bigendianhost h'))
         (Some (host_words h' 4 (concat (map (host_bytes h 4) (take (16 * k) (er_output r)))))) (64 * k) (er_samples r) True room
         (\<not> ms_bigendianhost h') = Inr \<lparr>dr_output = take (er_samples r) xs, dr_warned = False\<rparr>"
    using frames_decode [OF assms(1) m order_refl assms(3)] by metis
  define dest' where "dest' = store_words h 4 (er_output r) dest"
  have len: "length (er_output r) = maxb div 4" using k(2,4) assms(4) by (simp add: length_host_words)
  then have fit: "16 * k \<le> length (er_output r)" "4 * length (er_output r) \<le> length dest" using k(2) assms(4) by simp_all
  have "peek 0 (64 * k) dest' = concat (map (host_bytes h 4) (take (16 * k) (er_output r)))"
    using store_words_split(2) [OF fit, of h] by (simp add: dest'_def)
  moreover have "length dest' = maxb" using store_words_split(1) [OF fit, of h] assms(4) by (simp add: dest'_def)
  moreover have "encoded_steim h (Some dest) (Inr r) = Inr (er_samples r, of_nat (64 * k), Some dest')"
    using k(3) by (simp add: encoded_steim_def dest'_def)
  ultimately show ?thesis using k(2) decode by (intro that [of "64 * k" dest']) simp_all
qed

end

interpretation steim1_pair: steim_pair 4 steim1_pack steim1_word_diffs
  by unfold_locales

interpretation steim2_pair: steim_pair 7 steim2_pack steim2_word_diffs
  by unfold_locales

subsection \<open>The contract of the Steim encodings\<close>

lemma decode_data_steim:
  assumes "0 < n" "n < 2 ^ 31" "encoding = 10 \<or> encoding = 11"
    and "encoding = 10 \<Longrightarrow> steim_decode (steim1_word_diffs h (\<not> ms_bigendianhost h)) (Some (host_words h 4 mem)) k n True (4 * n)
           (\<not> ms_bigendianhost h) = Inr \<lparr>dr_output = xs, dr_warned = False\<rparr>"
    and "encoding = 11 \<Longrightarrow> steim_decode (steim2_word_diffs h (\<not> ms_bigendianhost h)) (Some (host_words h 4 mem)) k n True (4 * n)
           (\<not> ms_bigendianhost h) = Inr \<lparr>dr_output = xs, dr_warned = False\<rparr>"
    and "length xs = n"
  shows "ms_decode_data h (Some mem) k encoding n True (4 * n) True (payload_swapped h encoding) =
           Inr (n, Some (IntSamples xs), Some CHR ''i'')"
proof -
  have "n * 4 mod 2 ^ 64 = 4 * n" using assms(2) by simp
  then show ?thesis
    using assms by (auto simp: ms_decode_data_def Let_def ms_encoding_sizetype_def decode_switch_def msr_decode_steim1_def
        msr_decode_steim2_def payload_swapped_def steim_decoded_def mult.commute [of _ 4])
qed

lemma capacity_pos: "64 \<le> maxb \<Longrightarrow> 0 < m \<Longrightarrow> min m (15 * (maxb div 64) - 2) \<le> k \<Longrightarrow> (0 :: nat) < k"
  using div_le_mono [of 64 maxb 64] by (simp add: min_def split: if_splits)

definition small_steps :: "i32 list \<Rightarrow> bool" where
  "small_steps xs \<longleftrightarrow> (\<forall>i<length xs - 1. bitwidth_of (xs ! Suc i - xs ! i) \<le> 30)"

interpretation steim1_payload: payload_codec 10 "\<lambda>xs. True" 64
proof unfold_locales
  fix xs :: "i32 list" and maxb and dest :: "u8 list" and h
  assume a: "xs \<noteq> []" "length xs < 2 ^ 31" "64 \<le> maxb" "maxb < 2 ^ 30" "length dest = maxb"
  have m: "0 < length xs" using a(1) by simp
  obtain r where r: "steim_encode 4 (steim1_pack h (\<not> ms_bigendianhost h)) xs (length xs) (host_words h 4 dest) maxb 0
      (\<not> ms_bigendianhost h) = Inr r"
    using steim1_total.steim_encode_total [OF m a(3)] bitwidth_le_32 by blast
  have cap: "min (length xs) (15 * (maxb div 64) - 2) \<le> er_samples r" "er_samples r \<le> length xs"
    using steim1.encode_capacity [OF r m a(3)] by simp_all
  then have n: "0 < er_samples r" "er_samples r < 2 ^ 31" using capacity_pos [OF a(3) m] a(2) by simp_all
  obtain k dest' where k: "encoded_steim h (Some dest) (Inr r) = Inr (er_samples r, of_nat k, Some dest')" "k \<le> maxb" "length dest' = maxb"
    and decode: "\<And>h' room. 4 * er_samples r \<le> room \<Longrightarrow>
       steim_decode (steim1_word_diffs h' (\<not> ms_bigendianhost h')) (Some (host_words h' 4 (peek 0 k dest'))) k (er_samples r) True room
         (\<not> ms_bigendianhost h') = Inr \<lparr>dr_output = take (er_samples r) xs, dr_warned = False\<rparr>"
    using steim1_pair.frames_payload [OF r a(1,3,5)] by metis
  have "msr_pack_data h (Some dest) (Some (concat (map (host_bytes h 4) xs))) (length xs) maxb CHR ''i'' 10 (ms_bigendianhost h) =
      Inr (er_samples r, of_nat k, Some dest')"
    using r k(1) a(1,3) by (simp add: msr_pack_data_def Let_def host_words_memory msr_encode_steim1_def)
  moreover have "ms_decode_data h' (Some (peek 0 k dest')) k 10 (er_samples r) True (4 * er_samples r) True (payload_swapped h' 10) =
      Inr (er_samples r, Some (IntSamples (take (er_samples r) xs)), Some CHR ''i'')" for h'
    using decode [OF order_refl] cap(2) by (intro decode_data_steim [OF n]) simp_all
  ultimately show "\<exists>n k dest'. msr_pack_data h (Some dest) (Some (concat (map (host_bytes h 4) xs))) (length xs) maxb CHR ''i'' 10
                    (ms_bigendianhost h) = Inr (n, of_nat k, Some dest') \<and>
        0 < n \<and> n \<le> length xs \<and> k \<le> maxb \<and> length dest' = maxb \<and>
        (\<forall>h'. ms_decode_data h' (Some (peek 0 k dest')) k 10 n True (4 * n) True (payload_swapped h' 10) =
                Inr (n, Some (IntSamples (take n xs)), Some CHR ''i''))"
    using n cap k by (intro exI [of _ "er_samples r"] exI [of _ k] exI [of _ dest']) simp
qed simp

interpretation steim2_payload: payload_codec 11 small_steps 64
proof unfold_locales
  show "small_steps xs \<Longrightarrow> small_steps (drop k xs)" for xs k
  proof (unfold small_steps_def, intro allI impI)
    fix i assume "\<forall>i<length xs - 1. bitwidth_of (xs ! Suc i - xs ! i) \<le> 30" "i < length (drop k xs) - 1"
    then have "bitwidth_of (xs ! Suc (k + i) - xs ! (k + i)) \<le> 30" "Suc (k + i) < length xs" by simp_all
    then show "bitwidth_of (drop k xs ! Suc i - drop k xs ! i) \<le> 30" by simp
  qed
next
  fix xs :: "i32 list" and maxb and dest :: "u8 list" and h
  assume a: "small_steps xs" "xs \<noteq> []" "length xs < 2 ^ 31" "64 \<le> maxb" "maxb < 2 ^ 30" "length dest = maxb"
  have m: "0 < length xs" using a(2) by simp
  have "bitwidth_of x \<le> 30" if "x \<in> set (all_diffs 0 xs (length xs))" for x
    using that a(1) by (auto simp: all_diffs_def small_steps_def bitwidth_of_def)
  then obtain r where r: "steim_encode 7 (steim2_pack h (\<not> ms_bigendianhost h)) xs (length xs) (host_words h 4 dest) maxb 0
      (\<not> ms_bigendianhost h) = Inr r"
    using steim2_total.steim_encode_total [OF m a(4)] by blast
  have cap: "min (length xs) (15 * (maxb div 64) - 2) \<le> er_samples r" "er_samples r \<le> length xs"
    using steim2.encode_capacity [OF r m a(4)] by simp_all
  then have n: "0 < er_samples r" "er_samples r < 2 ^ 31" using capacity_pos [OF a(4) m] a(3) by simp_all
  obtain k dest' where k: "encoded_steim h (Some dest) (Inr r) = Inr (er_samples r, of_nat k, Some dest')" "k \<le> maxb" "length dest' = maxb"
    and decode: "\<And>h' room. 4 * er_samples r \<le> room \<Longrightarrow>
       steim_decode (steim2_word_diffs h' (\<not> ms_bigendianhost h')) (Some (host_words h' 4 (peek 0 k dest'))) k (er_samples r) True room
         (\<not> ms_bigendianhost h') = Inr \<lparr>dr_output = take (er_samples r) xs, dr_warned = False\<rparr>"
    using steim2_pair.frames_payload [OF r a(2,4,6)] by metis
  have "msr_pack_data h (Some dest) (Some (concat (map (host_bytes h 4) xs))) (length xs) maxb CHR ''i'' 11 (ms_bigendianhost h) =
      Inr (er_samples r, of_nat k, Some dest')"
    using r k(1) a(2,4) by (simp add: msr_pack_data_def Let_def host_words_memory msr_encode_steim2_def)
  moreover have "ms_decode_data h' (Some (peek 0 k dest')) k 11 (er_samples r) True (4 * er_samples r) True (payload_swapped h' 11) =
      Inr (er_samples r, Some (IntSamples (take (er_samples r) xs)), Some CHR ''i'')" for h'
    using decode [OF order_refl] cap(2) by (intro decode_data_steim [OF n]) simp_all
  ultimately show "\<exists>n k dest'. msr_pack_data h (Some dest) (Some (concat (map (host_bytes h 4) xs))) (length xs) maxb CHR ''i'' 11
                    (ms_bigendianhost h) = Inr (n, of_nat k, Some dest') \<and>
        0 < n \<and> n \<le> length xs \<and> k \<le> maxb \<and> length dest' = maxb \<and>
        (\<forall>h'. ms_decode_data h' (Some (peek 0 k dest')) k 11 n True (4 * n) True (payload_swapped h' 11) =
                Inr (n, Some (IntSamples (take n xs)), Some CHR ''i''))"
    using n cap k by (intro exI [of _ "er_samples r"] exI [of _ k] exI [of _ dest']) simp
qed

end
