(* ===== verification/Unpack3.thy ===== *)
theory Unpack3
  imports UnpackData
begin

text \<open>
  Unpacking of version 3 records (unpack.c), and what repacking a record and unpacking
  the result give. The buffer of a record has at least the \<open>reclen\<close> bytes the caller
  states; a shorter one shows as \<open>OutOfBounds\<close>.
\<close>

abbreviation (input) "MSF_UNPACKDATA \<equiv> 0x0001 :: u32"
abbreviation (input) "MSF_VALIDATECRC \<equiv> 0x0004 :: u32"

text \<open>The allocations of one call: record, extra headers, sample copy, sample buffer.\<close>

record allocations =
  record_ok :: bool
  extra_ok :: bool
  copy_ok :: bool
  samples_ok :: bool
  prealloc_block_size :: nat

definition all_ok :: allocations where
  "all_ok = \<lparr>record_ok = True, extra_ok = True, copy_ok = True, samples_ok = True, prealloc_block_size = 0\<rparr>"

text \<open>The checksum of the record with zeros in place of the stored one.\<close>

definition record_crc :: "byteorder \<Rightarrow> nat \<Rightarrow> u8 list \<Rightarrow> int \<Rightarrow> u32 result" where
  "record_crc h addr mem reclen =
     (case ms_crc32c h (Some mem) (addr mod 4) 28 0 of
        Inl e \<Rightarrow> Inl e
      | Inr crc \<Rightarrow>
          (case ms_crc32c h (Some (replicate 4 0)) 0 4 crc of
             Inl e \<Rightarrow> Inl e
           | Inr crc \<Rightarrow> ms_crc32c h (Some (drop 32 mem)) ((addr + 32) mod 4) (reclen - 32) crc))"

text \<open>The fields of the header in the record that is returned, with its swap flags.\<close>

definition unpack3_header :: "byteorder \<Rightarrow> u8 list \<Rightarrow> int \<Rightarrow> int \<Rightarrow> MS3Record \<Rightarrow> MS3Record" where
  "unpack3_header h mem reclen starttime m =
     (let swapflag = ms_bigendianhost h;
          sidlength = unat (mem ! 33);
          extralength = HO2u (u16_at h mem 34) swapflag;
          encoding = uint (mem ! 15);
          header_swap = (if swapflag then MSSWAP_HEADER else 0);
          payload_swap = (if encoding = 10 \<or> encoding = 11
             then (if \<not> ms_bigendianhost h then MSSWAP_PAYLOAD else 0)
             else (if header_swap AND MSSWAP_HEADER \<noteq> 0 then MSSWAP_PAYLOAD else 0))
      in m\<lparr>msr_record := Some mem, msr_reclen := reclen, msr_swapflag := header_swap OR payload_swap,
           msr_formatversion := mem ! 2, msr_flags := mem ! 3,
           msr_sid := takeWhile (\<lambda>b. b \<noteq> 0) (peek 40 sidlength mem), msr_starttime := starttime,
           msr_encoding := encoding, msr_samprate := HO8f (u64_at h mem 16) swapflag,
           msr_samplecnt := uint (HO4u (u32_at h mem 24) swapflag), msr_crc := HO4u (u32_at h mem 28) swapflag,
           msr_pubversion := mem ! 32, msr_extralength := extralength,
           msr_extra := (if extralength \<noteq> 0 then Some (peek (40 + sidlength) (unat extralength) mem @ [0]) else msr_extra m),
           msr_datalength := HO4u (u32_at h mem 36) swapflag\<rparr>)"

definition msr3_unpack_mseed3 ::
  "byteorder \<Rightarrow> nat \<Rightarrow> allocations \<Rightarrow> u8 list option \<Rightarrow> int \<Rightarrow> MS3Record option option \<Rightarrow> u32 \<Rightarrow> MS3Record result" where
  "msr3_unpack_mseed3 h addr al record reclen ppmsr flags =
     (case (record, ppmsr) of
        (Some mem, Some pmsr) \<Rightarrow>
          if reclen < int MINRECLEN \<or> reclen > int MAXRECLEN then Inl (ReturnError MS_OUTOFRANGE)
          else if int (length mem) < reclen then Inl OutOfBounds
          else if \<not> MS3_ISVALIDHEADER mem then Inl (ReturnError MS_NOTSEED)
          else
            let swapflag = ms_bigendianhost h;
                sidlength = unat (mem ! 33);
                extralength = unat (HO2u (u16_at h mem 34) swapflag);
                datalength = unat (HO4u (u32_at h mem 36) swapflag);
                header_crc = HO4u (u32_at h mem 28) swapflag;
                crc = (if flags AND MSF_VALIDATECRC \<noteq> 0 then record_crc h addr mem reclen else Inr header_crc)
            in if sidlength \<ge> 64 then Inl (ReturnError MS_GENERROR)
               else (case crc of
                 Inl e \<Rightarrow> Inl e
               | Inr calculated_crc \<Rightarrow>
                   if header_crc \<noteq> calculated_crc then Inl (ReturnError MS_INVALIDCRC)
                   else if int (MS3FSDH_LENGTH + sidlength + extralength) > reclen \<or>
                           int (MS3FSDH_LENGTH + sidlength + extralength + datalength) > reclen
                   then Inl (ReturnError MS_OUTOFRANGE)
                   else (case msr3_init (record_ok al) pmsr of
                     None \<Rightarrow> Inl (ReturnError MS_GENERROR)
                   | Some m \<Rightarrow>
                   (case ms_time2nstime (uint (HO2u (u16_at h mem 8) swapflag)) (uint (HO2u (u16_at h mem 10) swapflag))
                           (uint (mem ! 12)) (uint (mem ! 13)) (uint (mem ! 14)) (uint (HO4u (u32_at h mem 4) swapflag)) of
                     Inl e \<Rightarrow> Inl e
                   | Inr starttime \<Rightarrow>
                       if starttime = NSTERROR then Inl (ReturnError MS_GENERROR)
                       else if extralength \<noteq> 0 \<and> \<not> extra_ok al then Inl (ReturnError MS_GENERROR)
                       else
                         let m = unpack3_header h mem reclen starttime m
                         in if flags AND MSF_UNPACKDATA \<noteq> 0 \<and> msr_samplecnt m > 0 then
                              (case msr3_unpack_data h addr (prealloc_block_size al) (copy_ok al) (samples_ok al) (Some m) of
                                 Inl e \<Rightarrow> Inl e
                               | Inr (retval, m) \<Rightarrow> Inr (m\<lparr>msr_numsamples := int retval\<rparr>))
                            else Inr (m\<lparr>msr_datasamples := None, msr_datasize := 0, msr_numsamples := 0\<rparr>))))
      | _ \<Rightarrow> Inl (ReturnError MS_GENERROR))"

subsection \<open>What the header writer leaves\<close>

lemma peek_le:
  "off + 2 \<le> length mem \<Longrightarrow> peek off 2 mem = le_bytes 2 v \<Longrightarrow> le_u16 mem off = v"
  "off + 4 \<le> length mem \<Longrightarrow> peek off 4 mem = le_bytes 4 w \<Longrightarrow> le_u32 mem off = w"
  "off + 8 \<le> length mem \<Longrightarrow> peek off 8 mem = le_bytes 8 x \<Longrightarrow> le_u64 mem off = x"
  by (simp_all add: le_u16_def le_u32_def le_u64_def)

lemma nth_of_peek: "off < length mem \<Longrightarrow> peek off 1 mem = [b] \<Longrightarrow> mem ! off = b"
  by (simp add: peek_Suc)


lemma nth_poke_one: "off < length mem \<Longrightarrow> poke off [b] mem ! off = b"
  using nth_poke_same [of off "[b]" mem 0] by simp

lemmas poke_simps = nth_poke_one nth_poke_other peek_poke_same peek_poke_other length_poke

definition header_holds :: "MS3Record \<Rightarrow> date_time \<Rightarrow> u8 list \<Rightarrow> bool" where
  "header_holds m t mem \<longleftrightarrow>
     mem ! 0 = 0x4D \<and> mem ! 1 = 0x53 \<and> mem ! 2 = 3 \<and> mem ! 3 = msr_flags m \<and>
     peek 4 4 mem = le_bytes 4 (word_of_int (dt_nsec t) :: u32) \<and> peek 8 2 mem = le_bytes 2 (word_of_int (dt_year t) :: u16) \<and>
     peek 10 2 mem = le_bytes 2 (word_of_int (dt_yday t) :: u16) \<and>
     mem ! 12 = word_of_int (dt_hour t) \<and> mem ! 13 = word_of_int (dt_min t) \<and> mem ! 14 = word_of_int (dt_sec t) \<and>
     mem ! 15 = (if msr_encoding m < 0 then 11 else word_of_int (msr_encoding m)) \<and>
     peek 16 8 mem = le_bytes 8 (header_rate (msr_samprate m)) \<and>
     mem ! 32 = msr_pubversion m \<and> mem ! 33 = of_nat (length (msr_sid m)) \<and>
     peek 34 2 mem = le_bytes 2 (msr_extralength m) \<and> peek 40 (length (msr_sid m)) mem = msr_sid m \<and>
     (case msr_extra m of None \<Rightarrow> True | Some extra \<Rightarrow>
        peek (40 + length (msr_sid m)) (unat (msr_extralength m)) mem = take (unat (msr_extralength m)) extra)"

text \<open>Where a store does not touch what the header writer wrote.\<close>

lemma header_holds_poke:
  assumes "header_holds m t mem" "off + length bs \<le> length mem" "40 \<le> length mem"
    and "24 \<le> off \<and> off + length bs \<le> 32 \<or> 36 \<le> off \<and> off + length bs \<le> 40 \<or>
         40 + length (msr_sid m) + unat (msr_extralength m) \<le> off"
  shows "header_holds m t (poke off bs mem)"
  using assms unfolding header_holds_def
  by (auto simp: nth_poke_other peek_poke_other split: option.splits)

definition packable :: "MS3Record \<Rightarrow> bool" where
  "packable m \<longleftrightarrow>
     (msr_reclen m < 0 \<or> (int MINRECLEN \<le> msr_reclen m \<and> msr_reclen m \<le> int MAXRECLEN)) \<and>
     length (msr_sid m) < 64 \<and> 0 \<notin> set (msr_sid m) \<and>
     year_start 1678 * 86400 * NSTMODULUS \<le> msr_starttime m \<and> msr_starttime m < 2 ^ 63 \<and> msr_starttime m \<noteq> NSTERROR \<and>
     msr_encoding m < 256 \<and> 0 \<le> msr_samplecnt m \<and> msr_samplecnt m < 2 ^ 32 \<and>
     (msr_extralength m \<noteq> 0 \<longrightarrow>
        (case msr_extra m of None \<Rightarrow> False | Some extra \<Rightarrow> unat (msr_extralength m) \<le> length extra))"

lemma pack_header3_fields:
  assumes "packable m" "ms_nstime2time (msr_starttime m) = Inr t"
    and "MS3FSDH_LENGTH + length (msr_sid m) + unat (msr_extralength m) \<le> recbuflen" "recbuflen \<le> length mem"
  shows "\<exists>mem'. msr3_pack_header3 h (Some m) (Some mem) recbuflen =
            Inr (int (MS3FSDH_LENGTH + length (msr_sid m) + unat (msr_extralength m)), mem') \<and>
          length mem' = length mem \<and> header_holds m t mem'"
proof -
  let ?s = "ms_bigendianhost h"
  let ?sid = "length (msr_sid m)"
  let ?enc = "(if msr_encoding m < 0 then 11 else word_of_int (msr_encoding m)) :: u8"
  define fields :: "(nat \<times> u8 list) list" where "fields =
    [(0, [0x4D]), (1, [0x53]), (2, [3]), (3, [msr_flags m]), (4, le_bytes 4 (word_of_int (dt_nsec t) :: u32)),
     (8, le_bytes 2 (word_of_int (dt_year t) :: u16)), (10, le_bytes 2 (word_of_int (dt_yday t) :: u16)),
     (12, [word_of_int (dt_hour t)]), (13, [word_of_int (dt_min t)]), (14, [word_of_int (dt_sec t)]),
     (15, [?enc]), (16, le_bytes 8 (header_rate (msr_samprate m))), (32, [msr_pubversion m]), (33, [of_nat ?sid]),
     (34, le_bytes 2 (msr_extralength m)), (40, msr_sid m)]"
  define mem1 where "mem1 = poke_all fields mem"
  have len: "40 + ?sid \<le> length mem" using assms by simp
  then have bounds: "list_all (in_bounds mem) fields" by (simp add: fields_def in_bounds_def)
  then have st: "store_all fields mem = Inr mem1" and len1: "length mem1 = length mem"
    using store_all_ok unfolding mem1_def by blast+
  have guard: "((if msr_reclen m < 0 then 4096 else msr_reclen m) < int MINRECLEN \<or>
      int MAXRECLEN < (if msr_reclen m < 0 then 4096 else msr_reclen m)) = False" "(255 < ?sid) = False"
    using assms(1) by (auto simp: packable_def)
  have run: "msr3_pack_header3 h (Some m) (Some mem) recbuflen =
     (if unat (msr_extralength m) > 0 then
        (case msr_extra m of None \<Rightarrow> Inl NullDeref
         | Some extra \<Rightarrow> if length extra < unat (msr_extralength m) then Inl OutOfBounds
            else (case store_all [(MS3FSDH_LENGTH + ?sid, take (unat (msr_extralength m)) extra)] mem1 of
                    Inl e \<Rightarrow> Inl e | Inr mem \<Rightarrow> Inr (int (MS3FSDH_LENGTH + ?sid + unat (msr_extralength m)), mem)))
      else Inr (int (MS3FSDH_LENGTH + ?sid + unat (msr_extralength m)), mem1))"
    using guard assms(2,3) st unfolding fields_def
    by (simp add: msr3_pack_header3_def Let_def HO_swap host_bytes_little del: store_all.simps split del: if_split)
  have fixed: "header_holds (m\<lparr>msr_extra := None\<rparr>) t mem1"
  proof -
    have asc: "ascending fields" by (simp add: fields_def)
    have "list_all (\<lambda>(off, bs). peek off (length bs) mem1 = bs) fields"
      using peek_poke_all [OF bounds asc] by (simp only: mem1_def)
    moreover have "peek i 1 mem1 = [mem1 ! i]" if "i < 40" for i
      using that len len1 by (simp add: peek_Suc)
    ultimately show ?thesis unfolding header_holds_def by (simp add: fields_def)
  qed
  show ?thesis
  proof (cases "msr_extralength m = 0")
    case True
    then have "header_holds m t mem1" using fixed by (auto simp: header_holds_def split: option.splits)
    then show ?thesis using True run len1 by simp
  next
    case False
    then obtain extra where extra: "msr_extra m = Some extra" "unat (msr_extralength m) \<le> length extra"
      using assms(1) by (auto simp: packable_def split: option.splits)
    let ?mem' = "poke (40 + ?sid) (take (unat (msr_extralength m)) extra) mem1"
    have fit: "40 + ?sid + unat (msr_extralength m) \<le> length mem1" using assms(3,4) len1 by simp
    have "header_holds m t ?mem'"
      using fixed fit extra unfolding header_holds_def by (simp add: nth_poke_other peek_poke_other peek_poke_same)
    moreover have "0 < unat (msr_extralength m)" using False by (simp add: unat_gt_0)
    ultimately show ?thesis using run extra fit len1 by auto
  qed
qed


lemma nstime2time_widths:
  "ms_nstime2time s = Inr t \<Longrightarrow>
   uint (word_of_int (dt_year t) :: u16) = dt_year t \<and> uint (word_of_int (dt_yday t) :: u16) = dt_yday t \<and>
   uint (word_of_int (dt_hour t) :: u8) = dt_hour t \<and> uint (word_of_int (dt_min t) :: u8) = dt_min t \<and>
   uint (word_of_int (dt_sec t) :: u8) = dt_sec t \<and> uint (word_of_int (dt_nsec t) :: u32) = dt_nsec t"
  unfolding ms_nstime2time_def Let_def
  by (auto split: prod.splits sum.splits option.splits if_splits simp: uint_word_of_int)

text \<open>A time that packs has valid fields, and they give it back.\<close>

lemma packable_time:
  assumes "packable m"
  shows "\<exists>t. ms_nstime2time (msr_starttime m) = Inr t \<and>
           ms_time2nstime (dt_year t) (dt_yday t) (dt_hour t) (dt_min t) (dt_sec t) (dt_nsec t) = Inr (msr_starttime m) \<and>
           0 \<le> dt_hour t \<and> dt_hour t \<le> 23 \<and> 0 \<le> dt_min t \<and> dt_min t \<le> 59 \<and> 0 \<le> dt_sec t \<and> dt_sec t \<le> 60"
proof -
  obtain t where t: "ms_nstime2time (msr_starttime m) = Inr t"
    "ms_time2nstime (dt_year t) (dt_yday t) (dt_hour t) (dt_min t) (dt_sec t) (dt_nsec t) = Inr (msr_starttime m)"
    using assms nstime2time_back [of "msr_starttime m"] by (auto simp: packable_def)
  moreover have "msr_starttime m \<noteq> NSTERROR" using assms by (simp add: packable_def)
  ultimately have "VALIDHOUR (dt_hour t)" "VALIDMIN (dt_min t)" "VALIDSEC (dt_sec t)"
    by (auto simp: ms_time2nstime_def split: if_splits)
  then show ?thesis using t by (auto simp: VALIDHOUR_def VALIDMIN_def VALIDSEC_def)
qed

subsection \<open>The checksum\<close>

lemma crc32c_spec_append: "crc32c_spec (crc32c_spec p xs) ys = crc32c_spec p (xs @ ys)"
  by (simp add: crc32c_spec_def crc_bytes_append)

lemma leading_le: "int (leading_bytes a) \<le> 3"
  using leading_bytes_le [of a] by simp

lemma record_crc_value:
  assumes "40 \<le> n" "int n < 2 ^ 31" "n \<le> length mem"
  shows "record_crc h addr mem (int n) = Inr (crc32c_spec 0 (take n (poke 28 (replicate 4 0) mem)))"
proof -
  have a: "ms_crc32c h (Some mem) (addr mod 4) 28 0 = Inr (crc32c_spec 0 (take 28 mem))"
    using assms leading_le [of "addr mod 4"] by (subst crc32c_value) auto
  have b: "ms_crc32c h (Some (replicate 4 0)) 0 4 c = Inr (crc32c_spec c (replicate 4 0))" for c
    using leading_le [of 0] by (subst crc32c_value) auto
  have c: "ms_crc32c h (Some (drop 32 mem)) ((addr + 32) mod 4) (int n - 32) c = Inr (crc32c_spec c (take (n - 32) (drop 32 mem)))" for c
    using assms leading_le [of "(addr + 32) mod 4"] by (subst crc32c_value) (auto simp: nat_diff_distrib)
  have "take n (poke 28 (replicate 4 0) mem) = take 28 mem @ replicate 4 0 @ take (n - 32) (drop 32 mem)"
    using assms by (simp add: poke_def min_def)
  then show ?thesis by (simp add: record_crc_def a b c crc32c_spec_append)
qed

lemma poke_poke: "off + length xs \<le> length mem \<Longrightarrow> length xs = length ys \<Longrightarrow> poke off xs (poke off ys mem) = poke off xs mem"
  by (simp add: poke_def)

lemma poke_peek: "off + n \<le> length mem \<Longrightarrow> poke off (peek off n mem) mem = mem"
  by (simp add: poke_def peek_def flip: take_add_drop) (metis add.commute append.assoc append_take_drop_id drop_drop)

subsection \<open>What repacking leaves\<close>

lemma repack_fields:
  assumes "packable m" "msr_record m = Some orig" "ms_nstime2time (msr_starttime m) = Inr t"
    and "msr3_data_bounds h (Some m) = Inr (off, size_data)" "off + size_data \<le> length orig"
    and "n = MS3FSDH_LENGTH + length (msr_sid m) + unat (msr_extralength m) + size_data"
    and "n \<le> recbuflen" "recbuflen \<le> length mem" "n \<le> MAXRECLEN"
  shows "\<exists>rec. msr3_repack_mseed3 h addr (Some m) (Some mem) recbuflen = Inr (int n, rec) \<and> length rec = length mem \<and>
           header_holds m t rec \<and>
           peek (MS3FSDH_LENGTH + length (msr_sid m) + unat (msr_extralength m)) size_data rec = peek off size_data orig \<and>
           le_u32 rec 24 = word_of_int (msr_samplecnt m) \<and> le_u32 rec 36 = of_nat size_data \<and>
           le_u32 rec 28 = crc32c_spec 0 (take n (poke 28 (replicate 4 0) rec))"
proof -
  define head where "head = MS3FSDH_LENGTH + length (msr_sid m) + unat (msr_extralength m)"
  have head: "n = head + size_data" "40 \<le> head" using assms(6) by (simp_all add: head_def)
  obtain mem1 where mem1: "msr3_pack_header3 h (Some m) (Some mem) recbuflen = Inr (int head, mem1)"
    "length mem1 = length mem" "header_holds m t mem1"
    using pack_header3_fields [OF assms(1,3), of recbuflen mem h] assms(6-8) unfolding head_def by auto
  define payload where "payload = peek off size_data orig"
  have payload: "length payload = size_data" using assms(5) by (simp add: payload_def)
  define cnt where "cnt = le_bytes 4 (word_of_int (msr_samplecnt m) :: u32)"
  define len where "len = le_bytes 4 (of_nat size_data :: u32)"
  define mem2 where "mem2 = poke 28 (replicate 4 0) (poke 36 len (poke 24 cnt (poke head payload mem1)))"
  have sizes: "head + size_data \<le> length mem" "length cnt = 4" "length len = 4" using head assms(7,8) by (simp_all add: cnt_def len_def)
  have st: "store_all [(head, payload), (24, cnt), (36, len), (28, replicate 4 0)] mem1 = Inr mem2"
    using sizes head payload mem1(2) by (simp add: mem2_def)
  have mem2: "length mem2 = length mem" "header_holds m t mem2" "peek head size_data mem2 = payload"
    "peek 24 4 mem2 = cnt" "peek 36 4 mem2 = len" "peek 28 4 mem2 = replicate 4 0"
    using sizes head payload mem1(2) by (simp_all add: mem2_def peek_poke_same peek_poke_other)
      (auto simp: head_def mem1(3) intro!: header_holds_poke)
  define crc where "crc = crc32c_spec 0 (take n mem2)"
  have crc: "ms_crc32c h (Some mem2) (addr mod 4) (int n) 0 = Inr crc"
    using leading_le [of "addr mod 4"] head assms(9) sizes mem2(1) by (subst crc32c_value) (auto simp: crc_def nat_int_add)
  define rec where "rec = poke 28 (le_bytes 4 crc) mem2"
  have rec: "length rec = length mem" "header_holds m t rec" "peek head size_data rec = payload"
    "peek 24 4 rec = cnt" "peek 36 4 rec = len" "peek 28 4 rec = le_bytes 4 crc"
    using sizes head mem2 by (simp_all add: rec_def peek_poke_same peek_poke_other header_holds_poke)
  have "poke 28 (replicate 4 0) rec = mem2"
    using poke_peek [of 28 4 mem2] sizes head mem2 by (simp add: rec_def poke_poke)
  moreover have "sint (word_of_nat n :: i32) = int n" using assms(9) by (simp add: signed_of_nat signed_take_bit_int_eq_self)
  moreover have "msr3_repack_mseed3 h addr (Some m) (Some mem) recbuflen = Inr (int n, rec)"
  proof -
    have reclen: "nat ((int head + int size_data) mod 2 ^ 32) = n" using head assms(9) by simp
    have small: "\<not> int recbuflen < int (MS3FSDH_LENGTH + unat (msr_extralength m) + size_data) mod 2 ^ 32"
    proof -
      define x where "x = MS3FSDH_LENGTH + unat (msr_extralength m) + size_data"
      have "x \<le> recbuflen" "x < 2 ^ 32" using assms(6,7,9) by (simp_all add: x_def)
      then show ?thesis unfolding x_def [symmetric] by simp
    qed
    have guards: "\<not> recbuflen < MS3FSDH_LENGTH + length (msr_sid m) + unat (msr_extralength m)"
      "\<not> msr_samplecnt m > 2 ^ 32 - 1" "\<not> length orig < off + size_data"
      using assms(1,5,6,7) by (auto simp: packable_def)
    have st2: "store_all [(28, le_bytes 4 crc)] mem2 = Inr rec" using sizes head mem2(1) by (simp add: rec_def)
    show ?thesis
      using assms(2,4) mem1(1) st crc small reclen \<open>sint (word_of_nat n :: i32) = int n\<close> guards st2
      by (simp add: msr3_repack_mseed3_def Let_def HO_swap host_bytes_little cnt_def len_def payload_def del: store_all.simps)
  qed
  ultimately show ?thesis
    using rec head sizes payload unfolding head_def [symmetric] payload_def [symmetric]
    by (intro exI [of _ rec]) (simp add: peek_le(2) cnt_def len_def crc_def)
qed


subsection \<open>Unpacking what was packed\<close>

lemma word_le_uint: "uint (w :: u8) \<le> 23 \<Longrightarrow> w \<le> 23" "uint w \<le> 59 \<Longrightarrow> w \<le> 59" "uint w \<le> 60 \<Longrightarrow> w \<le> 60"
  by (simp_all add: word_le_def)

lemma header_valid:
  assumes "header_holds m t rec" "ms_nstime2time s = Inr t" "dt_hour t \<le> 23" "dt_min t \<le> 59" "dt_sec t \<le> 60"
  shows "MS3_ISVALIDHEADER rec"
proof -
  have "uint (rec ! 12) = dt_hour t" "uint (rec ! 13) = dt_min t" "uint (rec ! 14) = dt_sec t"
    using assms(1) nstime2time_widths [OF assms(2)] by (simp_all add: header_holds_def)
  then have "rec ! 12 \<le> 23" "rec ! 13 \<le> 59" "rec ! 14 \<le> 60" using assms(3-5) by (simp_all add: word_le_uint)
  then show ?thesis using assms(1) by (simp add: MS3_ISVALIDHEADER_def header_holds_def)
qed

text \<open>The fields of a header in the form the readers take them.\<close>

lemma header_reads:
  assumes "header_holds m t rec" "length (msr_sid m) < 64" "40 + length (msr_sid m) \<le> length rec"
  shows "le_u32 rec 4 = word_of_int (dt_nsec t)" "le_u16 rec 8 = word_of_int (dt_year t)" "le_u16 rec 10 = word_of_int (dt_yday t)"
    and "le_u64 rec 16 = header_rate (msr_samprate m)" "le_u16 rec 34 = msr_extralength m"
    and "unat (rec ! 33) = length (msr_sid m)"
  using assms by (simp_all add: header_holds_def peek_le unat_of_nat)

lemma unpack_packed:
  assumes "packable m" "ms_nstime2time (msr_starttime m) = Inr t" "header_holds m t rec"
    and "n = MS3FSDH_LENGTH + length (msr_sid m) + unat (msr_extralength m) + size_data" "n \<le> MAXRECLEN" "n \<le> length rec"
    and "le_u32 rec 24 = word_of_int (msr_samplecnt m)" "le_u32 rec 36 = of_nat size_data"
    and "le_u32 rec 28 = crc32c_spec 0 (take n (poke 28 (replicate 4 0) rec))"
    and "record_ok al" "extra_ok al"
  shows "ms3_detect h (Some rec) = Inr (int n, Some 3)"
    and "msr3_unpack_mseed3 h addr al (Some rec) (int n) (Some None) MSF_VALIDATECRC =
           Inr ((unpack3_header h rec (int n) (msr_starttime m) MS3Record_INITIALIZER)
                  \<lparr>msr_datasamples := None, msr_datasize := 0, msr_numsamples := 0\<rparr>)"
proof -
  have sid: "length (msr_sid m) < 64" using assms(1) by (simp add: packable_def)
  have len: "40 + length (msr_sid m) \<le> length rec" using assms(4,6) by simp
  note reads = header_reads [OF assms(3) sid len]
  obtain t' where "ms_nstime2time (msr_starttime m) = Inr t'" "dt_hour t' \<le> 23" "dt_min t' \<le> 59" "dt_sec t' \<le> 60"
    and inv0: "ms_time2nstime (dt_year t') (dt_yday t') (dt_hour t') (dt_min t') (dt_sec t') (dt_nsec t') = Inr (msr_starttime m)"
    using packable_time [OF assms(1)] by blast
  then have inv: "ms_time2nstime (dt_year t) (dt_yday t) (dt_hour t) (dt_min t) (dt_sec t) (dt_nsec t) = Inr (msr_starttime m)"
    and valid: "MS3_ISVALIDHEADER rec"
    using assms(2) header_valid [OF assms(3,2)] by auto
  have bytes: "rec ! 12 = word_of_int (dt_hour t)" "rec ! 13 = word_of_int (dt_min t)" "rec ! 14 = word_of_int (dt_sec t)"
    using assms(3) by (simp_all add: header_holds_def)
  have data: "unat (of_nat size_data :: u32) = size_data" using assms(4,5) by (simp add: unat_of_nat)
  have v3: "v3_length rec = n" by (simp add: v3_length_def reads assms(4,8) data)
  show "ms3_detect h (Some rec) = Inr (int n, Some 3)"
    using detect_v3 [OF _ valid, of h] len assms(5) by (simp add: v3)
  have "40 \<le> n" using assms(4) by simp
  moreover have "int n < 2 ^ 31" using assms(5) by simp
  ultimately have n: "40 \<le> n" "int n < 2 ^ 31" by auto
  have fits: "\<not> int (MS3FSDH_LENGTH + length (msr_sid m) + unat (msr_extralength m)) > int n"
    "\<not> int (MS3FSDH_LENGTH + length (msr_sid m) + unat (msr_extralength m) + size_data) > int n"
    using assms(4) by linarith+
  have range: "\<not> (int n < int MINRECLEN \<or> int n > int MAXRECLEN)" "\<not> int (length rec) < int n"
    using n(1) assms(5,6) by simp_all
  have "MSF_VALIDATECRC AND MSF_VALIDATECRC \<noteq> 0" "MSF_VALIDATECRC AND MSF_UNPACKDATA = 0" by simp_all
  moreover have "record_crc h addr rec (int n) = Inr (le_u32 rec 28)"
    using record_crc_value [OF n assms(6), of h addr] assms(9) by simp
  moreover have "msr_starttime m \<noteq> NSTERROR" using assms(1) by (simp add: packable_def)
  ultimately show "msr3_unpack_mseed3 h addr al (Some rec) (int n) (Some None) MSF_VALIDATECRC =
           Inr ((unpack3_header h rec (int n) (msr_starttime m) MS3Record_INITIALIZER)
                  \<lparr>msr_datasamples := None, msr_datasize := 0, msr_numsamples := 0\<rparr>)"
    using inv valid bytes reads data sid len fits range assms(8,10,11) nstime2time_widths [OF assms(2)]
    by (simp add: msr3_unpack_mseed3_def Let_def fields_little msr3_init_def)
qed

lemma takeWhile_all: "0 \<notin> set xs \<Longrightarrow> takeWhile (\<lambda>b. b \<noteq> 0) xs = xs"
  by (induction xs) auto

lemma unpacked_fields:
  assumes "packable m" "header_holds m t rec" "40 + length (msr_sid m) \<le> length rec"
    and "le_u32 rec 24 = word_of_int (msr_samplecnt m)" "le_u32 rec 36 = of_nat size_data"
    and "m' = (unpack3_header h rec reclen starttime m0)\<lparr>msr_datasamples := None, msr_datasize := 0, msr_numsamples := 0\<rparr>"
  shows "msr_sid m' = msr_sid m" "msr_flags m' = msr_flags m" "msr_starttime m' = starttime" "msr_formatversion m' = 3"
    and "msr_samprate m' = header_rate (msr_samprate m)" "msr_encoding m' = (if msr_encoding m < 0 then 11 else msr_encoding m)"
    and "msr_pubversion m' = msr_pubversion m" "msr_samplecnt m' = msr_samplecnt m"
    and "msr_extralength m' = msr_extralength m" "msr_datalength m' = of_nat size_data"
    and "msr_extralength m \<noteq> 0 \<Longrightarrow> msr_extra m' = map_option (\<lambda>x. take (unat (msr_extralength m)) x @ [0]) (msr_extra m)"
proof -
  have p: "length (msr_sid m) < 64" "0 \<notin> set (msr_sid m)" "msr_encoding m < 256" "0 \<le> msr_samplecnt m" "msr_samplecnt m < 2 ^ 32"
    using assms(1) by (simp_all add: packable_def)
  note reads = header_reads [OF assms(2) p(1) assms(3)]
  show "msr_sid m' = msr_sid m" "msr_flags m' = msr_flags m" "msr_starttime m' = starttime" "msr_formatversion m' = 3"
    "msr_samprate m' = header_rate (msr_samprate m)" "msr_pubversion m' = msr_pubversion m"
    "msr_extralength m' = msr_extralength m" "msr_datalength m' = of_nat size_data"
    using assms(2-5) p reads by (simp_all add: assms(6) unpack3_header_def Let_def fields_little takeWhile_all header_holds_def)
  show "msr_samplecnt m' = msr_samplecnt m"
    using p assms(3,4) by (simp add: assms(6) unpack3_header_def Let_def fields_little uint_word_of_int)
  show "msr_encoding m' = (if msr_encoding m < 0 then 11 else msr_encoding m)"
    using p assms(2) by (simp add: assms(6) unpack3_header_def Let_def header_holds_def uint_word_of_int)
  show "msr_extra m' = map_option (\<lambda>x. take (unat (msr_extralength m)) x @ [0]) (msr_extra m)" if "msr_extralength m \<noteq> 0"
    using that assms(1,2,3) reads
    by (auto simp: assms(6) unpack3_header_def Let_def fields_little header_holds_def packable_def split: option.splits)
qed


subsection \<open>Properties\<close>

text \<open>
  C6. Repacking a parsed record on one host and unpacking the result on any other, with
  the checksum checked, succeeds: the record is detected with its length, and identifier,
  flags, start time, encoding, version, counts, extra headers and payload bytes are those
  of the original, the rate in the form the header keeps it.
\<close>

theorem record_roundtrip:
  assumes "packable m" "msr_record m = Some orig" "msr3_data_bounds h (Some m) = Inr (off, size_data)"
    and "off + size_data \<le> length orig"
    and "n = MS3FSDH_LENGTH + length (msr_sid m) + unat (msr_extralength m) + size_data"
    and "n \<le> recbuflen" "recbuflen \<le> length mem" "n \<le> MAXRECLEN" "record_ok al" "extra_ok al"
  shows "\<exists>rec m'. msr3_repack_mseed3 h addr (Some m) (Some mem) recbuflen = Inr (int n, rec) \<and>
           ms3_detect h' (Some rec) = Inr (int n, Some 3) \<and>
           msr3_unpack_mseed3 h' addr' al (Some rec) (int n) (Some None) MSF_VALIDATECRC = Inr m' \<and>
           msr_sid m' = msr_sid m \<and> msr_flags m' = msr_flags m \<and> msr_starttime m' = msr_starttime m \<and>
           msr_formatversion m' = 3 \<and> msr_samprate m' = header_rate (msr_samprate m) \<and>
           msr_encoding m' = (if msr_encoding m < 0 then 11 else msr_encoding m) \<and>
           msr_pubversion m' = msr_pubversion m \<and> msr_samplecnt m' = msr_samplecnt m \<and>
           msr_extralength m' = msr_extralength m \<and> msr_datalength m' = of_nat size_data \<and>
           (msr_extralength m \<noteq> 0 \<longrightarrow>
              msr_extra m' = map_option (\<lambda>x. take (unat (msr_extralength m)) x @ [0]) (msr_extra m)) \<and>
           peek (n - size_data) size_data rec = peek off size_data orig"
proof -
  obtain t where t: "ms_nstime2time (msr_starttime m) = Inr t" using packable_time [OF assms(1)] by blast
  obtain rec where rec: "msr3_repack_mseed3 h addr (Some m) (Some mem) recbuflen = Inr (int n, rec)" "length rec = length mem"
    "header_holds m t rec"
    "peek (MS3FSDH_LENGTH + length (msr_sid m) + unat (msr_extralength m)) size_data rec = peek off size_data orig"
    "le_u32 rec 24 = word_of_int (msr_samplecnt m)" "le_u32 rec 36 = of_nat size_data"
    "le_u32 rec 28 = crc32c_spec 0 (take n (poke 28 (replicate 4 0) rec))"
    using repack_fields [OF assms(1,2) t assms(3-8)] by blast
  have n: "n \<le> length rec" "40 + length (msr_sid m) \<le> length rec" using assms(5-7) rec(2) by simp_all
  note unpack = unpack_packed [OF assms(1) t rec(3) assms(5,8) n(1) rec(5-7) assms(9,10)]
  note fields = unpacked_fields [OF assms(1) rec(3) n(2) rec(5,6) refl, of h' "int n" "msr_starttime m" MS3Record_INITIALIZER]
  show ?thesis
    using rec(1,4) unpack [of h'] fields assms(5)
    by (intro exI [of _ rec]) auto
qed

text \<open>A record of two 32-bit integers, with an extra header of two bytes.\<close>

definition sample_record :: MS3Record where
  "sample_record = MS3Record_INITIALIZER
     \<lparr>msr_record := Some (replicate 60 0 @ [1, 0, 0, 0, 2, 0, 0, 0]), msr_sid := replicate 18 0x41, msr_formatversion := 3,
      msr_flags := 4, msr_starttime := 1500000000000000001, msr_samprate := f_half, msr_encoding := 3, msr_pubversion := 2,
      msr_samplecnt := 2, msr_extralength := 2, msr_extra := Some [0x7B, 0x7D, 0], msr_datalength := 8\<rparr>"

theorem record_roundtrip_witness:
  "\<exists>rec m'. msr3_repack_mseed3 BigEndian 2 (Some sample_record) (Some (replicate 100 0)) 100 = Inr (int 68, rec) \<and>
     ms3_detect LittleEndian (Some rec) = Inr (int 68, Some 3) \<and>
     msr3_unpack_mseed3 LittleEndian 1 all_ok (Some rec) (int 68) (Some None) MSF_VALIDATECRC = Inr m' \<and>
     msr_sid m' = msr_sid sample_record \<and> msr_flags m' = msr_flags sample_record \<and>
     msr_starttime m' = msr_starttime sample_record \<and> msr_formatversion m' = 3 \<and>
     msr_samprate m' = header_rate (msr_samprate sample_record) \<and>
     msr_encoding m' = (if msr_encoding sample_record < 0 then 11 else msr_encoding sample_record) \<and>
     msr_pubversion m' = msr_pubversion sample_record \<and> msr_samplecnt m' = msr_samplecnt sample_record \<and>
     msr_extralength m' = msr_extralength sample_record \<and> msr_datalength m' = of_nat 8 \<and>
     msr_extra m' = Some ([0x7B, 0x7D] @ [0]) \<and>
     peek (68 - 8) 8 rec = [1, 0, 0, 0, 2, 0, 0, 0]"
proof -
  have p: "packable sample_record"
    by (simp add: packable_def sample_record_def MS3Record_INITIALIZER_def NSTERROR_def year_start_def NSTMODULUS_def)
  have b: "msr3_data_bounds BigEndian (Some sample_record) = Inr (60, 8)"
    by (simp add: msr3_data_bounds_def sample_record_def MS3Record_INITIALIZER_def fixed_sample_bytes_def)
  have r: "msr_record sample_record = Some (replicate 60 0 @ [1, 0, 0, 0, 2, 0, 0, 0])"
    by (simp add: sample_record_def)
  have x: "msr_extralength sample_record \<noteq> 0"
    "map_option (\<lambda>x. take (unat (msr_extralength sample_record)) x @ [0]) (msr_extra sample_record) = Some ([0x7B, 0x7D] @ [0])"
    "peek 60 8 (replicate 60 0 @ [1, 0, 0, 0, 2, 0, 0, 0]) = [1, 0, 0, 0, 2, 0, 0, 0 :: u8]"
    by (simp_all add: sample_record_def peek_def)
  have l: "60 + 8 \<le> length (replicate 60 0 @ [1, 0, 0, 0, 2, 0, 0, 0 :: u8])"
    "68 = MS3FSDH_LENGTH + length (msr_sid sample_record) + unat (msr_extralength sample_record) + 8"
    "68 \<le> (100 :: nat)" "100 \<le> length (replicate 100 (0 :: u8))" "68 \<le> MAXRECLEN" "record_ok all_ok" "extra_ok all_ok"
    by (simp_all add: sample_record_def all_ok_def)
  have "peek (68 - 8) 8 rec = peek 60 8 rec" for rec by simp
  with record_roundtrip [OF p r b l, of 2 LittleEndian 1] x(1) show ?thesis unfolding x(2,3) by blast
qed

text \<open>
  C40. What repacking does with a destination too small for the record, header with
  identifier and extra headers, and payload. If the header fits, and the header without the
  identifier and the payload together fit, the payload is copied past the end of the
  destination, as the second check leaves the source identifier out. In all other cases
  the call fails with -1. The destination and the payload are no longer than the longest
  record, and the record has the payload its header promises.
\<close>

theorem repack_overrun:
  assumes "packable m" "msr_record m = Some orig" "msr3_data_bounds h (Some m) = Inr (off, size_data)"
    and "off + size_data \<le> length orig" "recbuflen = length mem" "recbuflen \<le> MAXRECLEN" "size_data \<le> MAXRECLEN"
    and "head = MS3FSDH_LENGTH + length (msr_sid m) + unat (msr_extralength m)" "recbuflen < head + size_data"
  shows "msr3_repack_mseed3 h addr (Some m) (Some mem) recbuflen =
    Inl (if head \<le> recbuflen \<and> MS3FSDH_LENGTH + unat (msr_extralength m) + size_data \<le> recbuflen
         then OutOfBounds else ReturnError (-1))"
proof (cases "head \<le> recbuflen")
  case False
  then show ?thesis using assms(2,8) by (simp add: msr3_repack_mseed3_def)
next
  case True
  define x where "x = MS3FSDH_LENGTH + unat (msr_extralength m) + size_data"
  obtain t where t: "ms_nstime2time (msr_starttime m) = Inr t" using packable_time [OF assms(1)] by blast
  obtain mem1 where mem1: "msr3_pack_header3 h (Some m) (Some mem) recbuflen = Inr (int head, mem1)" "length mem1 = length mem"
    using pack_header3_fields [OF assms(1) t, of recbuflen mem h] assms(5,8) True by auto
  have guards: "\<not> recbuflen < MS3FSDH_LENGTH + length (msr_sid m) + unat (msr_extralength m)"
    "\<not> msr_samplecnt m > 2 ^ 32 - 1" "\<not> length orig < off + size_data"
    using assms(1,4,8) True by (auto simp: packable_def)
  have "unat (msr_extralength m) < 65536" using unsigned_less [of "msr_extralength m"] by simp
  then have "x < 2 ^ 32" using assms(7) by (simp add: x_def)
  then have "int recbuflen < int x mod 2 ^ 32 \<longleftrightarrow> recbuflen < x" by simp
  note check = this [unfolded x_def]
  have "\<not> head + length (peek off size_data orig) \<le> length mem1"
    using assms(4,5,9) mem1(2) by simp
  then have "store_all ((nat (int head), peek off size_data orig) # fields) mem1 = Inl OutOfBounds" for fields
    by (simp only: store_all.simps nat_int if_False)
  then show ?thesis
    using assms(2,3) mem1(1) guards True check
    by (simp add: msr3_repack_mseed3_def Let_def not_le del: store_all.simps length_peek)
qed

theorem repack_overrun_witness:
  "msr3_repack_mseed3 LittleEndian 0 (Some sample_record) (Some (replicate 60 0)) 60 = Inl OutOfBounds \<and>
   msr3_repack_mseed3 LittleEndian 0 (Some sample_record) (Some (replicate 50 0)) 50 = Inl (ReturnError (-1))"
proof -
  have m: "packable sample_record"
    by (simp add: packable_def sample_record_def MS3Record_INITIALIZER_def NSTERROR_def year_start_def NSTMODULUS_def)
  have b: "msr3_data_bounds LittleEndian (Some sample_record) = Inr (60, 8)"
    by (simp add: msr3_data_bounds_def sample_record_def MS3Record_INITIALIZER_def fixed_sample_bytes_def)
  have r: "msr_record sample_record = Some (replicate 60 0 @ [1, 0, 0, 0, 2, 0, 0, 0])" by (simp add: sample_record_def)
  have head: "60 = MS3FSDH_LENGTH + length (msr_sid sample_record) + unat (msr_extralength sample_record)"
    "unat (msr_extralength sample_record) = 2" by (simp_all add: sample_record_def)
  show ?thesis
    using repack_overrun [OF m r b _ _ _ _ head(1), of 60 "replicate 60 0" 0] repack_overrun [OF m r b _ _ _ _ head(1), of 50 "replicate 50 0" 0]
      head(2) by simp
qed

end
