(* ===== verification/Packer.thy ===== *)
theory Packer
  imports SteimPayload Unpack3 SampleTime
begin

text \<open>
  The generator of records in pack.c: \<open>msr3_pack_init\<close>, \<open>msr3_pack_next\<close>, \<open>msr3_pack_free\<close>
  and the loop of \<open>msr3_pack\<close> over them, with the packing context of internalstate.h. The
  writer of version 2 headers, which rests on the JSON library, is a parameter; everything
  the generator itself does for version 2 is modelled. After an error the buffers of the
  context are not followed: its other members are as before the call.
\<close>

abbreviation (input) "MSF_FLUSHDATA \<equiv> 0x0040 :: u32"
abbreviation (input) "MSF_PACKVER2 \<equiv> 0x0080 :: u32"

subsection \<open>Times of version 2 headers\<close>

text \<open>The second-resolution time, the tenths of milliseconds and the offset in microseconds.\<close>

definition nstime2fsec_usec_offset :: "int \<Rightarrow> (int \<times> u16 \<times> int) result" where
  "nstime2fsec_usec_offset nstime =
     (case in_int64 (nstime + (if nstime \<ge> 0 then 500 else - 500)) of
        Inl e \<Rightarrow> Inl e
      | Inr rounded \<Rightarrow>
          let usec_time = rounded sdiv 1000 * 1000;
              total_usec = usec_time sdiv 1000;
              total_fsec = usec_time sdiv 100000;
              usec_offset = total_usec - total_fsec * 100;
              (total_fsec, usec_offset) =
                (if usec_offset > 49 then (total_fsec + 1, usec_offset - 100)
                 else if usec_offset < - 50 then (total_fsec - 1, usec_offset + 100)
                 else (total_fsec, usec_offset));
              fsec_remainder = total_fsec smod 10000;
              seconds = total_fsec sdiv 10000;
              (fsec_remainder, seconds) =
                (if fsec_remainder < 0 then (fsec_remainder + 10000, seconds - 1) else (fsec_remainder, seconds))
          in (case in_int64 (seconds * NSTMODULUS) of
                Inl e \<Rightarrow> Inl e
              | Inr time \<Rightarrow> Inr (time, word_of_int fsec_remainder, usec_offset)))"

subsection \<open>The packing context\<close>

record MS3RecordPacker =
  pk_msr :: MS3Record
  pk_flags :: u32
  pk_rawrec :: "u8 list"
  pk_encoded :: "u8 list option"
  pk_maxreclen :: nat
  pk_packed_samples :: int
  pk_recordcount :: u32
  pk_encoding :: u8
  pk_dataoffset :: nat
  pk_maxsamples :: nat
  pk_maxdatabytes :: nat
  pk_samplesize :: nat
  pk_swapflag :: bool
  pk_formatversion :: nat
  pk_nextstarttime :: int
  pk_blockette_1000_offset :: u16
  pk_blockette_1001_offset :: u16
  pk_finished :: bool

text \<open>
  The allocations of the generator, what the buffer for encoded data holds when it is
  fresh, and the address of the record buffer.
\<close>

record pack_memory =
  packer_ok :: bool
  rawrec_ok :: bool
  encoded_ok :: bool
  fresh :: "nat \<Rightarrow> u8"
  rawrec_address :: nat

text \<open>The header size, the offsets of blockettes 1000 and 1001, and the buffer.\<close>

type_synonym header2_writer = "byteorder \<Rightarrow> MS3Record \<Rightarrow> u8 list \<Rightarrow> nat \<Rightarrow> (nat \<times> u16 \<times> u16 \<times> u8 list) result"

definition pack_headers ::
  "byteorder \<Rightarrow> header2_writer \<Rightarrow> MS3Record \<Rightarrow> nat \<Rightarrow> u8 \<Rightarrow> nat \<Rightarrow> u8 list \<Rightarrow> (nat \<times> u16 \<times> u16 \<times> u8 list) result" where
  "pack_headers h header2 m formatversion encoding maxreclen rawrec =
     (if formatversion = 3 then
        (case msr3_pack_header3 h (Some m) (Some rawrec) maxreclen of
           Inl e \<Rightarrow> Inl e
         | Inr (dataoffset, rawrec) \<Rightarrow> Inr (nat dataoffset, 0, 0, rawrec))
      else
        (case header2 h m rawrec maxreclen of
           Inl e \<Rightarrow> Inl e
         | Inr (dataoffset, b1000, b1001, rawrec) \<Rightarrow>
             if dataoffset > 0 \<and> msr_numsamples m > 0 then
               let dataoffset = (if encoding = DE_STEIM1 \<or> encoding = DE_STEIM2 then (dataoffset + 63) div 64 * 64 else dataoffset)
               in (case store_all [(44, host_bytes h 2 (HO2u (of_nat dataoffset) (\<not> ms_bigendianhost h)))] rawrec of
                     Inl e \<Rightarrow> Inl e
                   | Inr rawrec \<Rightarrow> Inr (dataoffset, b1000, b1001, rawrec))
             else Inr (dataoffset, b1000, b1001, rawrec)))"

definition max_samples :: "u8 \<Rightarrow> nat \<Rightarrow> nat \<Rightarrow> nat" where
  "max_samples encoding maxdatabytes samplesize =
     (if encoding = DE_STEIM1 then maxdatabytes div 64 * 60 mod 2 ^ 32
      else if encoding = DE_STEIM2 then maxdatabytes div 64 * 105 mod 2 ^ 32
      else maxdatabytes div samplesize)"

definition msr3_pack_init ::
  "byteorder \<Rightarrow> header2_writer \<Rightarrow> pack_memory \<Rightarrow> MS3Record option \<Rightarrow> u32 \<Rightarrow> MS3RecordPacker option result" where
  "msr3_pack_init h header2 pm msr flags =
     (case msr of
        None \<Rightarrow> Inr None
      | Some m \<Rightarrow>
          if msr_reclen m \<noteq> -1 \<and> (msr_reclen m < int MINRECLEN \<or> msr_reclen m > int MAXRECLEN) then Inr None
          else if \<not> packer_ok pm then Inr None
          else
            let formatversion = (if msr_formatversion m = 2 \<or> flags AND MSF_PACKVER2 \<noteq> 0 then 2 else 3);
                maxreclen = (if msr_reclen m < 0 then 4096 else nat (msr_reclen m));
                encoding = (if msr_encoding m < 0 then DE_STEIM2 else word_of_int (msr_encoding m));
                swapflag = (if formatversion = 3 then ms_bigendianhost h else \<not> ms_bigendianhost h);
                samplesize = ms_samplesize (msr_sampletype m)
            in if formatversion = 3 \<and> maxreclen < MS3FSDH_LENGTH + length (msr_sid m) + unat (msr_extralength m) then Inr None
               else if \<not> rawrec_ok pm then Inr None
               else if msr_numsamples m > 0 \<and> samplesize = 0 then Inr None
               else (case pack_headers h header2 m formatversion encoding maxreclen (replicate maxreclen 0) of
                 Inl (ReturnError e) \<Rightarrow> Inr None
               | Inl e \<Rightarrow> Inl e
               | Inr (dataoffset, b1000, b1001, rawrec) \<Rightarrow>
                   let maxdatabytes = nat ((int maxreclen - int dataoffset) mod 2 ^ 32);
                       packer = \<lparr>pk_msr = m, pk_flags = flags, pk_rawrec = rawrec, pk_encoded = None, pk_maxreclen = maxreclen,
                         pk_packed_samples = 0, pk_recordcount = 0, pk_encoding = encoding, pk_dataoffset = dataoffset,
                         pk_maxsamples = 0, pk_maxdatabytes = 0, pk_samplesize = 0, pk_swapflag = swapflag,
                         pk_formatversion = formatversion, pk_nextstarttime = msr_starttime m,
                         pk_blockette_1000_offset = b1000, pk_blockette_1001_offset = b1001, pk_finished = False\<rparr>
                   in if msr_numsamples m > 0 then
                        if \<not> encoded_ok pm then Inr None
                        else Inr (Some (packer\<lparr>pk_encoded := Some (map (fresh pm) [0..<maxdatabytes]),
                               pk_maxdatabytes := maxdatabytes, pk_samplesize := samplesize,
                               pk_maxsamples := max_samples encoding maxdatabytes samplesize\<rparr>))
                      else Inr (Some packer)))"

subsection \<open>The next record\<close>

text \<open>A record without samples, which is the only one.\<close>

definition header_only :: "byteorder \<Rightarrow> nat \<Rightarrow> MS3RecordPacker \<Rightarrow> (u8 list \<times> nat) result" where
  "header_only h addr pk =
     (if pk_formatversion pk = 3 then
        (case store_all [(15, [DE_TEXT]), (24, host_bytes h 4 (HO4u 0 (pk_swapflag pk))),
                         (36, host_bytes h 4 (HO4u 0 (pk_swapflag pk))), (28, replicate 4 0)] (pk_rawrec pk) of
           Inl e \<Rightarrow> Inl e
         | Inr mem \<Rightarrow>
             (case ms_crc32c h (Some mem) (addr mod 4) (int (pk_dataoffset pk)) 0 of
                Inl e \<Rightarrow> Inl e
              | Inr crc \<Rightarrow>
                  (case store_all [(28, host_bytes h 4 (HO4u crc (pk_swapflag pk)))] mem of
                     Inl e \<Rightarrow> Inl e
                   | Inr mem \<Rightarrow> Inr (mem, pk_dataoffset pk))))
      else
        (case store_all ((if pk_blockette_1000_offset pk \<noteq> 0 then [(unat (pk_blockette_1000_offset pk) + 4, [DE_TEXT])] else []) @
                (if 0 < pk_dataoffset pk \<and> pk_dataoffset pk < pk_maxreclen pk
                 then [(pk_dataoffset pk, replicate (pk_maxreclen pk - pk_dataoffset pk) 0)] else [])) (pk_rawrec pk) of
           Inl e \<Rightarrow> Inl e
         | Inr mem \<Rightarrow> Inr (mem, pk_maxreclen pk)))"

text \<open>The fields of a version 3 record around its payload, which is already in place.\<close>

definition finish_record3 :: "byteorder \<Rightarrow> nat \<Rightarrow> MS3RecordPacker \<Rightarrow> nat \<Rightarrow> nat \<Rightarrow> u8 list \<Rightarrow> (u8 list \<times> nat) result" where
  "finish_record3 h addr pk nsamples datalength mem =
     (let swapflag = pk_swapflag pk;
          reclen = pk_dataoffset pk + datalength;
          times =
            (if pk_recordcount pk = 0 then Inr []
             else (case ms_nstime2time (pk_nextstarttime pk) of
               Inl (ReturnError e) \<Rightarrow> Inl (ReturnError (-1))
             | Inl e \<Rightarrow> Inl e
             | Inr t \<Rightarrow>
                 Inr [(4, host_bytes h 4 (HO4u (word_of_int (dt_nsec t)) swapflag)),
                      (8, host_bytes h 2 (HO2u (word_of_int (dt_year t)) swapflag)),
                      (10, host_bytes h 2 (HO2u (word_of_int (dt_yday t)) swapflag)),
                      (12, [word_of_int (dt_hour t)]), (13, [word_of_int (dt_min t)]), (14, [word_of_int (dt_sec t)])]))
      in case times of
           Inl e \<Rightarrow> Inl e
         | Inr stamps \<Rightarrow>
             (case store_all ([(24, host_bytes h 4 (HO4u (of_nat nsamples) swapflag)),
                               (36, host_bytes h 4 (HO4u (of_nat datalength) swapflag))] @ stamps @ [(28, replicate 4 0)]) mem of
                Inl e \<Rightarrow> Inl e
              | Inr mem \<Rightarrow>
                  (case ms_crc32c h (Some mem) (addr mod 4) (int reclen) 0 of
                     Inl e \<Rightarrow> Inl e
                   | Inr crc \<Rightarrow>
                       (case store_all [(28, host_bytes h 4 (HO4u crc swapflag))] mem of
                          Inl e \<Rightarrow> Inl e
                        | Inr mem \<Rightarrow> Inr (mem, reclen)))))"

text \<open>
  Those of a version 2 record. The start time is broken down from the time itself, and
  the second-resolution time that goes with the fraction is not used.
\<close>

definition finish_record2 :: "byteorder \<Rightarrow> MS3RecordPacker \<Rightarrow> nat \<Rightarrow> nat \<Rightarrow> u8 list \<Rightarrow> (u8 list \<times> nat) result" where
  "finish_record2 h pk nsamples datalength mem =
     (let swapflag = pk_swapflag pk;
          content = pk_dataoffset pk + datalength;
          times =
            (if pk_recordcount pk = 0 then Inr []
             else (case nstime2fsec_usec_offset (pk_nextstarttime pk) of
               Inl e \<Rightarrow> Inl e
             | Inr (_, fsec, usec_offset) \<Rightarrow>
                 (case ms_nstime2time (pk_nextstarttime pk) of
                    Inl (ReturnError e) \<Rightarrow> Inl (ReturnError (-1))
                  | Inl e \<Rightarrow> Inl e
                  | Inr t \<Rightarrow>
                      Inr ([(20, host_bytes h 2 (HO2u (word_of_int (dt_year t)) swapflag)),
                            (22, host_bytes h 2 (HO2u (word_of_int (dt_yday t)) swapflag)),
                            (24, [word_of_int (dt_hour t)]), (25, [word_of_int (dt_min t)]), (26, [word_of_int (dt_sec t)]),
                            (28, host_bytes h 2 (HO2u fsec swapflag))] @
                           (if pk_blockette_1001_offset pk \<noteq> 0
                            then [(unat (pk_blockette_1001_offset pk) + 5, [word_of_int usec_offset])] else [])))))
      in case times of
           Inl e \<Rightarrow> Inl e
         | Inr stamps \<Rightarrow>
             (case store_all ([(30, host_bytes h 2 (HO2u (of_nat nsamples) swapflag))] @
                      (if content < pk_maxreclen pk then [(content, replicate (pk_maxreclen pk - content) 0)] else []) @ stamps) mem of
                Inl e \<Rightarrow> Inl e
              | Inr mem \<Rightarrow> Inr (mem, pk_maxreclen pk)))"

definition remaining_samples :: "MS3RecordPacker \<Rightarrow> nat" where
  "remaining_samples pk = nat (msr_numsamples (pk_msr pk) - pk_packed_samples pk)"

text \<open>The source pointer stepped over what is packed.\<close>

definition packing_source :: "byteorder \<Rightarrow> MS3RecordPacker \<Rightarrow> u8 list option result" where
  "packing_source h pk =
     (case msr_datasamples (pk_msr pk) of
        None \<Rightarrow> Inr None
      | Some samples \<Rightarrow>
          (case sample_memory h samples of
             None \<Rightarrow> Inl OutOfBounds
           | Some mem \<Rightarrow> Inr (Some (drop (nat (pk_packed_samples pk) * pk_samplesize pk) mem))))"

definition advance_packer :: "leapseconds \<Rightarrow> MS3RecordPacker \<Rightarrow> nat \<Rightarrow> MS3RecordPacker result" where
  "advance_packer lslist pk nsamples =
     (let pk = pk\<lparr>pk_packed_samples := pk_packed_samples pk + int nsamples, pk_recordcount := pk_recordcount pk + 1\<rparr>
      in if pk_packed_samples pk < msr_numsamples (pk_msr pk) then
           (case ms_sampletime lslist (msr_starttime (pk_msr pk)) (pk_packed_samples pk) (msr_samprate (pk_msr pk)) of
              Inl e \<Rightarrow> Inl e
            | Inr time \<Rightarrow> Inr (pk\<lparr>pk_nextstarttime := time\<rparr>))
         else Inr (pk\<lparr>pk_finished := True\<rparr>))"

text \<open>
  What is returned, the record and its length when that is 1, and the context. An error
  return is \<open>ReturnError\<close>.
\<close>

definition msr3_pack_next ::
  "byteorder \<Rightarrow> leapseconds \<Rightarrow> nat \<Rightarrow> MS3RecordPacker option \<Rightarrow> (int \<times> (u8 list \<times> nat) option \<times> MS3RecordPacker) result" where
  "msr3_pack_next h lslist addr packer =
     (case packer of
        None \<Rightarrow> Inl (ReturnError (-1))
      | Some pk \<Rightarrow>
          if pk_finished pk then Inr (0, None, pk)
          else if msr_numsamples (pk_msr pk) \<le> 0 then
            (case header_only h addr pk of
               Inl e \<Rightarrow> Inl e
             | Inr (mem, reclen) \<Rightarrow>
                 Inr (1, Some (mem, reclen),
                   pk\<lparr>pk_rawrec := mem, pk_recordcount := pk_recordcount pk + 1, pk_finished := True\<rparr>))
          else if remaining_samples pk = 0 \<or> (remaining_samples pk < pk_maxsamples pk \<and> pk_flags pk AND MSF_FLUSHDATA = 0) then
            Inr (0, None, pk\<lparr>pk_finished := True\<rparr>)
          else
            (case packing_source h pk of
               Inl e \<Rightarrow> Inl e
             | Inr src \<Rightarrow>
             (case msr_pack_data h (pk_encoded pk) src (remaining_samples pk) (pk_maxdatabytes pk) (msr_sampletype (pk_msr pk))
                     (pk_encoding pk) (pk_swapflag pk) of
               Inl (ReturnError e) \<Rightarrow> Inl (ReturnError (-1))
             | Inl e \<Rightarrow> Inl e
             | Inr (nsamples, datalength, encoded) \<Rightarrow>
                 let datalength = unat datalength; pk = pk\<lparr>pk_encoded := encoded\<rparr>
                 in if nsamples = 0 then Inr (0, None, pk\<lparr>pk_finished := True\<rparr>)
                    else (case encoded of
                      None \<Rightarrow> Inl NullDeref
                    | Some buf \<Rightarrow>
                        if length buf < datalength then Inl OutOfBounds
                        else (case store_all [(pk_dataoffset pk, take datalength buf)] (pk_rawrec pk) of
                          Inl e \<Rightarrow> Inl e
                        | Inr mem \<Rightarrow>
                        (case (if pk_formatversion pk = 3 then finish_record3 h addr pk nsamples datalength mem
                               else finish_record2 h pk nsamples datalength mem) of
                          Inl e \<Rightarrow> Inl e
                        | Inr (mem, reclen) \<Rightarrow>
                            (case advance_packer lslist (pk\<lparr>pk_rawrec := mem\<rparr>) nsamples of
                               Inl e \<Rightarrow> Inl e
                             | Inr pk \<Rightarrow> Inr (1, Some (mem, reclen), pk))))))))"

subsection \<open>All records\<close>

text \<open>A call either gives a record and comes nearer to the end, or ends the loop.\<close>

definition packing_left :: "MS3RecordPacker \<Rightarrow> nat" where
  "packing_left pk = (if pk_finished pk then 0 else Suc (remaining_samples pk))"

lemma next_nearer:
  "msr3_pack_next h lslist addr (Some pk) = Inr (1, out, pk') \<Longrightarrow> packing_left pk' < packing_left pk"
  unfolding msr3_pack_next_def
  by (auto simp: packing_left_def remaining_samples_def advance_packer_def Let_def split: if_splits sum.splits prod.splits
      option.splits fault.splits)

text \<open>The handler sees the bytes of each record; the value of the last call, the context and the records.\<close>

function pack_loop ::
  "byteorder \<Rightarrow> leapseconds \<Rightarrow> nat \<Rightarrow> MS3RecordPacker \<Rightarrow> u8 list list \<Rightarrow> (int \<times> MS3RecordPacker \<times> u8 list list) result" where
  "pack_loop h lslist addr pk handled =
     (case msr3_pack_next h lslist addr (Some pk) of
        Inl (ReturnError e) \<Rightarrow> Inr (e, pk, handled)
      | Inl e \<Rightarrow> Inl e
      | Inr (result, out, pk') \<Rightarrow>
          if result = 1 then
            pack_loop h lslist addr pk' (handled @ (case out of None \<Rightarrow> [] | Some (rawrec, reclen) \<Rightarrow> [take reclen rawrec]))
          else Inr (result, pk', handled))"
  by pat_completeness auto
termination
  by (relation "measure (\<lambda>(h, ls, a, pk, hs). packing_left pk)") (auto dest: next_nearer)

declare pack_loop.simps [simp del]

text \<open>What \<open>msr3_pack_free\<close> stores through \<open>packedsamples\<close>.\<close>

definition msr3_pack_free :: "MS3RecordPacker option \<Rightarrow> int option" where
  "msr3_pack_free packer = map_option pk_packed_samples packer"

text \<open>The value returned, the number of samples stored through \<open>packedsamples\<close>, and the records handled.\<close>

definition msr3_pack ::
  "byteorder \<Rightarrow> leapseconds \<Rightarrow> header2_writer \<Rightarrow> pack_memory \<Rightarrow> MS3Record option \<Rightarrow> bool \<Rightarrow> u32 \<Rightarrow>
   (int \<times> int option \<times> u8 list list) result" where
  "msr3_pack h lslist header2 pm msr handler_given flags =
     (if msr = None \<or> \<not> handler_given then Inr (-1, None, [])
      else (case msr3_pack_init h header2 pm msr flags of
        Inl e \<Rightarrow> Inl e
      | Inr None \<Rightarrow> Inr (-1, None, [])
      | Inr (Some pk) \<Rightarrow>
          (case pack_loop h lslist (rawrec_address pm) pk [] of
             Inl e \<Rightarrow> Inl e
           | Inr (result, pk, handled) \<Rightarrow>
               Inr (if result = 0 then int (length handled) else -1, msr3_pack_free (Some pk), handled))))"

end
