(* ===== verification/PackRoundtrip.thy ===== *)
theory PackRoundtrip
  imports Packer
begin

text \<open>
  What the generator of version 3 records gives: all samples are packed, every record is
  detected and unpacked on a host of either byte order with its checksum, and the payloads
  decode to the samples in their order.
\<close>

subsection \<open>The header of one record after another\<close>

text \<open>What the header needs of a record to be packed; its sample count is not looked at.\<close>

definition writable :: "MS3Record \<Rightarrow> bool" where
  "writable m \<longleftrightarrow> packable (m\<lparr>msr_samplecnt := 0\<rparr>)"

lemma writable_packable: "writable m \<Longrightarrow> 0 \<le> c \<Longrightarrow> c < 2 ^ 32 \<Longrightarrow> packable (m\<lparr>msr_samplecnt := c\<rparr>)"
  by (simp add: writable_def packable_def cong: option.case_cong)

lemma writable_range: "writable m \<Longrightarrow> msr_reclen m < 0 \<or> int MINRECLEN \<le> msr_reclen m \<and> msr_reclen m \<le> int MAXRECLEN"
  by (auto simp: writable_def packable_def)

lemma writable_time: "writable m \<Longrightarrow> \<exists>t. ms_nstime2time (msr_starttime m) = Inr t"
  using packable_time [of "m\<lparr>msr_samplecnt := 0\<rparr>"] by (auto simp: writable_def)

lemma pack_header3_writable:
  assumes "writable m" "ms_nstime2time (msr_starttime m) = Inr t"
    and "MS3FSDH_LENGTH + length (msr_sid m) + unat (msr_extralength m) \<le> recbuflen" "recbuflen \<le> length mem"
  shows "\<exists>mem'. msr3_pack_header3 h (Some m) (Some mem) recbuflen =
            Inr (int (MS3FSDH_LENGTH + length (msr_sid m) + unat (msr_extralength m)), mem') \<and>
          length mem' = length mem \<and> header_holds m t mem'"
proof -
  have members: "msr_reclen (m\<lparr>msr_samplecnt := 0\<rparr>) = msr_reclen m" "msr_encoding (m\<lparr>msr_samplecnt := 0\<rparr>) = msr_encoding m"
    "msr_sid (m\<lparr>msr_samplecnt := 0\<rparr>) = msr_sid m" "msr_extralength (m\<lparr>msr_samplecnt := 0\<rparr>) = msr_extralength m"
    "msr_starttime (m\<lparr>msr_samplecnt := 0\<rparr>) = msr_starttime m" "msr_flags (m\<lparr>msr_samplecnt := 0\<rparr>) = msr_flags m"
    "msr_samprate (m\<lparr>msr_samplecnt := 0\<rparr>) = msr_samprate m" "msr_pubversion (m\<lparr>msr_samplecnt := 0\<rparr>) = msr_pubversion m"
    "msr_extra (m\<lparr>msr_samplecnt := 0\<rparr>) = msr_extra m" by simp_all
  have "msr3_pack_header3 h (Some (m\<lparr>msr_samplecnt := 0\<rparr>)) (Some mem) recbuflen = msr3_pack_header3 h (Some m) (Some mem) recbuflen"
    unfolding msr3_pack_header3_def option.case prod.case members by (rule refl)
  moreover have "header_holds (m\<lparr>msr_samplecnt := 0\<rparr>) t mem' = header_holds m t mem'" for mem'
    by (simp add: header_holds_def cong: option.case_cong split: option.split)
  ultimately show ?thesis
    using pack_header3_fields [of "m\<lparr>msr_samplecnt := 0\<rparr>" t recbuflen mem h] assms by (simp add: writable_def)
qed

definition time_stores :: "date_time \<Rightarrow> (nat \<times> u8 list) list" where
  "time_stores t =
     [(4, le_bytes 4 (word_of_int (dt_nsec t) :: u32)), (8, le_bytes 2 (word_of_int (dt_year t) :: u16)),
      (10, le_bytes 2 (word_of_int (dt_yday t) :: u16)), (12, [word_of_int (dt_hour t)]), (13, [word_of_int (dt_min t)]),
      (14, [word_of_int (dt_sec t)])]"

lemma header_holds_times:
  assumes "header_holds m t mem" "40 \<le> length mem"
  shows "header_holds m t' (poke_all (time_stores t') mem)"
  using assms unfolding header_holds_def
  by (auto simp: time_stores_def poke_simps split: option.splits)

lemma header_holds_take:
  assumes "header_holds m t mem" "40 + length (msr_sid m) + unat (msr_extralength m) \<le> n" "n \<le> length mem"
  shows "header_holds m t (take n mem)"
proof -
  have "peek i k (take n mem) = peek i k mem" if "i + k \<le> n" for i k
    using that by (simp add: peek_def drop_take min_def)
  then show ?thesis using assms unfolding header_holds_def by (auto split: option.splits)
qed

lemma header_holds_update:
  "header_holds (m\<lparr>msr_starttime := s, msr_samplecnt := c\<rparr>) t mem = header_holds m t mem"
  by (simp add: header_holds_def cong: option.case_cong split: option.split)

lemma in_bounds_times: "40 \<le> length mem \<Longrightarrow> list_all (in_bounds mem) (time_stores t)"
  by (simp add: time_stores_def in_bounds_def)

lemma peek_times_other: "40 \<le> length mem \<Longrightarrow> 15 \<le> i \<Longrightarrow> peek i k (poke_all (time_stores t) mem) = peek i k mem"
  by (simp add: time_stores_def peek_poke_other)

lemma store_all_append:
  "store_all (xs @ ys) mem = (case store_all xs mem of Inl e \<Rightarrow> Inl e | Inr mem \<Rightarrow> store_all ys mem)"
  by (induction xs mem rule: store_all.induct) simp_all

text \<open>The fields around a payload that is in place, as \<open>unpack_packed\<close> wants them.\<close>

lemma finish_record3_fields:
  assumes "header_holds m t mem" "pk_swapflag pk = ms_bigendianhost h"
    and "pk_dataoffset pk = MS3FSDH_LENGTH + length (msr_sid m) + unat (msr_extralength m)"
    and "n = pk_dataoffset pk + size_data" "n \<le> length mem" "n \<le> MAXRECLEN"
    and "if pk_recordcount pk = 0 then t' = t else ms_nstime2time (pk_nextstarttime pk) = Inr t'"
  shows "\<exists>rec. finish_record3 h addr pk nsamples size_data mem = Inr (rec, n) \<and> length rec = length mem \<and>
           header_holds m t' rec \<and> peek (pk_dataoffset pk) size_data rec = peek (pk_dataoffset pk) size_data mem \<and>
           le_u32 rec 24 = of_nat nsamples \<and> le_u32 rec 36 = of_nat size_data \<and>
           le_u32 rec 28 = crc32c_spec 0 (take n (poke 28 (replicate 4 0) rec))"
proof -
  define off where "off = pk_dataoffset pk"
  have off: "40 \<le> off" "n = off + size_data" "40 \<le> length mem" "off + size_data \<le> length mem" using assms(3-5) by (simp_all add: off_def)
  define stores where "stores = (if pk_recordcount pk = 0 then [] else time_stores t')"
  have stores: "(if pk_recordcount pk = 0 then Inr []
             else (case ms_nstime2time (pk_nextstarttime pk) of
               Inl (ReturnError e) \<Rightarrow> Inl (ReturnError (-1))
             | Inl e \<Rightarrow> Inl e
             | Inr t \<Rightarrow>
                 Inr [(4, host_bytes h 4 (HO4u (word_of_int (dt_nsec t)) (pk_swapflag pk))),
                      (8, host_bytes h 2 (HO2u (word_of_int (dt_year t)) (pk_swapflag pk))),
                      (10, host_bytes h 2 (HO2u (word_of_int (dt_yday t)) (pk_swapflag pk))),
                      (12, [word_of_int (dt_hour t)]), (13, [word_of_int (dt_min t)]), (14, [word_of_int (dt_sec t)])])) = (Inr stores :: _ result)"
    using assms(2,7) by (simp add: stores_def time_stores_def HO_swap host_bytes_little)
  define cnt where "cnt = le_bytes 4 (of_nat nsamples :: u32)"
  define len where "len = le_bytes 4 (of_nat size_data :: u32)"
  have sizes: "length cnt = 4" "length len = 4" by (simp_all add: cnt_def len_def)
  define mem1 where "mem1 = poke 36 len (poke 24 cnt mem)"
  define mem2 where "mem2 = poke_all stores mem1"
  define mem3 where "mem3 = poke 28 (replicate 4 0) mem2"
  have mem1: "length mem1 = length mem" "header_holds m t mem1" "peek 24 4 mem1 = cnt" "peek 36 4 mem1 = len"
    "peek off size_data mem1 = peek off size_data mem"
    using off sizes assms(1) by (simp_all add: mem1_def peek_poke_same peek_poke_other header_holds_poke)
  have mem2: "store_all stores mem1 = Inr mem2" "length mem2 = length mem" "header_holds m t' mem2"
    "15 \<le> i \<Longrightarrow> peek i k mem2 = peek i k mem1" for i k
  proof -
    have "list_all (in_bounds mem1) stores" using in_bounds_times [of mem1 t'] off(3) mem1(1) by (simp add: stores_def)
    from store_all_ok [OF this] show "store_all stores mem1 = Inr mem2" "length mem2 = length mem" using mem1(1) by (simp_all add: mem2_def)
    show "header_holds m t' mem2"
      using mem1 off(3) assms(7) header_holds_times [of m t mem1 t'] by (auto simp: mem2_def stores_def)
    show "15 \<le> i \<Longrightarrow> peek i k mem2 = peek i k mem1" using peek_times_other [of mem1 i k t'] off(3) mem1(1) by (simp add: mem2_def stores_def)
  qed
  have mem3: "length mem3 = length mem" "header_holds m t' mem3" "peek 24 4 mem3 = cnt" "peek 36 4 mem3 = len"
    "peek off size_data mem3 = peek off size_data mem"
    using off sizes mem1 mem2 by (simp_all add: mem3_def peek_poke_same peek_poke_other header_holds_poke)
  have st: "store_all ([(24, cnt), (36, len)] @ stores @ [(28, replicate 4 0)]) mem = Inr mem3"
    using off sizes mem1(1) mem2(1,2) by (simp add: store_all_append mem1_def [symmetric] mem3_def)
  define crc where "crc = crc32c_spec 0 (take n mem3)"
  have crc: "ms_crc32c h (Some mem3) (addr mod 4) (int n) 0 = Inr crc"
    using leading_le [of "addr mod 4"] off assms(5,6) mem3(1) by (subst crc32c_value) (auto simp: crc_def nat_int_add)
  define rec where "rec = poke 28 (le_bytes 4 crc) mem3"
  have rec: "length rec = length mem" "header_holds m t' rec" "peek 24 4 rec = cnt" "peek 36 4 rec = len"
    "peek off size_data rec = peek off size_data mem" "peek 28 4 rec = le_bytes 4 crc"
    using off mem3 by (simp_all add: rec_def peek_poke_same peek_poke_other header_holds_poke)
  have "peek 28 4 mem3 = replicate 4 0" using off mem2(2) by (simp add: mem3_def peek_poke_same)
  then have "poke 28 (replicate 4 0) rec = mem3"
    using poke_peek [of 28 4 mem3] off mem3(1) by (simp add: rec_def poke_poke)
  moreover have "finish_record3 h addr pk nsamples size_data mem = Inr (rec, n)"
    unfolding finish_record3_def Let_def stores
    using st crc off mem3(1) assms(2,4) by (simp add: HO_swap host_bytes_little cnt_def len_def rec_def del: store_all.simps(2))
      (simp add: rec_def)
  ultimately show ?thesis
    using rec off unfolding off_def [symmetric]
    by (intro exI [of _ rec]) (simp add: peek_le(2) cnt_def len_def crc_def)
qed

subsection \<open>What a record gives back\<close>

text \<open>The header of a record, as it is unpacked, apart from its start time and sample count.\<close>

definition same_header :: "MS3Record \<Rightarrow> MS3Record \<Rightarrow> bool" where
  "same_header m m' \<longleftrightarrow>
     msr_sid m' = msr_sid m \<and> msr_flags m' = msr_flags m \<and> msr_formatversion m' = 3 \<and>
     msr_samprate m' = header_rate (msr_samprate m) \<and>
     msr_encoding m' = (if msr_encoding m < 0 then 11 else msr_encoding m) \<and> msr_pubversion m' = msr_pubversion m \<and>
     msr_extralength m' = msr_extralength m \<and>
     (msr_extralength m \<noteq> 0 \<longrightarrow> msr_extra m' = map_option (\<lambda>x. take (unat (msr_extralength m)) x @ [0]) (msr_extra m))"

text \<open>
  A record that is detected with its length, unpacks with its checksum to the header, the
  start time and the sample count, and whose payload decodes to the samples.
\<close>

definition record_gives :: "byteorder \<Rightarrow> nat \<Rightarrow> allocations \<Rightarrow> MS3Record \<Rightarrow> int \<Rightarrow> u8 list \<Rightarrow> i32 list \<Rightarrow> bool" where
  "record_gives h addr al m time rec ys \<longleftrightarrow>
     ms3_detect h (Some rec) = Inr (int (length rec), Some 3) \<and>
     (\<exists>m'. msr3_unpack_mseed3 h addr al (Some rec) (int (length rec)) (Some None) MSF_VALIDATECRC = Inr m' \<and>
        same_header m m' \<and> msr_starttime m' = time \<and> msr_samplecnt m' = int (length ys) \<and>
        ms_decode_data h (Some (drop (MS3FSDH_LENGTH + length (msr_sid m') + unat (msr_extralength m')) rec))
          (unat (msr_datalength m')) (word_of_int (msr_encoding m')) (length ys) True (4 * length ys) True
          (msr_swapflag m' AND MSSWAP_PAYLOAD \<noteq> 0) = Inr (length ys, Some (IntSamples ys), Some CHR ''i''))"

text \<open>Records that give all samples from sample \<open>k\<close> on, each with the time of its first sample.\<close>

primrec records_give ::
  "byteorder \<Rightarrow> nat \<Rightarrow> allocations \<Rightarrow> leapseconds \<Rightarrow> MS3Record \<Rightarrow> nat \<Rightarrow> u8 list list \<Rightarrow> i32 list \<Rightarrow> bool" where
  "records_give h addr al lslist m k [] xs \<longleftrightarrow> xs = []"
| "records_give h addr al lslist m k (rec # recs) xs \<longleftrightarrow>
     (\<exists>n time. 0 < n \<and> n \<le> length xs \<and>
        (if k = 0 then time = msr_starttime m else ms_sampletime lslist (msr_starttime m) (int k) (msr_samprate m) = Inr time) \<and>
        record_gives h addr al m time rec (take n xs) \<and> records_give h addr al lslist m (k + n) recs (drop n xs))"

lemma unpacked_swap:
  "msr_swapflag (unpack3_header h mem reclen s m0) AND MSSWAP_PAYLOAD \<noteq> 0 \<longleftrightarrow> payload_swapped h (mem ! 15)"
proof -
  have "uint (mem ! 15) = 10 \<longleftrightarrow> mem ! 15 = 10" "uint (mem ! 15) = 11 \<longleftrightarrow> mem ! 15 = 11"
    by (simp_all add: word_uint_eq_iff)
  then show ?thesis by (auto simp: unpack3_header_def Let_def payload_swapped_def)
qed

lemma record_gives_intro:
  assumes "writable m" "writable (m\<lparr>msr_starttime := time\<rparr>)" "ms_nstime2time time = Inr t" "header_holds m t rec"
    and "off = MS3FSDH_LENGTH + length (msr_sid m) + unat (msr_extralength m)" "n = off + size_data" "n \<le> MAXRECLEN" "n \<le> length rec"
    and "le_u32 rec 24 = of_nat (length ys)" "le_u32 rec 36 = of_nat size_data" "length ys < 2 ^ 31"
    and "le_u32 rec 28 = crc32c_spec 0 (take n (poke 28 (replicate 4 0) rec))"
    and "record_ok al" "extra_ok al"
    and "encoding = (if msr_encoding m < 0 then 11 else word_of_int (msr_encoding m))"
    and "ms_decode_data h (Some (peek off size_data rec)) size_data encoding (length ys) True (4 * length ys) True
           (payload_swapped h encoding) = Inr (length ys, Some (IntSamples ys), Some CHR ''i'')"
  shows "record_gives h addr al m time (take n rec) ys"
proof -
  define rec' where "rec' = take n rec"
  define m0 where "m0 = m\<lparr>msr_starttime := time, msr_samplecnt := int (length ys)\<rparr>"
  have off: "40 \<le> off" "40 + length (msr_sid m) + unat (msr_extralength m) = off" using assms(5) by simp_all
  have len: "length rec' = n" using assms(8) by (simp add: rec'_def)
  have peek': "peek i k rec' = peek i k rec" if "i + k \<le> n" for i k using that by (simp add: rec'_def peek_def drop_take min_def)
  have p: "packable m0" using writable_packable [OF assms(2), of "int (length ys)"] assms(11) by (simp add: m0_def)
  have hold: "header_holds m0 t rec'"
    using header_holds_take [OF assms(4), of n] assms(5,6,8) by (simp add: m0_def rec'_def header_holds_update)
  have cnt: "le_u32 rec' 24 = word_of_int (msr_samplecnt m0)" and dl: "le_u32 rec' 36 = of_nat size_data"
    using assms(6,9,10) off(1) by (simp_all add: le_u32_def peek' m0_def)
  have "poke 28 (replicate 4 0) rec' = take n (poke 28 (replicate 4 0) rec)"
    using off assms(6,8) by (simp add: rec'_def poke_def take_drop min_def)
  then have crc: "le_u32 rec' 28 = crc32c_spec 0 (take n (poke 28 (replicate 4 0) rec'))"
    using assms(6,12) off(1) by (simp add: le_u32_def peek')
  have n: "n = MS3FSDH_LENGTH + length (msr_sid m0) + unat (msr_extralength m0) + size_data" using assms(5,6) by (simp add: m0_def)
  have t0: "ms_nstime2time (msr_starttime m0) = Inr t" using assms(3) by (simp add: m0_def)
  note unpack = unpack_packed [OF p t0 hold n assms(7) _ cnt dl crc assms(13,14), unfolded len, OF order_refl, of h]
  define m' where "m' = (unpack3_header h rec' (int n) (msr_starttime m0) MS3Record_INITIALIZER)
     \<lparr>msr_datasamples := None, msr_datasize := 0, msr_numsamples := 0\<rparr>"
  have run: "msr3_unpack_mseed3 h addr al (Some rec') (int n) (Some None) MSF_VALIDATECRC = Inr m'"
    using unpack(2) [of addr] by (simp only: m'_def)
  have len40: "40 + length (msr_sid m0) \<le> length rec'" using n len by simp
  note fields = unpacked_fields [OF p hold len40 cnt dl m'_def]
  have enc: "rec' ! 15 = encoding" "word_of_int (msr_encoding m') = encoding"
    using hold fields(6) assms(15) by (auto simp: header_holds_def m0_def)
  have size: "unat (msr_datalength m') = size_data" using fields(10) assms(6,7) by (simp add: unat_of_nat)
  have "drop off rec' = peek off size_data rec" using assms(6) by (simp add: rec'_def peek_def drop_take)
  moreover have "msr_swapflag m' AND MSSWAP_PAYLOAD \<noteq> 0 \<longleftrightarrow> payload_swapped h encoding"
    using unpacked_swap [of h rec'] enc(1) by (simp add: m'_def)
  moreover have "same_header m m'" "msr_starttime m' = time" "msr_samplecnt m' = int (length ys)"
    using fields by (simp_all add: same_header_def m0_def cong: option.case_cong)
  ultimately show ?thesis
    using unpack(1) run assms(5,16) enc(2) size fields(1,9)
    unfolding record_gives_def rec'_def [symmetric] len
    by (intro conjI exI [of _ m']) (simp_all add: m0_def)
qed

subsection \<open>The packing context between records\<close>

text \<open>The time of the record that starts with sample \<open>k\<close>, and that all of them can be written.\<close>

definition record_start :: "leapseconds \<Rightarrow> MS3Record \<Rightarrow> nat \<Rightarrow> int result" where
  "record_start lslist m k =
     (if k = 0 then Inr (msr_starttime m) else ms_sampletime lslist (msr_starttime m) (int k) (msr_samprate m))"

definition record_times :: "leapseconds \<Rightarrow> MS3Record \<Rightarrow> nat \<Rightarrow> bool" where
  "record_times lslist m n \<longleftrightarrow>
     (\<forall>k<n. case record_start lslist m k of Inl _ \<Rightarrow> False
        | Inr time \<Rightarrow> year_start 1678 * 86400 * NSTMODULUS \<le> time \<and> time < 2 ^ 63 \<and> time \<noteq> NSTERROR)"

lemma record_timesE:
  assumes "record_times lslist m n" "k < n" "writable m"
  obtains time t where "record_start lslist m k = Inr time" "writable (m\<lparr>msr_starttime := time\<rparr>)" "ms_nstime2time time = Inr t"
proof -
  obtain time where time: "record_start lslist m k = Inr time" "year_start 1678 * 86400 * NSTMODULUS \<le> time" "time < 2 ^ 63"
    "time \<noteq> NSTERROR"
    using assms(1,2) unfolding record_times_def by (cases "record_start lslist m k") fastforce+
  then have p: "writable (m\<lparr>msr_starttime := time\<rparr>)" using assms(3) by (simp add: writable_def packable_def cong: option.case_cong)
  then obtain t where "ms_nstime2time time = Inr t" using writable_time [OF p] by auto
  then show ?thesis using time(1) p that by blast
qed

text \<open>After \<open>k\<close> of the samples \<open>xs\<close>.\<close>

definition packing :: "byteorder \<Rightarrow> leapseconds \<Rightarrow> MS3Record \<Rightarrow> i32 list \<Rightarrow> nat \<Rightarrow> MS3RecordPacker \<Rightarrow> bool" where
  "packing h lslist m xs k pk \<longleftrightarrow>
     pk_msr pk = m \<and> pk_flags pk AND MSF_FLUSHDATA \<noteq> 0 \<and> pk_formatversion pk = 3 \<and> pk_swapflag pk = ms_bigendianhost h \<and>
     pk_encoding pk = (if msr_encoding m < 0 then 11 else word_of_int (msr_encoding m)) \<and>
     pk_dataoffset pk = MS3FSDH_LENGTH + length (msr_sid m) + unat (msr_extralength m) \<and> pk_samplesize pk = 4 \<and>
     length (pk_rawrec pk) = pk_maxreclen pk \<and> pk_maxreclen pk \<le> MAXRECLEN \<and> pk_dataoffset pk \<le> pk_maxreclen pk \<and>
     pk_maxdatabytes pk = pk_maxreclen pk - pk_dataoffset pk \<and>
     (\<exists>buf. pk_encoded pk = Some buf \<and> length buf = pk_maxdatabytes pk) \<and>
     pk_packed_samples pk = int k \<and> unat (pk_recordcount pk) \<le> k \<and> (pk_recordcount pk = 0 \<longrightarrow> k = 0) \<and>
     (\<exists>t. header_holds m t (pk_rawrec pk) \<and> (k = 0 \<longrightarrow> ms_nstime2time (msr_starttime m) = Inr t)) \<and>
     (k < length xs \<longrightarrow> record_start lslist m k = Inr (pk_nextstarttime pk)) \<and> pk_finished pk = (k = length xs)"

text \<open>The context after a record of \<open>n\<close> samples.\<close>

lemma packing_advance:
  assumes inv: "packing h lslist m xs k pk" and k: "k < length xs"
    and m: "writable m" "msr_numsamples m = int (length xs)"
    and xs: "length xs < 2 ^ 31" "record_times lslist m (length xs)"
    and n: "0 < n" "k + n \<le> length xs"
    and buf: "length buf = pk_maxdatabytes pk" "length rec = pk_maxreclen pk" "header_holds m t rec"
  shows "\<exists>pk'. advance_packer lslist (pk\<lparr>pk_encoded := Some buf, pk_rawrec := rec\<rparr>) n = Inr pk' \<and>
     packing h lslist m xs (k + n) pk' \<and> pk_maxdatabytes pk' = pk_maxdatabytes pk"
proof -
  have pk: "pk_msr pk = m" "pk_packed_samples pk = int k" "unat (pk_recordcount pk) \<le> k" "\<not> pk_finished pk"
    using inv k by (auto simp: packing_def)
  have "unat (pk_recordcount pk) + 1 < 2 ^ LENGTH(32)" using pk(3) k xs(1) by simp
  then have "unat (pk_recordcount pk + 1) = unat (pk_recordcount pk) + 1" by (simp add: unat_word_ariths)
  then have count: "pk_recordcount pk + 1 \<noteq> 0" "unat (pk_recordcount pk + 1) \<le> k + n"
    using pk(3) n(1) by (metis add_is_0 one_neq_zero unat_0, linarith)
  define pk1 where "pk1 = pk\<lparr>pk_encoded := Some buf, pk_rawrec := rec, pk_packed_samples := int k + int n,
    pk_recordcount := pk_recordcount pk + 1\<rparr>"
  have inv1: "packing h lslist m xs (k + n) (pk1\<lparr>pk_nextstarttime := time, pk_finished := (k + n = length xs)\<rparr>)"
    if "k + n < length xs \<Longrightarrow> record_start lslist m (k + n) = Inr time" for time
    using that inv buf n count unfolding packing_def pk1_def by (auto intro!: exI [of _ t])
  show ?thesis
  proof (cases "k + n = length xs")
    case True
    have "pk1\<lparr>pk_finished := True\<rparr> = pk1\<lparr>pk_nextstarttime := pk_nextstarttime pk, pk_finished := (k + n = length xs)\<rparr>"
      using True by (simp add: pk1_def)
    with inv1 [of "pk_nextstarttime pk"] True have "packing h lslist m xs (k + n) (pk1\<lparr>pk_finished := True\<rparr>)" by simp
    moreover have "advance_packer lslist (pk\<lparr>pk_encoded := Some buf, pk_rawrec := rec\<rparr>) n = Inr (pk1\<lparr>pk_finished := True\<rparr>)"
      using True m(2) pk(1,2) by (simp add: advance_packer_def Let_def pk1_def flip: of_nat_add)
    ultimately show ?thesis by (auto simp: pk1_def)
  next
    case False
    then have lt: "k + n < length xs" using n(2) by simp
    obtain time where time: "record_start lslist m (k + n) = Inr time" using record_timesE [OF xs(2) lt m(1)] by blast
    then have "ms_sampletime lslist (msr_starttime m) (int k + int n) (msr_samprate m) = Inr time"
      using n(1) by (simp add: record_start_def)
    then have "advance_packer lslist (pk\<lparr>pk_encoded := Some buf, pk_rawrec := rec\<rparr>) n = Inr (pk1\<lparr>pk_nextstarttime := time\<rparr>)"
      using lt m(2) pk(1,2) by (simp add: advance_packer_def Let_def pk1_def)
    moreover have "pk1\<lparr>pk_nextstarttime := time\<rparr> = pk1\<lparr>pk_nextstarttime := time, pk_finished := (k + n = length xs)\<rparr>"
      using False pk(4) by (simp add: pk1_def)
    ultimately show ?thesis using inv1 [OF time] by (auto simp: pk1_def)
  qed
qed

context payload_codec
begin

lemma next_record:
  assumes inv: "packing h lslist m xs k pk" and k: "k < length xs"
    and m: "writable m" "msr_datasamples m = Some (IntSamples xs)" "msr_numsamples m = int (length xs)" "msr_sampletype m = CHR ''i''"
    and enc: "encoding = (if msr_encoding m < 0 then 11 else word_of_int (msr_encoding m))"
    and xs: "representable xs" "length xs < 2 ^ 31" "record_times lslist m (length xs)" "room \<le> pk_maxdatabytes pk"
    and al: "record_ok al" "extra_ok al"
  shows "\<exists>n time rawrec reclen pk'. msr3_pack_next h lslist addr (Some pk) = Inr (1, Some (rawrec, reclen), pk') \<and>
     0 < n \<and> n \<le> length (drop k xs) \<and> record_start lslist m k = Inr time \<and>
     (\<forall>h' addr'. record_gives h' addr' al m time (take reclen rawrec) (take n (drop k xs))) \<and>
     packing h lslist m xs (k + n) pk' \<and> pk_maxdatabytes pk' = pk_maxdatabytes pk"
proof -
  define ys where "ys = drop k xs"
  define off where "off = MS3FSDH_LENGTH + length (msr_sid m) + unat (msr_extralength m)"
  obtain buf t where buf: "pk_encoded pk = Some buf" "length buf = pk_maxdatabytes pk"
    and t: "header_holds m t (pk_rawrec pk)" "k = 0 \<Longrightarrow> ms_nstime2time (msr_starttime m) = Inr t"
    using inv unfolding packing_def by blast
  have pk: "pk_msr pk = m" "pk_flags pk AND MSF_FLUSHDATA \<noteq> 0" "pk_formatversion pk = 3" "pk_swapflag pk = ms_bigendianhost h"
    "pk_encoding pk = encoding" "pk_dataoffset pk = off" "pk_samplesize pk = 4" "length (pk_rawrec pk) = pk_maxreclen pk"
    "pk_maxreclen pk \<le> MAXRECLEN" "off \<le> pk_maxreclen pk" "pk_maxdatabytes pk = pk_maxreclen pk - off" "pk_packed_samples pk = int k"
    "unat (pk_recordcount pk) \<le> k" "pk_recordcount pk = 0 \<Longrightarrow> k = 0" "record_start lslist m k = Inr (pk_nextstarttime pk)" "\<not> pk_finished pk"
    using inv k enc unfolding packing_def off_def [symmetric] by auto
  obtain t' where t': "writable (m\<lparr>msr_starttime := pk_nextstarttime pk\<rparr>)" "ms_nstime2time (pk_nextstarttime pk) = Inr t'"
    using record_timesE [OF xs(3) k m(1)] pk(15) by auto
  have ys: "representable ys" "ys \<noteq> []" "length ys < 2 ^ 31" using representable_drop [OF xs(1), of k] k xs(2) by (simp_all add: ys_def)
  have maxb: "pk_maxdatabytes pk < 2 ^ 30" using pk(9,11) by simp
  obtain n size_data buf' where pack: "msr_pack_data h (Some buf) (Some (concat (map (host_bytes h 4) ys))) (length ys) (pk_maxdatabytes pk)
      CHR ''i'' encoding (ms_bigendianhost h) = Inr (n, of_nat size_data, Some buf')"
    "0 < n" "n \<le> length ys" "size_data \<le> pk_maxdatabytes pk" "length buf' = pk_maxdatabytes pk"
    and decode: "\<And>h'. ms_decode_data h' (Some (peek 0 size_data buf')) size_data encoding n True (4 * n) True (payload_swapped h' encoding) =
      Inr (n, Some (IntSamples (take n ys)), Some CHR ''i'')"
    using packs [OF ys xs(4) maxb buf(2), of h] by blast
  have size: "unat (of_nat size_data :: u32) = size_data" using pack(4) maxb by (simp add: unat_of_nat)
  have src: "packing_source h pk = Inr (Some (concat (map (host_bytes h 4) ys)))"
    using m(2) pk(1,7,12) drop_concat_host_bytes [of 4 k h xs]
    by (simp add: packing_source_def sample_memory_def ys_def mult.commute)
  have remaining: "remaining_samples pk = length ys" using m(3) pk(1,12) k by (simp add: remaining_samples_def ys_def nat_diff_distrib)
  define mem where "mem = poke off (take size_data buf') (pk_rawrec pk)"
  have fits: "off + size_data \<le> length (pk_rawrec pk)" using pack(4) pk(8,10,11) by simp
  have mem: "store_all [(off, take size_data buf')] (pk_rawrec pk) = Inr mem" "length mem = pk_maxreclen pk" "header_holds m t mem"
    "peek off size_data mem = peek 0 size_data buf'"
    using fits pack(4,5) pk(8) t(1)
    by (simp_all add: mem_def min_def peek_poke_same off_def header_holds_poke) (simp add: peek_def)
  define pk0 where "pk0 = pk\<lparr>pk_encoded := Some buf'\<rparr>"
  define t1 where "t1 = (if pk_recordcount pk = 0 then t else t')"
  have t1: "ms_nstime2time (pk_nextstarttime pk) = Inr t1"
    using t(2) t'(2) pk(14,15) by (auto simp: t1_def record_start_def)
  obtain rec where rec: "finish_record3 h addr pk0 n size_data mem = Inr (rec, off + size_data)" "length rec = length mem"
    "header_holds m t1 rec" "peek off size_data rec = peek off size_data mem" "le_u32 rec 24 = of_nat n" "le_u32 rec 36 = of_nat size_data"
    "le_u32 rec 28 = crc32c_spec 0 (take (off + size_data) (poke 28 (replicate 4 0) rec))"
  proof -
    have "pk_swapflag pk0 = ms_bigendianhost h" "pk_dataoffset pk0 = off" "off + size_data \<le> MAXRECLEN"
      "if pk_recordcount pk0 = 0 then t1 = t else ms_nstime2time (pk_nextstarttime pk0) = Inr t1"
      using pk(4,6,8,9) t1 fits by (simp_all add: pk0_def t1_def)
    with finish_record3_fields [OF mem(3), of pk0 h "off + size_data" size_data t1 addr n] fits mem(2) pk(8)
    show ?thesis using that by (auto simp: off_def)
  qed
  have gives: "record_gives h' addr' al m (pk_nextstarttime pk) (take (off + size_data) rec) (take n ys)" for h' addr'
    using rec fits mem(2,4) pk(8,9) pack(2,3) ys(3) decode enc al t1
    by (intro record_gives_intro [OF m(1) t'(1), where t = t1 and encoding = encoding and size_data = size_data and off = off]) (simp_all add: off_def min_def)
  have "\<exists>pk'. advance_packer lslist (pk0\<lparr>pk_rawrec := rec\<rparr>) n = Inr pk' \<and> packing h lslist m xs (k + n) pk' \<and>
          pk_maxdatabytes pk' = pk_maxdatabytes pk"
    using packing_advance [OF inv k m(1,3) xs(2,3) pack(2) _ pack(5) _ rec(3)] pack(3) rec(2) mem(2) k by (simp add: pk0_def ys_def)
  then obtain pk' where pk': "advance_packer lslist (pk0\<lparr>pk_rawrec := rec\<rparr>) n = Inr pk'" "packing h lslist m xs (k + n) pk'"
    "pk_maxdatabytes pk' = pk_maxdatabytes pk" by blast
  have more: "\<not> msr_numsamples (pk_msr pk) \<le> 0"
    "\<not> (remaining_samples pk = 0 \<or> remaining_samples pk < pk_maxsamples pk \<and> pk_flags pk AND MSF_FLUSHDATA = 0)"
    using pk(1,2) m(3) remaining ys(2) k by auto
  have "msr3_pack_next h lslist addr (Some pk) = Inr (1, Some (rec, off + size_data), pk')"
    using pk(3,4,5,6,16) pk(1) m(4) more src remaining pack buf size mem(1) rec(1) pk'(1)
    by (simp add: msr3_pack_next_def Let_def pk0_def)
  then show ?thesis using pk' gives pack(2,3) pk(15) unfolding ys_def by blast
qed

text \<open>The loop packs everything from sample \<open>k\<close> on.\<close>

lemma pack_loop_all:
  assumes inv: "packing h lslist m xs k pk" and k: "k \<le> length xs"
    and m: "writable m" "msr_datasamples m = Some (IntSamples xs)" "msr_numsamples m = int (length xs)" "msr_sampletype m = CHR ''i''"
    and enc: "encoding = (if msr_encoding m < 0 then 11 else word_of_int (msr_encoding m))"
    and xs: "representable xs" "length xs < 2 ^ 31" "record_times lslist m (length xs)" "room \<le> pk_maxdatabytes pk"
    and al: "record_ok al" "extra_ok al"
  shows "\<exists>recs pk'. pack_loop h lslist addr pk handled = Inr (0, pk', handled @ recs) \<and> pk_packed_samples pk' = int (length xs) \<and>
     (\<forall>h' addr'. records_give h' addr' al lslist m k recs (drop k xs))"
  using inv k xs(4)
proof (induction "length xs - k" arbitrary: k pk handled rule: less_induct)
  case less
  show ?case
  proof (cases "k = length xs")
    case True
    then have "pk_finished pk" "pk_packed_samples pk = int (length xs)" using less.prems(1) by (auto simp: packing_def)
    moreover from this have "pack_loop h lslist addr pk handled = Inr (0, pk, handled @ [])"
      by (subst pack_loop.simps) (simp add: msr3_pack_next_def)
    ultimately show ?thesis using True by (intro exI [of _ "[]"] exI [of _ pk]) simp
  next
    case False
    then have lt: "k < length xs" using less.prems(2) by simp
    obtain n time rawrec reclen pk1 where step: "msr3_pack_next h lslist addr (Some pk) = Inr (1, Some (rawrec, reclen), pk1)"
      "0 < n" "n \<le> length (drop k xs)" "record_start lslist m k = Inr time"
      "\<forall>h' addr'. record_gives h' addr' al m time (take reclen rawrec) (take n (drop k xs))"
      "packing h lslist m xs (k + n) pk1" "pk_maxdatabytes pk1 = pk_maxdatabytes pk"
      using next_record [OF less.prems(1) lt m enc xs(1-3) less.prems(3) al, of addr] by blast
    have "length xs - (k + n) < length xs - k" "k + n \<le> length xs" "room \<le> pk_maxdatabytes pk1"
      using step(2,3,7) lt less.prems(3) by simp_all
    from less.hyps [OF this(1) step(6) this(2,3)]
    obtain recs pk' where rest: "pack_loop h lslist addr pk1 (handled @ [take reclen rawrec]) = Inr (0, pk', (handled @ [take reclen rawrec]) @ recs)"
      "pk_packed_samples pk' = int (length xs)" "\<forall>h' addr'. records_give h' addr' al lslist m (k + n) recs (drop (k + n) xs)"
      by blast
    have "pack_loop h lslist addr pk handled = Inr (0, pk', handled @ (take reclen rawrec # recs))"
      using step(1) rest(1) by (subst pack_loop.simps) simp
    moreover have "records_give h' addr' al lslist m k (take reclen rawrec # recs) (drop k xs)" for h' addr'
      using step(2-5) rest(3) by (auto simp: record_start_def add.commute [of n] split: if_splits)
    ultimately show ?thesis using rest(2) by blast
  qed
qed

lemma pack_all:
  assumes m: "writable m" "msr_datasamples m = Some (IntSamples xs)" "msr_numsamples m = int (length xs)" "msr_sampletype m = CHR ''i''"
    and v3: "msr_formatversion m \<noteq> 2" "flags AND MSF_PACKVER2 = 0" "flags AND MSF_FLUSHDATA \<noteq> 0"
    and enc: "encoding = (if msr_encoding m < 0 then 11 else word_of_int (msr_encoding m))"
    and xs: "xs \<noteq> []" "representable xs" "length xs < 2 ^ 31" "record_times lslist m (length xs)"
    and fit: "- 1 \<le> msr_reclen m" "maxreclen = (if msr_reclen m < 0 then 4096 else nat (msr_reclen m))"
      "MS3FSDH_LENGTH + length (msr_sid m) + unat (msr_extralength m) + room \<le> maxreclen"
    and pm: "packer_ok pm" "rawrec_ok pm" "encoded_ok pm" and al: "record_ok al" "extra_ok al"
  shows "\<exists>recs. msr3_pack h lslist header2 pm (Some m) True flags = Inr (int (length recs), Some (int (length xs)), recs) \<and>
     (\<forall>h' addr'. records_give h' addr' al lslist m 0 recs xs)"
proof -
  define off where "off = MS3FSDH_LENGTH + length (msr_sid m) + unat (msr_extralength m)"
  have max: "maxreclen \<le> MAXRECLEN" "off + room \<le> maxreclen" "off \<le> maxreclen"
    using writable_range [OF m(1)] fit by (auto simp: off_def)
  have start: "0 < length xs" using xs(1) by simp
  obtain t where t: "ms_nstime2time (msr_starttime m) = Inr t" using writable_time [OF m(1)] by blast
  obtain raw where raw: "msr3_pack_header3 h (Some m) (Some (replicate maxreclen 0)) maxreclen = Inr (int off, raw)"
    "length raw = maxreclen" "header_holds m t raw"
    using pack_header3_writable [OF m(1) t, of maxreclen "replicate maxreclen 0" h] max(3) by (auto simp: off_def)
  have range: "\<not> (msr_reclen m \<noteq> -1 \<and> (msr_reclen m < int MINRECLEN \<or> msr_reclen m > int MAXRECLEN))"
    using writable_range [OF m(1)] fit(1) by auto
  have guard: "\<not> maxreclen < MS3FSDH_LENGTH + length (msr_sid m) + unat (msr_extralength m)" using max(3) by (simp add: off_def)
  have maxdata: "nat ((int maxreclen - int off) mod 2 ^ 32) = maxreclen - off"
    using max by (simp add: of_nat_diff [symmetric] del: of_nat_diff)
  obtain pk where pk: "msr3_pack_init h header2 pm (Some m) flags = Inr (Some pk)" "packing h lslist m xs 0 pk"
    "pk_maxdatabytes pk = maxreclen - off"
  proof -
    define pk where "pk = \<lparr>pk_msr = m, pk_flags = flags, pk_rawrec = raw, pk_encoded = Some (map (fresh pm) [0..<maxreclen - off]),
      pk_maxreclen = maxreclen, pk_packed_samples = 0, pk_recordcount = 0, pk_encoding = encoding, pk_dataoffset = off,
      pk_maxsamples = max_samples encoding (maxreclen - off) 4, pk_maxdatabytes = maxreclen - off, pk_samplesize = 4,
      pk_swapflag = ms_bigendianhost h, pk_formatversion = 3, pk_nextstarttime = msr_starttime m,
      pk_blockette_1000_offset = 0, pk_blockette_1001_offset = 0, pk_finished = False\<rparr>"
    have "msr3_pack_init h header2 pm (Some m) flags = Inr (Some pk)"
      unfolding msr3_pack_init_def option.case if_not_P [OF range]
      using v3 pm m(3,4) start raw(1) maxdata guard fit(2) [symmetric] enc [symmetric]
      by (simp add: Let_def pack_headers_def pk_def ms_samplesize_def split del: if_split)
    moreover have "packing h lslist m xs 0 pk"
      using v3 raw(2,3) max t start enc by (auto simp: packing_def pk_def off_def record_start_def)
    ultimately show ?thesis using that by (simp add: pk_def)
  qed
  have "room \<le> pk_maxdatabytes pk" using pk(3) max by simp
  from pack_loop_all [OF pk(2) _ m enc xs(2-4) this al, of "rawrec_address pm" "[]"]
  obtain recs pk' where loop: "pack_loop h lslist (rawrec_address pm) pk [] = Inr (0, pk', recs)" "pk_packed_samples pk' = int (length xs)"
    "\<forall>h' addr'. records_give h' addr' al lslist m 0 recs xs" by auto
  then show ?thesis using pk(1) by (simp add: msr3_pack_def msr3_pack_free_def)
qed

end

subsection \<open>Properties\<close>

text \<open>The encodings of integers, what they can represent, and the room one record needs.\<close>

definition integer_payload :: "u8 \<Rightarrow> i32 list \<Rightarrow> bool" where
  "integer_payload encoding xs \<longleftrightarrow>
     encoding = DE_INT16 \<and> int16_range xs \<or> encoding = DE_INT32 \<or> encoding = DE_STEIM1 \<or> encoding = DE_STEIM2 \<and> small_steps xs"

definition payload_room :: "u8 \<Rightarrow> nat" where
  "payload_room encoding = (if encoding = DE_INT16 then 2 else if encoding = DE_INT32 then 4 else 64)"

lemma pack_integers:
  assumes "writable m" "msr_datasamples m = Some (IntSamples xs)" "msr_numsamples m = int (length xs)" "msr_sampletype m = CHR ''i''"
    and "msr_formatversion m \<noteq> 2" "flags AND MSF_PACKVER2 = 0" "flags AND MSF_FLUSHDATA \<noteq> 0"
    and "encoding = (if msr_encoding m < 0 then 11 else word_of_int (msr_encoding m))" "integer_payload encoding xs"
    and "xs \<noteq> []" "length xs < 2 ^ 31" "record_times lslist m (length xs)"
    and "- 1 \<le> msr_reclen m" "maxreclen = (if msr_reclen m < 0 then 4096 else nat (msr_reclen m))"
    and "MS3FSDH_LENGTH + length (msr_sid m) + unat (msr_extralength m) + payload_room encoding \<le> maxreclen"
    and "packer_ok pm" "rawrec_ok pm" "encoded_ok pm" "record_ok al" "extra_ok al"
  shows "\<exists>recs. msr3_pack h lslist header2 pm (Some m) True flags = Inr (int (length recs), Some (int (length xs)), recs) \<and>
     (\<forall>h' addr'. records_give h' addr' al lslist m 0 recs xs)"
proof -
  note pack = assms(1-7) _ assms(10) _ assms(11-14) _ assms(16-20)
  consider "encoding = 1" "int16_range xs" | "encoding = 3" | "encoding = 10" | "encoding = 11" "small_steps xs"
    using assms(9) by (auto simp: integer_payload_def)
  then show ?thesis
  proof cases
    case 1
    then show ?thesis using assms by (intro int16_payload.pack_all [OF pack]) (simp_all add: payload_room_def)
  next
    case 2
    then show ?thesis using assms by (intro int32_payload.pack_all [OF pack]) (simp_all add: payload_room_def)
  next
    case 3
    then show ?thesis using assms by (intro steim1_payload.pack_all [OF pack]) (simp_all add: payload_room_def)
  next
    case 4
    then show ?thesis using assms by (intro steim2_payload.pack_all [OF pack]) (simp_all add: payload_room_def)
  qed
qed

text \<open>
  C1. Packing integers into version 3 records, flushing, with any of the four integer
  encodings on any host: the call packs all samples and returns the number of records it
  handed out, and on any host every record is detected with its length, unpacks with its
  checksum to the identifier, flags, rate, encoding, version and extra headers of the
  source and the time of its first sample, and the payloads decode, record after record,
  to the samples.
\<close>

theorem pack_unpack_roundtrip:
  assumes "writable m" "msr_datasamples m = Some (IntSamples xs)" "msr_numsamples m = int (length xs)" "msr_sampletype m = CHR ''i''"
    and "msr_formatversion m \<noteq> 2" "flags AND MSF_PACKVER2 = 0" "flags AND MSF_FLUSHDATA \<noteq> 0"
    and "encoding = (if msr_encoding m < 0 then 11 else word_of_int (msr_encoding m))" "integer_payload encoding xs"
    and "xs \<noteq> []" "length xs < 2 ^ 31" "record_times lslist m (length xs)"
    and "- 1 \<le> msr_reclen m" "maxreclen = (if msr_reclen m < 0 then 4096 else nat (msr_reclen m))"
    and "MS3FSDH_LENGTH + length (msr_sid m) + unat (msr_extralength m) + payload_room encoding \<le> maxreclen"
    and "packer_ok pm" "rawrec_ok pm" "encoded_ok pm" "record_ok al" "extra_ok al"
  shows "\<exists>recs. msr3_pack h lslist header2 pm (Some m) True flags = Inr (int (length recs), Some (int (length xs)), recs) \<and>
     (\<forall>h' addr'. records_give h' addr' al lslist m 0 recs xs)"
  by (rule pack_integers [OF assms])

text \<open>Three integers in records of 66 bytes, which hold two each.\<close>

definition three_samples :: MS3Record where
  "three_samples = MS3Record_INITIALIZER
     \<lparr>msr_sid := replicate 18 0x41, msr_reclen := 66, msr_formatversion := 3, msr_starttime := 1500000000000000001,
      msr_samprate := f_one, msr_encoding := 3, msr_pubversion := 2, msr_datasamples := Some (IntSamples [1, -2, 70000]),
      msr_numsamples := 3, msr_sampletype := CHR ''i''\<rparr>"

definition memory_ok :: pack_memory where
  "memory_ok = \<lparr>packer_ok = True, rawrec_ok = True, encoded_ok = True, fresh = (\<lambda>i. of_nat i), rawrec_address = 3\<rparr>"

lemma test_times:
  "t \<in> {1500000000000000001, 1500000001000000001, 1500000002000000001} \<Longrightarrow>
   year_start 1678 * 86400 * NSTMODULUS \<le> t \<and> t < 2 ^ 63 \<and> t \<noteq> NSTERROR"
  by (auto simp: NSTERROR_def year_start_def NSTMODULUS_def)

lemma three_samples_ok:
  "writable three_samples" "record_times embedded_leapsecondlist three_samples 3"
proof -
  have "ms_sampletime embedded_leapsecondlist 1500000000000000001 1 f_one = Inr 1500000001000000001"
    "ms_sampletime embedded_leapsecondlist 1500000000000000001 2 f_one = Inr 1500000002000000001" by code_simp+
  then have start: "record_start embedded_leapsecondlist three_samples 0 = Inr 1500000000000000001"
    "record_start embedded_leapsecondlist three_samples 1 = Inr 1500000001000000001"
    "record_start embedded_leapsecondlist three_samples 2 = Inr 1500000002000000001"
    by (simp_all add: record_start_def three_samples_def)
  show "record_times embedded_leapsecondlist three_samples 3"
    unfolding record_times_def
  proof (intro allI impI)
    fix k :: nat assume "k < 3"
    then consider "k = 0" | "k = 1" | "k = 2" by fastforce
    then show "case record_start embedded_leapsecondlist three_samples k of Inl _ \<Rightarrow> False
        | Inr time \<Rightarrow> year_start 1678 * 86400 * NSTMODULUS \<le> time \<and> time < 2 ^ 63 \<and> time \<noteq> NSTERROR"
    proof cases
      case 1 then show ?thesis unfolding 1 start sum.case by (intro test_times) simp
    next
      case 2 then show ?thesis unfolding 2 start sum.case by (intro test_times) simp
    next
      case 3 then show ?thesis unfolding 3 start sum.case by (intro test_times) simp
    qed
  qed
  show "writable three_samples"
    by (simp add: writable_def packable_def three_samples_def MS3Record_INITIALIZER_def NSTERROR_def year_start_def NSTMODULUS_def)
qed

theorem pack_unpack_roundtrip_witness:
  "\<exists>recs. msr3_pack BigEndian embedded_leapsecondlist (\<lambda>h m mem n. Inl (ReturnError (-1))) memory_ok (Some three_samples) True 0x0040 =
     Inr (int (length recs), Some 3, recs) \<and>
     (\<forall>h' addr'. records_give h' addr' all_ok embedded_leapsecondlist three_samples 0 recs [1, -2, 70000])"
proof -
  have times: "record_times embedded_leapsecondlist three_samples (length [1, -2, 70000 :: i32])" using three_samples_ok(2) by (simp add: numeral_3_eq_3)
  have "\<exists>recs. msr3_pack BigEndian embedded_leapsecondlist (\<lambda>h m mem n. Inl (ReturnError (-1))) memory_ok (Some three_samples) True 0x0040 =
     Inr (int (length recs), Some (int (length [1, -2, 70000 :: i32])), recs) \<and>
     (\<forall>h' addr'. records_give h' addr' all_ok embedded_leapsecondlist three_samples 0 recs [1, -2, 70000])"
    by (rule pack_unpack_roundtrip [OF three_samples_ok(1) _ _ _ _ _ _ refl _ _ _ times _ refl])
      (simp_all add: three_samples_def memory_ok_def all_ok_def integer_payload_def payload_room_def MS3Record_INITIALIZER_def)
  then show ?thesis by simp
qed

end
