(* ===== verification/Pack2.thy ===== *)
theory Pack2
  imports Packer
begin

text \<open>
  What the generator writes into version 2 records: the start time in tenths of
  milliseconds with an offset in microseconds, and the sample count. The reader of that
  time is \<open>ms_btime2nstime\<close> of unpack.c.
\<close>

subsection \<open>Splitting a time\<close>

text \<open>The time rounded to microseconds, halves away from zero.\<close>

definition nearest_usec :: "int \<Rightarrow> int" where
  "nearest_usec nstime = (if nstime \<ge> 0 then (nstime + 500) div 1000 else - ((500 - nstime) div 1000))"

lemma rounded_usec:
  "(nstime + (if nstime \<ge> 0 then 500 else - 500)) sdiv 1000 = nearest_usec nstime"
  by (simp add: nearest_usec_def sdiv_nonneg sdiv_neg)

lemma sdiv_scaled: "(R * 1000) sdiv 1000 = (R :: int)" "(R * 1000) sdiv 100000 = (R :: int) sdiv 100"
proof -
  show "(R * 1000) sdiv 1000 = R" by (cases "0 \<le> R") (simp_all add: sdiv_nonneg sdiv_neg)
  have "- (R * 1000) div 100000 = - R div 100" "R * 1000 div 100000 = R div 100"
    by linarith+
  then show "(R * 1000) sdiv 100000 = R sdiv 100" by (cases "0 \<le> R") (simp_all add: sdiv_nonneg sdiv_neg)
qed

text \<open>Truncation, corrected for a negative remainder, is the floor.\<close>

lemma smod_corrected:
  fixes F :: int
  shows "(if F smod 10000 < 0 then (F smod 10000 + 10000, F sdiv 10000 - 1) else (F smod 10000, F sdiv 10000)) =
         (F mod 10000, F div 10000)"
proof (cases "0 \<le> F")
  case True
  then have "F smod 10000 = F mod 10000" by (simp add: smod_sdiv sdiv_nonneg minus_mult_div_eq_mod)
  then show ?thesis using True by (simp add: sdiv_nonneg)
next
  case False
  then have s: "F sdiv 10000 = - ((- F) div 10000)" by (simp add: sdiv_neg)
  moreover have "F smod 10000 = - ((- F) mod 10000)"
    using mult_div_mod_eq [of 10000 "- F"] smod_sdiv [of F 10000] s by linarith
  moreover have "0 \<le> (- F) mod 10000" "(- F) mod 10000 < 10000" by simp_all
  moreover have "F mod 10000 = (if (- F) mod 10000 = 0 then 0 else 10000 - (- F) mod 10000)"
    "F div 10000 = (if (- F) mod 10000 = 0 then - ((- F) div 10000) else - ((- F) div 10000) - 1)"
    using zmod_zminus1_eq_if [of "- F" 10000] zdiv_zminus1_eq_if [of 10000 "- F"] by simp_all
  ultimately show ?thesis by auto
qed

definition split_usec :: "int \<Rightarrow> int \<times> int" where
  "split_usec R =
     (let F = R sdiv 100; off = R - F * 100
      in if off > 49 then (F + 1, off - 100) else if off < - 50 then (F - 1, off + 100) else (F, off))"

lemma split_usec_sum: "split_usec R = (F, off) \<Longrightarrow> F * 100 + off = R \<and> - 50 \<le> off \<and> off \<le> 49"
proof -
  have "R sdiv 100 = (if 0 \<le> R then R div 100 else - ((- R) div 100))" by (simp add: sdiv_nonneg sdiv_neg)
  then have "- 99 \<le> R - R sdiv 100 * 100" "R - R sdiv 100 * 100 \<le> 99" by (simp_all split: if_splits) (presburger+)?
  then show "split_usec R = (F, off) \<Longrightarrow> F * 100 + off = R \<and> - 50 \<le> off \<and> off \<le> 49"
    by (auto simp: split_usec_def Let_def split: if_splits)
qed

lemma fsec_value:
  "nstime2fsec_usec_offset nstime =
     (if int64 (nstime + (if nstime \<ge> 0 then 500 else - 500)) then
        (let (F, off) = split_usec (nearest_usec nstime)
         in if int64 (F div 10000 * NSTMODULUS) then Inr (F div 10000 * NSTMODULUS, word_of_int (F mod 10000), off) else Inl Overflow)
      else Inl Overflow)"
proof -
  define R where "R = nearest_usec nstime"
  obtain F off where s: "split_usec R = (F, off)" by fastforce
  have "(if 49 < R - R sdiv 100 * 100 then (R sdiv 100 + 1, R - R sdiv 100 * 100 - 100)
         else if R - R sdiv 100 * 100 < - 50 then (R sdiv 100 - 1, R - R sdiv 100 * 100 + 100)
         else (R sdiv 100, R - R sdiv 100 * 100)) = (F, off)"
    using s by (simp add: split_usec_def Let_def)
  then show ?thesis
    unfolding nstime2fsec_usec_offset_def in_int64_def Let_def R_def [symmetric] s prod.case
    by (cases "int64 (nstime + (if nstime \<ge> 0 then 500 else - 500))"; cases "int64 (F div 10000 * NSTMODULUS)")
      (simp_all only: rounded_usec R_def [symmetric] sdiv_scaled smod_corrected sum.case prod.case if_True if_False not_True_eq_False not_False_eq_True)
qed

subsection \<open>Reading the start time back\<close>

text \<open>The fraction is computed in 32 bits.\<close>

definition ms_btime2nstime :: "byteorder \<Rightarrow> u8 list \<Rightarrow> nat \<Rightarrow> bool \<Rightarrow> int result" where
  "ms_btime2nstime h mem off swapflag =
     (if length mem < off + 10 then Inl OutOfBounds
      else
        let year = HO2u (u16_at h mem off) swapflag
        in if year = 0 then Inr NSTUNSET
           else ms_time2nstime (uint year) (uint (HO2u (u16_at h mem (off + 2)) swapflag)) (uint (mem ! (off + 4)))
                  (uint (mem ! (off + 5))) (uint (mem ! (off + 6)))
                  (uint (HO2u (u16_at h mem (off + 8)) swapflag) * (NSTMODULUS div 10000) mod 2 ^ 32))"

lemma big_endian_fields:
  "host_bytes h 2 (HO2u v (\<not> ms_bigendianhost h)) = rev (le_bytes 2 v)"
  "peek off 2 mem = rev (le_bytes 2 v) \<Longrightarrow> HO2u (u16_at h mem off) (\<not> ms_bigendianhost h) = v"
proof -
  show b: "host_bytes h 2 (HO2u v (\<not> ms_bigendianhost h)) = rev (le_bytes 2 v)" for h
    by (cases h; simp add: host_bytes_def HO2u_def ms_bigendianhost_iff le_bytes_gswap2)
  assume "peek off 2 mem = rev (le_bytes 2 v)"
  then have "u16_at h mem off = HO2u v (\<not> ms_bigendianhost h)"
    using host_word_host_bytes [of 2 h "HO2u v (\<not> ms_bigendianhost h)"] by (simp add: u16_at_def b)
  then show "HO2u (u16_at h mem off) (\<not> ms_bigendianhost h) = v" by (simp add: HO2u_def)
qed

text \<open>The fields of a time with another fraction.\<close>

lemma time2nstime_fraction:
  assumes "ms_time2nstime y d hh mm ss n = Inr T" "T \<noteq> NSTERROR" "0 \<le> n'" "n' \<le> 999999999" "int64 (T - n + n')"
  shows "ms_time2nstime y d hh mm ss n' = Inr (T - n + n')"
  using assms
  by (auto simp: ms_time2nstime_def ms_time2nstime_int_def Let_def VALIDNANOSEC_def split: if_splits)

lemma nstime2time_nsec: "ms_nstime2time t = Inr f \<Longrightarrow> 0 \<le> t \<Longrightarrow> dt_nsec f = t mod 1000000000"
  by (auto simp: ms_nstime2time_def Let_def NSTMODULUS_def sdiv_nonneg minus_div_mult_eq_mod split: sum.splits option.splits if_splits)

text \<open>The fields a version 2 record after the first is given.\<close>

lemma finish_record2_fields:
  assumes "finish_record2 h pk nsamples size_data mem = Inr (rec, reclen)" "pk_swapflag pk = (\<not> ms_bigendianhost h)"
    and "pk_recordcount pk \<noteq> 0" "nstime2fsec_usec_offset (pk_nextstarttime pk) = Inr (time, fsec, usec)"
    and "ms_nstime2time (pk_nextstarttime pk) = Inr t" "b = unat (pk_blockette_1001_offset pk)" "b = 0 \<or> 48 \<le> b" "32 \<le> pk_dataoffset pk"
  shows "peek 30 2 rec = rev (le_bytes 2 (of_nat nsamples :: u16))" "peek 20 2 rec = rev (le_bytes 2 (word_of_int (dt_year t) :: u16))"
    and "peek 22 2 rec = rev (le_bytes 2 (word_of_int (dt_yday t) :: u16))" "rec ! 24 = word_of_int (dt_hour t)"
    and "rec ! 25 = word_of_int (dt_min t)" "rec ! 26 = word_of_int (dt_sec t)" "peek 28 2 rec = rev (le_bytes 2 fsec)"
    and "b \<noteq> 0 \<longrightarrow> rec ! (b + 5) = word_of_int usec" "32 \<le> length rec"
proof -
  define cnt where "cnt = rev (le_bytes 2 (of_nat nsamples :: u16))"
  define year where "year = rev (le_bytes 2 (word_of_int (dt_year t) :: u16))"
  define yday where "yday = rev (le_bytes 2 (word_of_int (dt_yday t) :: u16))"
  define frac where "frac = rev (le_bytes 2 fsec)"
  define content where "content = pk_dataoffset pk + size_data"
  define zeros where "zeros = (if content < pk_maxreclen pk then [(content, replicate (pk_maxreclen pk - content) (0 :: u8))] else [])"
  have sizes: "length cnt = 2" "length year = 2" "length yday = 2" "length frac = 2" by (simp_all add: cnt_def year_def yday_def frac_def)
  define blk where "blk = (if pk_blockette_1001_offset pk \<noteq> 0 then [(b + 5, [word_of_int usec :: u8])] else [])"
  have blk: "blk = (if b = 0 then [] else [(b + 5, [word_of_int usec])])" using assms(6) by (simp add: blk_def unat_eq_0)
  note run = assms(1) [unfolded finish_record2_def Let_def assms(2) big_endian_fields(1) if_not_P [OF assms(3)] assms(4,5)
     sum.case prod.case fault.case append.simps, folded cnt_def year_def yday_def frac_def content_def assms(6), folded zeros_def blk_def]
  then have st: "store_all ([(30, cnt)] @ zeros @ [(20, year), (22, yday), (24, [word_of_int (dt_hour t)]), (25, [word_of_int (dt_min t)]),
      (26, [word_of_int (dt_sec t)]), (28, frac)] @ blk) mem = Inr rec"
    by (auto simp del: store_all.simps split: sum.splits)
  define mem1 where "mem1 = poke 30 cnt mem"
  have mem1: "length mem1 = length mem" "32 \<le> length mem" "peek 30 2 mem1 = cnt"
    and st1: "store_all (zeros @ [(20, year), (22, yday), (24, [word_of_int (dt_hour t)]), (25, [word_of_int (dt_min t)]),
      (26, [word_of_int (dt_sec t)]), (28, frac)] @ blk) mem1 = Inr rec"
    using st sizes by (auto simp: mem1_def peek_poke_same split: if_splits)
  obtain mem2 where mem2: "length mem2 = length mem" "peek 30 2 mem2 = cnt"
    and st2: "store_all ([(20, year), (22, yday), (24, [word_of_int (dt_hour t)]), (25, [word_of_int (dt_min t)]),
      (26, [word_of_int (dt_sec t)]), (28, frac)] @ blk) mem2 = Inr rec"
  proof (cases "zeros = []")
    case True
    then show ?thesis using that [of mem1] mem1 st1 by simp
  next
    case False
    define zs where "zs = replicate (pk_maxreclen pk - content) (0 :: u8)"
    have z: "zeros = [(content, zs)]" using False by (auto simp: zeros_def zs_def split: if_splits)
    have zs: "content + length zs \<le> length mem1"
      using st1 by (auto simp: z split: if_splits)
    moreover have "32 \<le> content" using assms(8) by (simp add: content_def)
    moreover have "store_all ([(20, year), (22, yday), (24, [word_of_int (dt_hour t)]), (25, [word_of_int (dt_min t)]),
      (26, [word_of_int (dt_sec t)]), (28, frac)] @ blk) (poke content zs mem1) = Inr rec"
      using st1 zs by (simp only: z append.simps store_all.simps(2) if_True)
    ultimately show ?thesis
      using that [of "poke content zs mem1"] mem1 by (simp add: peek_poke_other)
  qed
  define mem3 where "mem3 = poke 28 frac (poke 26 [word_of_int (dt_sec t)] (poke 25 [word_of_int (dt_min t)]
     (poke 24 [word_of_int (dt_hour t)] (poke 22 yday (poke 20 year mem2)))))"
  have len: "32 \<le> length mem2" using mem1 mem2 by simp
  have mem3: "length mem3 = length mem2" "peek 30 2 mem3 = cnt" "peek 20 2 mem3 = year" "peek 22 2 mem3 = yday"
    "mem3 ! 24 = word_of_int (dt_hour t)" "mem3 ! 25 = word_of_int (dt_min t)" "mem3 ! 26 = word_of_int (dt_sec t)" "peek 28 2 mem3 = frac"
    using len sizes mem2(2) by (simp_all add: mem3_def poke_simps)
  have "store_all blk mem3 = Inr rec"
    using st2 len sizes by (simp add: mem3_def)
  then have rec: "if b = 0 then rec = mem3 else b + 6 \<le> length mem3 \<and> rec = poke (b + 5) [word_of_int usec] mem3"
    by (auto simp: blk split: if_splits)
  show "peek 30 2 rec = rev (le_bytes 2 (of_nat nsamples :: u16))" "peek 20 2 rec = rev (le_bytes 2 (word_of_int (dt_year t) :: u16))"
    "peek 22 2 rec = rev (le_bytes 2 (word_of_int (dt_yday t) :: u16))" "rec ! 24 = word_of_int (dt_hour t)"
    "rec ! 25 = word_of_int (dt_min t)" "rec ! 26 = word_of_int (dt_sec t)" "peek 28 2 rec = rev (le_bytes 2 fsec)"
    "b \<noteq> 0 \<longrightarrow> rec ! (b + 5) = word_of_int usec"
    using rec mem3 assms(7) by (auto simp: poke_simps cnt_def year_def yday_def frac_def split: if_splits)
  show "32 \<le> length rec" using rec mem3(1) len by (auto split: if_splits)
qed

text \<open>The fraction within the second, and when rounding carries into the next one.\<close>

lemma split_usec_second:
  assumes "split_usec (s * 1000000 + us) = (F, off)" "0 \<le> us" "us \<le> 1000000"
  shows "F mod 10000 * 100 + off = (if 999950 \<le> us then us - 1000000 else us)"
proof -
  have sum: "F * 100 + off = s * 1000000 + us" "- 50 \<le> off" "off \<le> 49" using split_usec_sum [OF assms(1)] by auto
  define G where "G = F - s * 10000"
  have G: "G * 100 + off = us" using sum(1) by (simp add: G_def algebra_simps)
  have "F mod 10000 = G mod 10000"
  proof -
    have "F = G + s * 10000" by (simp add: G_def)
    then show ?thesis by simp
  qed
  moreover have "0 \<le> G" using G sum assms(2) by linarith
  moreover have "if 999950 \<le> us then G = 10000 else G < 10000" using G sum assms(3) by auto
  ultimately show ?thesis using G by (auto split: if_splits)
qed

lemma nearest_usec_second:
  fixes t :: int
  assumes "0 \<le> t"
  shows "nearest_usec t = t div 1000000000 * 1000000 + (t mod 1000000000 + 500) div 1000"
    and "0 \<le> (t mod 1000000000 + 500) div 1000" "(t mod 1000000000 + 500) div 1000 \<le> 1000000"
    and "999950 \<le> (t mod 1000000000 + 500) div 1000 \<longleftrightarrow> 999949500 \<le> t mod 1000000000"
proof -
  define f where "f = t mod 1000000000"
  have f: "0 \<le> f" "f < 1000000000" by (simp_all add: f_def)
  have "t + 500 = (f + 500) + t div 1000000000 * 1000000 * 1000"
    using div_mult_mod_eq [of t 1000000000] by (simp add: f_def)
  then have "(t + 500) div 1000 = t div 1000000000 * 1000000 + (f + 500) div 1000"
    by (metis add.commute div_mult_self3 zero_neq_numeral)
  then show "nearest_usec t = t div 1000000000 * 1000000 + (t mod 1000000000 + 500) div 1000"
    using assms by (simp add: nearest_usec_def f_def)
  show "0 \<le> (t mod 1000000000 + 500) div 1000" "(t mod 1000000000 + 500) div 1000 \<le> 1000000"
    "999950 \<le> (t mod 1000000000 + 500) div 1000 \<longleftrightarrow> 999949500 \<le> t mod 1000000000"
    using f unfolding f_def [symmetric] by linarith+
qed

text \<open>
  The fields of a time from 1970 on as the generator makes them, with the fraction of the
  rounded time, and the time they stand for.
\<close>

lemma time_stamp:
  fixes t :: int
  assumes "0 \<le> t" "t < 9223372036000000000"
  obtains time F off d written where
    "nstime2fsec_usec_offset t = Inr (time, word_of_int F, off)" "- 50 \<le> off" "off \<le> 49" "0 \<le> F" "F < 10000"
    "ms_nstime2time t = Inr d" "dt_year d \<noteq> 0"
    "ms_time2nstime (dt_year d) (dt_yday d) (dt_hour d) (dt_min d) (dt_sec d) (F * 100000) = Inr written"
    "written + off * 1000 = nearest_usec t * 1000 - (if 999949500 \<le> t mod 1000000000 then 1000000000 else 0)"
proof -
  define us where "us = (t mod 1000000000 + 500) div 1000"
  note near = nearest_usec_second [OF assms(1), folded us_def]
  obtain G off where s: "split_usec (nearest_usec t) = (G, off)" by fastforce
  have sum: "G * 100 + off = nearest_usec t" "- 50 \<le> off" "off \<le> 49" using split_usec_sum [OF s] by auto
  have second: "G mod 10000 * 100 + off = (if 999950 \<le> us then us - 1000000 else us)"
    using split_usec_second [OF s [unfolded near(1)] near(2,3)] .
  have t: "0 \<le> t div 1000000000" "t div 1000000000 \<le> 9223372035" using assms by simp_all
  then have "0 \<le> G div 10000" "G div 10000 \<le> 9223372036" using sum near(1,2,3) by linarith+
  then have "int64 (G div 10000 * NSTMODULUS)" "int64 (t + 500)" using assms by (simp_all add: int64_def NSTMODULUS_def)
  then obtain time where split: "nstime2fsec_usec_offset t = Inr (time, word_of_int (G mod 10000), off)"
    using assms(1) s by (auto simp: fsec_value)
  have "year_start 1678 * 86400 * NSTMODULUS \<le> t" "t < 2 ^ 63" using assms by (simp_all add: year_start_def NSTMODULUS_def)
  from nstime2time_back [OF this] obtain d where d: "ms_nstime2time t = Inr d"
    "ms_time2nstime (dt_year d) (dt_yday d) (dt_hour d) (dt_min d) (dt_sec d) (dt_nsec d) = Inr t" by blast
  have neg: "t \<noteq> NSTERROR" using assms(1) by (simp add: NSTERROR_def)
  have year: "dt_year d \<noteq> 0" using d(2) neg by (auto simp: ms_time2nstime_def VALIDYEAR_def split: if_splits)
  have frac: "0 \<le> G mod 10000 * 100000" "G mod 10000 * 100000 \<le> 999999999" using pos_mod_bound [of 10000 G] by simp_all
  define written where "written = t - dt_nsec d + G mod 10000 * 100000"
  have "t - dt_nsec d = t div 1000000000 * 1000000000"
    using nstime2time_nsec [OF d(1) assms(1)] by (simp add: minus_mod_eq_div_mult)
  then have w: "written = t div 1000000000 * 1000000000 + G mod 10000 * 100000" by (simp add: written_def)
  have "(2 :: int) ^ 63 = 9223372036854775808" by simp
  then have "int64 written" using frac t unfolding w int64_def by linarith
  then have read: "ms_time2nstime (dt_year d) (dt_yday d) (dt_hour d) (dt_min d) (dt_sec d) (G mod 10000 * 100000) = Inr written"
    using time2nstime_fraction [OF d(2) neg frac] by (simp add: written_def)
  have "written + off * 1000 = nearest_usec t * 1000 - (if 999949500 \<le> t mod 1000000000 then 1000000000 else 0)"
    using second near(4) unfolding w near(1) by (auto split: if_splits)
  from that [OF split sum(2,3) _ _ d(1) year read this] show thesis by simp
qed

text \<open>A record that comes out of the generator after the first one.\<close>

lemma next_record2:
  assumes "msr3_pack_next h lslist addr (Some pk) = Inr (1, Some (rec, reclen), pk')" "pk_formatversion pk = 2"
    and "msr_numsamples (pk_msr pk) > 0"
  obtains nsamples size_data buf mem where
    "finish_record2 h (pk\<lparr>pk_encoded := buf\<rparr>) nsamples size_data mem = Inr (rec, reclen)"
    "pk_packed_samples pk' = pk_packed_samples pk + int nsamples"
  using assms
  by (auto simp: msr3_pack_next_def advance_packer_def Let_def split: if_splits sum.splits prod.splits option.splits fault.splits)

subsection \<open>Properties\<close>

text \<open>
  Splitting a time into a second, tenths of milliseconds and an offset in
  microseconds is exact for times of either sign: the parts add up to the time rounded to
  microseconds, the second is whole, the tenths stay below 10000 and the offset between
  -50 and 49.
\<close>

theorem fsec_usec_offset_exact:
  assumes "- 9223372035000000000 \<le> nstime" "nstime \<le> 9223372036854775307"
  shows "\<exists>time fsec usec. nstime2fsec_usec_offset nstime = Inr (time, fsec, usec) \<and>
           time + uint fsec * 100000 + usec * 1000 = nearest_usec nstime * 1000 \<and>
           1000000000 dvd time \<and> uint fsec < 10000 \<and> - 50 \<le> usec \<and> usec \<le> 49"
proof -
  define R where "R = nearest_usec nstime"
  obtain F off where s: "split_usec R = (F, off)" by fastforce
  have sum: "F * 100 + off = R" "- 50 \<le> off" "off \<le> 49" using split_usec_sum [OF s] by auto
  have R: "- 9223372035000001 \<le> R" "R \<le> 9223372036854776" using assms by (auto simp: R_def nearest_usec_def)
  have "- 9223372036 \<le> F div 10000" "F div 10000 \<le> 9223372036" using R sum by linarith+
  then have ok: "int64 (F div 10000 * NSTMODULUS)" "int64 (nstime + (if nstime \<ge> 0 then 500 else - 500))"
    using assms by (auto simp: int64_def NSTMODULUS_def)
  have fsec: "uint (word_of_int (F mod 10000) :: u16) = F mod 10000" by (simp add: uint_word_of_int)
  have "F div 10000 * 1000000000 + F mod 10000 * 100000 + off * 1000 = R * 1000"
    using div_mult_mod_eq [of F 10000] sum(1) by linarith
  then show ?thesis using ok sum fsec by (simp add: fsec_value R_def [symmetric] s NSTMODULUS_def)
qed

theorem fsec_usec_offset_exact_witness:
  "\<exists>time fsec usec. nstime2fsec_usec_offset (- 1234567890123) = Inr (time, fsec, usec) \<and>
     time + uint fsec * 100000 + usec * 1000 = nearest_usec (- 1234567890123) * 1000 \<and>
     1000000000 dvd time \<and> uint fsec < 10000 \<and> - 50 \<le> usec \<and> usec \<le> 49"
  by (rule fsec_usec_offset_exact) simp_all

text \<open>
  C19. The header of a version 2 record after the first, for start times from 1970 on,
  \<open>b\<close> being the offset of its blockette 1001 and 0 without one. Read back, and with an
  offset of less than 50 microseconds added, its start time is the time of its first sample
  rounded to microseconds, except when the rounding carries into the next second. Then it
  is one second early, because the second is not the one that belongs to the fraction. The
  offset is stored in the blockette 1001; without one it is lost, and the start time read
  is that much off. The sample count is the number of samples modulo 65536.
\<close>

theorem v2_record_header:
  assumes "msr3_pack_next h lslist addr (Some pk) = Inr (1, Some (rec, reclen), pk')" "pk_formatversion pk = 2"
    and "msr_numsamples (pk_msr pk) > 0" "pk_swapflag pk = (\<not> ms_bigendianhost h)" "pk_recordcount pk \<noteq> 0"
    and "b = unat (pk_blockette_1001_offset pk)" "b = 0 \<or> 48 \<le> b" "48 \<le> pk_dataoffset pk"
    and "t = pk_nextstarttime pk" "0 \<le> t" "t < 9223372036000000000"
  shows "\<exists>written off. ms_btime2nstime h' rec 20 (\<not> ms_bigendianhost h') = Inr written \<and> - 50 \<le> off \<and> off \<le> 49 \<and>
           written + off * 1000 = nearest_usec t * 1000 - (if 999949500 \<le> t mod 1000000000 then 1000000000 else 0) \<and>
           (b \<noteq> 0 \<longrightarrow> sint (rec ! (b + 5)) = off) \<and>
           uint (HO2u (u16_at h' rec 30) (\<not> ms_bigendianhost h')) = (pk_packed_samples pk' - pk_packed_samples pk) mod 65536"
proof -
  obtain nsamples size_data buf mem where fin: "finish_record2 h (pk\<lparr>pk_encoded := buf\<rparr>) nsamples size_data mem = Inr (rec, reclen)"
    and count: "pk_packed_samples pk' = pk_packed_samples pk + int nsamples"
    by (rule next_record2 [OF assms(1-3)])
  obtain time F off d written where st: "nstime2fsec_usec_offset t = Inr (time, word_of_int F, off)" "- 50 \<le> off" "off \<le> 49"
    "0 \<le> F" "F < 10000" "ms_nstime2time t = Inr d" "dt_year d \<noteq> 0"
    "ms_time2nstime (dt_year d) (dt_yday d) (dt_hour d) (dt_min d) (dt_sec d) (F * 100000) = Inr written"
    "written + off * 1000 = nearest_usec t * 1000 - (if 999949500 \<le> t mod 1000000000 then 1000000000 else 0)"
    by (rule time_stamp [OF assms(10,11)])
  have fields: "peek 30 2 rec = rev (le_bytes 2 (of_nat nsamples :: u16))" "peek 20 2 rec = rev (le_bytes 2 (word_of_int (dt_year d) :: u16))"
    "peek 22 2 rec = rev (le_bytes 2 (word_of_int (dt_yday d) :: u16))" "rec ! 24 = word_of_int (dt_hour d)"
    "rec ! 25 = word_of_int (dt_min d)" "rec ! 26 = word_of_int (dt_sec d)" "peek 28 2 rec = rev (le_bytes 2 (word_of_int F :: u16))"
    "b \<noteq> 0 \<longrightarrow> rec ! (b + 5) = word_of_int off" "32 \<le> length rec"
    using finish_record2_fields [OF fin, of time "word_of_int F" off d b] assms(4-9) st(1,6) by simp_all
  have "(word_of_int (dt_year d) :: u16) \<noteq> 0" using st(7) nstime2time_widths [OF st(6)] by (metis unsigned_0)
  then have "ms_btime2nstime h' rec 20 (\<not> ms_bigendianhost h') = Inr written"
    using fields st(4,5,8) nstime2time_widths [OF st(6)]
    by (simp add: ms_btime2nstime_def Let_def big_endian_fields(2) uint_word_of_int NSTMODULUS_def)
  moreover have "b \<noteq> 0 \<longrightarrow> sint (rec ! (b + 5)) = off" using fields(8) st(2,3) by (simp add: signed_of_int signed_take_bit_int_eq_self)
  moreover have "uint (HO2u (u16_at h' rec 30) (\<not> ms_bigendianhost h')) = (pk_packed_samples pk' - pk_packed_samples pk) mod 65536"
    using big_endian_fields(2) [OF fields(1), of h'] count by (simp add: uint_nat unat_of_nat zmod_int)
  ultimately show ?thesis using st(2,3,9) by blast
qed

text \<open>The second record of three integers, 40 microseconds before a full second.\<close>

definition second_record :: MS3RecordPacker where
  "second_record =
     \<lparr>pk_msr = MS3Record_INITIALIZER\<lparr>msr_formatversion := 2, msr_datasamples := Some (IntSamples [1, 2, 3]), msr_numsamples := 3,
        msr_sampletype := CHR ''i''\<rparr>,
      pk_flags = MSF_FLUSHDATA, pk_rawrec = replicate 128 0, pk_encoded = Some (replicate 64 0), pk_maxreclen = 128,
      pk_packed_samples = 2, pk_recordcount = 1, pk_encoding = DE_INT32, pk_dataoffset = 64, pk_maxsamples = 16, pk_maxdatabytes = 64,
      pk_samplesize = 4, pk_swapflag = True, pk_formatversion = 2, pk_nextstarttime = 1500000000999960000,
      pk_blockette_1000_offset = 48, pk_blockette_1001_offset = 56, pk_finished = False\<rparr>"

theorem v2_record_header_witness:
  "\<exists>rec reclen pk' written. msr3_pack_next LittleEndian [] 0 (Some second_record) = Inr (1, Some (rec, reclen), pk') \<and>
     ms_btime2nstime BigEndian rec 20 False = Inr written \<and> written + sint (rec ! 61) * 1000 = 1500000000999960000 - 1000000000 \<and>
     uint (HO2u (u16_at BigEndian rec 30) False) = (pk_packed_samples pk' - 2) mod 65536"
proof -
  have "nstime2fsec_usec_offset 1500000000999960000 = Inr (1500000001000000000, 0, - 40)" by code_simp
  moreover have "\<exists>t. ms_nstime2time 1500000000999960000 = Inr t"
    using nstime2time_back [of 1500000000999960000] by (auto simp: year_start_def NSTMODULUS_def)
  moreover have "packing_source LittleEndian second_record = Inr (Some [3, 0, 0, 0])" by code_simp
  moreover have "\<exists>buf. msr_pack_data LittleEndian (Some (replicate 64 0)) (Some [3, 0, 0, 0]) 1 64 CHR ''i'' 3 True = Inr (1, 4, Some buf) \<and>
      length buf = 64"
  proof -
    have "case msr_pack_data LittleEndian (Some (replicate 64 0)) (Some [3, 0, 0, 0]) 1 64 CHR ''i'' 3 True of
        Inr (n, d, Some buf) \<Rightarrow> n = 1 \<and> d = 4 \<and> length buf = 64 | _ \<Rightarrow> False" by code_simp
    then show ?thesis by (auto split: sum.splits option.splits)
  qed
  ultimately have "\<exists>rec reclen pk'. msr3_pack_next LittleEndian [] 0 (Some second_record) = Inr (1, Some (rec, reclen), pk')"
    by (auto simp: msr3_pack_next_def second_record_def remaining_samples_def finish_record2_def advance_packer_def)
  then obtain rec reclen pk' where nxt: "msr3_pack_next LittleEndian [] 0 (Some second_record) = Inr (1, Some (rec, reclen), pk')"
    by blast
  have pk: "pk_formatversion second_record = 2" "msr_numsamples (pk_msr second_record) > 0"
    "pk_swapflag second_record = (\<not> ms_bigendianhost LittleEndian)" "pk_recordcount second_record \<noteq> 0"
    "56 = unat (pk_blockette_1001_offset second_record)" "(56 :: nat) = 0 \<or> 48 \<le> (56 :: nat)" "48 \<le> pk_dataoffset second_record"
    "1500000000999960000 = pk_nextstarttime second_record" "(0 :: int) \<le> 1500000000999960000"
    "(1500000000999960000 :: int) < 9223372036000000000" "pk_packed_samples second_record = 2"
    by (simp_all add: second_record_def ms_bigendianhost_iff)
  have host: "\<not> ms_bigendianhost BigEndian \<longleftrightarrow> False" by (simp add: ms_bigendianhost_iff)
  have time: "nearest_usec 1500000000999960000 * 1000 - (if 999949500 \<le> 1500000000999960000 mod (1000000000 :: int) then 1000000000 else 0) =
      1500000000999960000 - 1000000000" "(56 :: nat) + 5 = 61" "((56 :: nat) \<noteq> 0) = True" by (simp_all add: nearest_usec_def)
  from v2_record_header [OF nxt pk(1-10), of BigEndian] nxt show ?thesis
    unfolding time host pk(11) by (metis (no_types, lifting))
qed

end
