(* ===== verification/ReadBuffer.thy ===== *)
theory ReadBuffer
  imports TraceInvariant Selection PackRoundtrip
begin

text \<open>
  Parsing a record (parseutils.c) and reading a buffer of records into a trace list
  (tracelist.c): detection, unpacking, selection and addition put together. The unpacking
  of version 2 records, which rests on the JSON library, is a parameter, except that the
  length it is given is stored in the record. The allocations of a call, the system time
  and the addresses may differ from record to record: they are functions of the place in
  the buffer.
\<close>

abbreviation (input) "MSF_ATENDOFFILE \<equiv> 0x0010 :: u32"
abbreviation (input) "MSF_RECORDLIST \<equiv> 0x0100 :: u32"

type_synonym unpacker2 = "byteorder \<Rightarrow> nat \<Rightarrow> allocations \<Rightarrow> u8 list \<Rightarrow> int \<Rightarrow> MS3Record option \<Rightarrow> u32 \<Rightarrow> MS3Record result"

subsection \<open>Parsing\<close>

text \<open>
  The buffer has the length the caller states. The value returned, and the record behind
  \<open>ppmsr\<close> after the call.
\<close>

definition msr3_parse ::
  "byteorder \<Rightarrow> nat \<Rightarrow> allocations \<Rightarrow> unpacker2 \<Rightarrow> u8 list option \<Rightarrow> MS3Record option option \<Rightarrow> u32 \<Rightarrow>
   (int \<times> MS3Record option) result" where
  "msr3_parse h addr al unpack2 record ppmsr flags =
     (case (record, ppmsr) of
        (Some mem, Some msr) \<Rightarrow>
          (case ms3_detect h record of
             Inl e \<Rightarrow> Inl e
           | Inr (reclen, version) \<Rightarrow>
               let formatversion = (case version of None \<Rightarrow> 0 | Some v \<Rightarrow> v);
                   recbuflen = length mem;
                   reclen = (if formatversion = 2 \<and> reclen = 0 \<and> flags AND MSF_ATENDOFFILE \<noteq> 0 \<and>
                       of_nat recbuflen AND (of_nat recbuflen - 1) = (0 :: u64) \<and> recbuflen \<le> MAXRECLEN
                     then int recbuflen else reclen)
               in if reclen < 0 then Inr (MS_NOTSEED, msr)
                  else if reclen = 0 then Inr (int MINRECLEN, msr)
                  else if reclen < int MINRECLEN \<or> reclen > int MAXRECLEN then Inr (MS_OUTOFRANGE, msr)
                  else if reclen > int recbuflen then
                    (let need = reclen - int recbuflen in Inr (if need > int MAXRECLEN then int MAXRECLEN else need, msr))
                  else if formatversion \<noteq> 3 \<and> formatversion \<noteq> 2 then Inr (MS_GENERROR, msr)
                  else (case (if formatversion = 3 then msr3_unpack_mseed3 h addr al record reclen ppmsr flags
                              else map_sum (\<lambda>e. e) (\<lambda>m. m\<lparr>msr_reclen := reclen\<rparr>) (unpack2 h addr al mem reclen msr flags)) of
                     Inl (ReturnError e) \<Rightarrow> Inr (e, None)
                   | Inl e \<Rightarrow> Inl e
                   | Inr m \<Rightarrow> Inr (0, Some m)))
      | (_, Some msr) \<Rightarrow> Inr (MS_GENERROR, msr)
      | (_, None) \<Rightarrow> Inr (MS_GENERROR, None))"

subsection \<open>Reading a buffer\<close>

text \<open>What may differ from call to call is a function of the place in the buffer.\<close>

record read_env =
  re_host :: byteorder
  re_addr :: nat
  re_unpack2 :: unpacker2
  re_alloc :: "nat \<Rightarrow> allocations"
  re_trace_alloc :: "nat \<Rightarrow> allocs"
  re_now :: "nat \<Rightarrow> int"
  re_leap :: leapseconds

text \<open>
  One round of the loop ends it with an error, ends it, or goes on behind a record that was
  skipped or added; with a record list, the offsets of the record in the buffer and of its
  payload go to the record pointer that was made.
\<close>

datatype read_step =
  Fail int MS3TraceList | Break | Next MS3TraceList MS3Record bool "(nat \<times> nat) list"

definition sid_string :: "u8 list \<Rightarrow> string" where
  "sid_string sid = map (\<lambda>b. char_of (unat b)) sid"

definition selected :: "read_env \<Rightarrow> MS3Selections list option \<Rightarrow> MS3Record \<Rightarrow> bool option" where
  "selected env selections m =
     (case selections of
        None \<Rightarrow> Some True
      | Some sels \<Rightarrow>
          (case msr3_endtime (re_leap env) (Some m) of
             Inl _ \<Rightarrow> None
           | Inr endtime \<Rightarrow>
               Some (ms3_matchselect sels (Some (sid_string (msr_sid m))) (msr_starttime m) endtime (uint (msr_pubversion m)) \<noteq> None)))"

definition deferred_unpack :: "read_env \<Rightarrow> nat \<Rightarrow> bool \<Rightarrow> u32 \<Rightarrow> MS3Record \<Rightarrow> MS3Record option result" where
  "deferred_unpack env offset selecting flags m =
     (if selecting \<and> flags AND MSF_UNPACKDATA \<noteq> 0 \<and> msr_samplecnt m > 0 then
        (case msr3_unpack_data (re_host env) (re_addr env + offset) (prealloc_block_size (re_alloc env offset)) (copy_ok (re_alloc env offset))
                (samples_ok (re_alloc env offset)) (Some m) of
           Inl (ReturnError e) \<Rightarrow> Inr None
         | Inl e \<Rightarrow> Inl e
         | Inr (n, m') \<Rightarrow> if int n \<noteq> msr_samplecnt m then Inr None else Inr (Some m'))
      else Inr (Some m))"

definition add_read ::
  "read_env \<Rightarrow> nat \<Rightarrow> u8 \<Rightarrow> u32 \<Rightarrow> MS3Tolerance option \<Rightarrow> MS3TraceList \<Rightarrow> MS3Record \<Rightarrow> read_step option" where
  "add_read env offset splitversion flags tolerance st m =
     (case mstl3_addmsr_recordptr (re_trace_alloc env offset) (re_leap env) (re_now env offset) (Some st) (Some m)
             (flags AND MSF_RECORDLIST \<noteq> 0) splitversion True flags tolerance of
        Some (Some st', Some p) \<Rightarrow>
          if flags AND MSF_RECORDLIST \<noteq> 0 then
            (case msr3_data_bounds (re_host env) (Some m) of
               Inl (ReturnError e) \<Rightarrow> Some (Fail MS_GENERROR st')
             | Inl e \<Rightarrow> None
             | Inr (dataoffset, datasize) \<Rightarrow> Some (Next st' m True [(offset, dataoffset)]))
          else Some (Next st' m True [])
      | Some (Some st', None) \<Rightarrow> Some (Fail MS_GENERROR st')
      | _ \<Rightarrow> None)"

definition read_one ::
  "read_env \<Rightarrow> u8 list \<Rightarrow> u8 \<Rightarrow> u32 \<Rightarrow> MS3Tolerance option \<Rightarrow> MS3Selections list option \<Rightarrow>
   MS3TraceList \<Rightarrow> MS3Record option \<Rightarrow> nat \<Rightarrow> read_step option" where
  "read_one env buffer splitversion flags tolerance selections st msr offset =
     (let pflags = (if flags AND MSF_UNPACKDATA \<noteq> 0 \<and> selections \<noteq> None then flags AND NOT MSF_UNPACKDATA else flags)
      in case msr3_parse (re_host env) (re_addr env + offset) (re_alloc env offset) (re_unpack2 env) (Some (drop offset buffer))
                (Some msr) pflags of
           Inl _ \<Rightarrow> None
         | Inr (parsevalue, msr) \<Rightarrow>
             if parsevalue < 0 then Some (Fail parsevalue st)
             else if parsevalue > 0 then Some Break
             else (case msr of
               None \<Rightarrow> None
             | Some m \<Rightarrow>
                 (case selected env selections m of
                    None \<Rightarrow> None
                  | Some False \<Rightarrow> Some (Next st m False [])
                  | Some True \<Rightarrow>
                      (case deferred_unpack env offset (selections \<noteq> None) flags m of
                         Inl _ \<Rightarrow> None
                       | Inr None \<Rightarrow> Some (Fail MS_GENERROR st)
                       | Inr (Some m) \<Rightarrow> add_read env offset splitversion flags tolerance st m))))"

subsection \<open>Progress\<close>

text \<open>Unpacking keeps the length of the record, so a round that goes on takes at least \<open>MINRECLEN\<close> bytes.\<close>

lemma unpack_data_reclen: "msr3_unpack_data h addr bs c s (Some m) = Inr (n, m') \<Longrightarrow> msr_reclen m' = msr_reclen m"
  by (auto simp: msr3_unpack_data_def Let_def split: if_splits option.splits sum.splits fault.splits prod.splits)

lemma unpack_data_samplecnt: "msr3_unpack_data h addr bs c s (Some m) = Inr (n, m') \<Longrightarrow> msr_samplecnt m' = msr_samplecnt m"
  by (auto simp: msr3_unpack_data_def Let_def split: if_splits option.splits sum.splits fault.splits prod.splits)

lemma unpack3_reclen: "msr3_unpack_mseed3 h addr al record reclen ppmsr flags = Inr m \<Longrightarrow> msr_reclen m = reclen"
  by (auto simp: msr3_unpack_mseed3_def unpack3_header_def Let_def split: if_splits option.splits sum.splits dest!: unpack_data_reclen)

lemma parse_progress:
  assumes "msr3_parse h addr al unpack2 (Some mem) (Some msr) flags = Inr (0, Some m)"
  shows "int MINRECLEN \<le> msr_reclen m" "msr_reclen m \<le> int (length mem)"
  using assms by (auto simp: msr3_parse_def Let_def map_sum_def split: sum.splits prod.splits if_splits fault.splits dest!: unpack3_reclen)

lemma add_read_next: "add_read env offset splitversion flags tolerance st m = Some (Next st' m' added ptrs) \<Longrightarrow> m' = m \<and> added"
  by (auto simp: add_read_def split: if_splits option.splits sum.splits fault.splits prod.splits)

lemma deferred_reclen: "deferred_unpack env offset selecting flags m = Inr (Some m') \<Longrightarrow> msr_reclen m' = msr_reclen m"
  by (auto simp: deferred_unpack_def split: if_splits sum.splits fault.splits prod.splits dest: unpack_data_reclen)

lemma read_one_progress:
  assumes "read_one env buffer splitversion flags tolerance selections st msr offset = Some (Next st' m added ptrs)"
  shows "int MINRECLEN \<le> msr_reclen m" "msr_reclen m \<le> int (length buffer - offset)"
  using assms
  by (auto simp: read_one_def Let_def split: if_splits option.splits sum.splits prod.splits bool.splits
      dest!: add_read_next deferred_reclen dest: parse_progress)

function read_loop ::
  "read_env \<Rightarrow> u8 list \<Rightarrow> u8 \<Rightarrow> u32 \<Rightarrow> MS3Tolerance option \<Rightarrow> MS3Selections list option \<Rightarrow>
   MS3TraceList \<Rightarrow> MS3Record option \<Rightarrow> nat \<Rightarrow> int \<Rightarrow> (nat \<times> nat) list \<Rightarrow> (int \<times> MS3TraceList \<times> (nat \<times> nat) list) option" where
  "read_loop env buffer splitversion flags tolerance selections st msr offset reccount filled =
     (if length buffer - offset > MINRECLEN then
        (case read_one env buffer splitversion flags tolerance selections st msr offset of
           None \<Rightarrow> None
         | Some (Fail code st) \<Rightarrow> Some (code, st, filled)
         | Some Break \<Rightarrow> Some (reccount, st, filled)
         | Some (Next st m added ptrs) \<Rightarrow>
             read_loop env buffer splitversion flags tolerance selections st (Some m) (offset + nat (msr_reclen m))
               (if added then reccount + 1 else reccount) (filled @ ptrs))
      else Some (reccount, st, filled))"
  by pat_completeness auto
termination
proof (relation "measure (\<lambda>(env, buffer, v, f, t, s, st, msr, offset, c, ptrs). length buffer - offset)", goal_cases)
  case (2 env buffer v f t s st msr offset c ptrs step st' m added ptrs')
  then have "int MINRECLEN \<le> msr_reclen m" using read_one_progress(1) [of env buffer v f t s st msr offset st' m added ptrs'] by simp
  then show ?case using 2(1) by simp
qed simp

declare read_loop.simps [simp del]

definition mstl3_readbuffer_selection ::
  "read_env \<Rightarrow> bool \<Rightarrow> MS3TraceList option option \<Rightarrow> u8 list \<Rightarrow> u8 \<Rightarrow> u32 \<Rightarrow> MS3Tolerance option \<Rightarrow> MS3Selections list option \<Rightarrow>
   (int \<times> MS3TraceList option \<times> (nat \<times> nat) list) option" where
  "mstl3_readbuffer_selection env init_ok ppmstl buffer splitversion flags tolerance selections =
     (case ppmstl of
        None \<Rightarrow> Some (MS_GENERROR, None, [])
      | Some mstl \<Rightarrow>
          (case (case mstl of None \<Rightarrow> if init_ok then Some mstl3_init else None | Some st \<Rightarrow> Some st) of
             None \<Rightarrow> Some (MS_GENERROR, None, [])
           | Some st \<Rightarrow>
               map_option (\<lambda>(code, st, filled). (code, Some st, filled))
                 (read_loop env buffer splitversion flags tolerance selections st None 0 0 [])))"

definition mstl3_readbuffer ::
  "read_env \<Rightarrow> bool \<Rightarrow> MS3TraceList option option \<Rightarrow> u8 list \<Rightarrow> u8 \<Rightarrow> u32 \<Rightarrow> MS3Tolerance option \<Rightarrow>
   (int \<times> MS3TraceList option \<times> (nat \<times> nat) list) option" where
  "mstl3_readbuffer env init_ok ppmstl buffer splitversion flags tolerance =
     mstl3_readbuffer_selection env init_ok ppmstl buffer splitversion flags tolerance None"

subsection \<open>The list stays well-formed\<close>

lemma add_read_built:
  assumes "add_read env offset splitversion flags tolerance st m = Some (Next st' m' added ptrs)" "built (splitversion \<noteq> 0) st n"
  shows "added \<and> built (splitversion \<noteq> 0) st' (n + msr_samplecnt m')"
proof -
  obtain p where "mstl3_addmsr_impl (re_trace_alloc env offset) (re_leap env) (re_now env offset) (Some st) (Some m)
      (flags AND MSF_RECORDLIST \<noteq> 0) splitversion True flags tolerance = Some (Some st', Some p)"
    using assms(1) by (auto simp: add_read_def mstl3_addmsr_recordptr_def split: if_splits option.splits sum.splits fault.splits prod.splits)
  from built_add [OF assms(2) refl this] show ?thesis using add_read_next [OF assms(1)] by simp
qed

text \<open>A record that parses at some place of the buffer.\<close>

definition parses_in :: "read_env \<Rightarrow> u8 list \<Rightarrow> MS3Record \<Rightarrow> bool" where
  "parses_in env buffer m \<longleftrightarrow>
     (\<exists>offset msr flags. msr3_parse (re_host env) (re_addr env + offset) (re_alloc env offset) (re_unpack2 env)
        (Some (drop offset buffer)) (Some msr) flags = Inr (0, Some m))"

lemma deferred_samplecnt: "deferred_unpack env offset selecting flags m = Inr (Some m') \<Longrightarrow> msr_samplecnt m' = msr_samplecnt m"
  by (auto simp: deferred_unpack_def split: if_splits sum.splits fault.splits prod.splits dest: unpack_data_samplecnt)

text \<open>A record that is skipped leaves the list, one that is added counts, and an error code is negative.\<close>

lemma read_one_built:
  assumes "read_one env buffer splitversion flags tolerance selections st msr offset = Some (Next st' m added ptrs)"
    and "built (splitversion \<noteq> 0) st n"
  shows "if added then \<exists>m0. parses_in env buffer m0 \<and> built (splitversion \<noteq> 0) st' (n + msr_samplecnt m0) else st' = st"
proof -
  define pflags where "pflags = (if flags AND MSF_UNPACKDATA \<noteq> 0 \<and> selections \<noteq> None then flags AND NOT MSF_UNPACKDATA else flags)"
  have run: "read_one env buffer splitversion flags tolerance selections st msr offset = Some (Next st' m added ptrs)"
    "pflags = pflags" using assms(1) by simp_all
  then obtain m0 where m0: "msr3_parse (re_host env) (re_addr env + offset) (re_alloc env offset) (re_unpack2 env) (Some (drop offset buffer))
      (Some msr) pflags = Inr (0, Some m0)"
    and step: "selected env selections m0 = Some False \<and> \<not> added \<and> st' = st \<or>
      (\<exists>m1. deferred_unpack env offset (selections \<noteq> None) flags m0 = Inr (Some m1) \<and>
         add_read env offset splitversion flags tolerance st m1 = Some (Next st' m added ptrs))"
    unfolding read_one_def Let_def pflags_def [symmetric]
    by (auto split: if_splits option.splits sum.splits prod.splits bool.splits)
  have "parses_in env buffer m0" using m0 unfolding parses_in_def by blast
  then show ?thesis using step add_read_built [OF _ assms(2)] add_read_next deferred_samplecnt by metis
qed

lemma read_one_fails:
  "read_one env buffer splitversion flags tolerance selections st msr offset = Some (Fail code st') \<Longrightarrow> code < 0"
  by (auto simp: read_one_def add_read_def Let_def split: if_splits option.splits sum.splits prod.splits bool.splits fault.splits)

lemma read_loop_built:
  assumes "read_loop env buffer splitversion flags tolerance selections st msr offset reccount filled = Some (code, st', filled')"
    and "built (splitversion \<noteq> 0) st n" "0 \<le> code"
  shows "\<exists>ms. code = reccount + int (length ms) \<and> list_all (parses_in env buffer) ms \<and> built (splitversion \<noteq> 0) st' (n + (\<Sum>m\<leftarrow>ms. msr_samplecnt m))"
  using assms
proof (induction env buffer splitversion flags tolerance selections st msr offset reccount filled arbitrary: n rule: read_loop.induct)
  case (1 env buffer splitversion flags tolerance selections st msr offset reccount filled)
  show ?case
  proof (cases "length buffer - offset > MINRECLEN")
    case False
    then have "code = reccount \<and> st' = st" using "1.prems"(1) by (subst (asm) read_loop.simps) auto
    then show ?thesis using "1.prems"(2) by (intro exI [of _ "[]"]) simp
  next
    case more: True
    note run = "1.prems"(1) [unfolded read_loop.simps [of env buffer splitversion flags tolerance selections st msr offset reccount filled] if_P [OF more]]
    from run obtain step where step: "read_one env buffer splitversion flags tolerance selections st msr offset = Some step"
      by (cases "read_one env buffer splitversion flags tolerance selections st msr offset") auto
    show ?thesis
    proof (cases step)
      case (Fail e s)
      then show ?thesis using run step read_one_fails "1.prems"(3) by fastforce
    next
      case Break
      then show ?thesis using run step "1.prems"(2) by (intro exI [of _ "[]"]) simp
    next
      case (Next s m added ptrs)
      show ?thesis
      proof (cases added)
        case True
        obtain m0 where m0: "parses_in env buffer m0" "built (splitversion \<noteq> 0) s (n + msr_samplecnt m0)"
          using read_one_built [OF step [unfolded Next] "1.prems"(2)] True by auto
        obtain ms where "code = reccount + 1 + int (length ms)" "list_all (parses_in env buffer) ms"
            "built (splitversion \<noteq> 0) st' (n + msr_samplecnt m0 + (\<Sum>m\<leftarrow>ms. msr_samplecnt m))"
          using "1.IH" [OF more step Next _ m0(2) "1.prems"(3)] run step Next True by auto
        then show ?thesis using m0(1) by (intro exI [of _ "m0 # ms"]) (simp add: add.assoc)
      next
        case False
        then have "s = st" using read_one_built [OF step [unfolded Next] "1.prems"(2)] by simp
        then show ?thesis using "1.IH" [OF more step Next _ _ "1.prems"(3)] "1.prems"(2) run step Next False by simp
      qed
    qed
  qed
qed

subsection \<open>A record in front of others\<close>

lemma peek_front: "i + k \<le> length rec \<Longrightarrow> peek i k (rec @ rest) = peek i k rec"
  by (simp add: peek_def)

lemma fields_front:
  "off + 2 \<le> length rec \<Longrightarrow> u16_at h (rec @ rest) off = u16_at h rec off"
  "off + 4 \<le> length rec \<Longrightarrow> u32_at h (rec @ rest) off = u32_at h rec off"
  "off + 8 \<le> length rec \<Longrightarrow> u64_at h (rec @ rest) off = u64_at h rec off"
  by (simp_all add: u16_at_def u32_at_def u64_at_def peek_front)

lemma valid_front: "40 \<le> length rec \<Longrightarrow> MS3_ISVALIDHEADER (rec @ rest) = MS3_ISVALIDHEADER rec"
  by (cases "rec = []") (simp_all add: MS3_ISVALIDHEADER_def nth_append)

lemma detect_front:
  assumes "ms3_detect h (Some rec) = Inr (n, Some 3)"
  shows "40 \<le> length rec" "MS3_ISVALIDHEADER rec" "ms3_detect h (Some (rec @ rest)) = Inr (n, Some 3)"
proof -
  show len: "40 \<le> length rec" and valid: "MS3_ISVALIDHEADER rec"
    using assms by (auto simp: ms3_detect_def Let_def split: if_splits sum.splits fault.splits option.splits)
  show "ms3_detect h (Some (rec @ rest)) = Inr (n, Some 3)"
    using assms len valid by (simp add: ms3_detect_def Let_def valid_front fields_front nth_append)
qed

lemma unpack3_header_front:
  assumes "40 + unat (rec ! 33) + unat (HO2u (u16_at h rec 34) (ms_bigendianhost h)) \<le> length rec"
  shows "(unpack3_header h (rec @ rest) n t (MS3Record_INITIALIZER\<lparr>msr_datasamples := x, msr_datasize := y\<rparr>))
           \<lparr>msr_datasamples := None, msr_datasize := 0, msr_numsamples := 0\<rparr> =
         (unpack3_header h rec n t MS3Record_INITIALIZER)
           \<lparr>msr_datasamples := None, msr_datasize := 0, msr_numsamples := 0, msr_record := Some (rec @ rest)\<rparr>"
  using assms by (intro MS3Record.equality) (simp_all add: unpack3_header_def Let_def fields_front nth_append peek_front)

text \<open>
  Without its samples a record unpacks to the same wherever it stands and whatever record
  the pointer held before, with its checksum or without.
\<close>

lemma unpack_front:
  assumes "msr3_unpack_mseed3 h addr al (Some rec) (int (length rec)) (Some None) flags0 = Inr m"
    and "flags AND MSF_UNPACKDATA = 0" "record_ok al'" "extra_ok al'"
    and "flags0 AND MSF_UNPACKDATA = 0" "flags0 AND MSF_VALIDATECRC \<noteq> 0 \<or> flags AND MSF_VALIDATECRC = 0"
  shows "msr3_unpack_mseed3 h addr' al' (Some (rec @ rest)) (int (length rec)) (Some prev) flags =
    Inr (m\<lparr>msr_record := Some (rec @ rest)\<rparr>)"
proof -
  have len: "40 \<le> length rec" "length rec \<le> MAXRECLEN" and valid: "MS3_ISVALIDHEADER rec"
    using assms(1) by (auto simp: msr3_unpack_mseed3_def split: if_splits)
  have n: "int (length rec) < 2 ^ 31" using len(2) by simp
  have "poke 28 (replicate 4 0) (rec @ rest) = poke 28 (replicate 4 0) rec @ rest" using len(1) by (simp add: poke_def)
  then have crc: "record_crc h addr' (rec @ rest) (int (length rec)) = record_crc h addr' rec (int (length rec))"
    using record_crc_value [OF len(1) n, of "rec @ rest"] record_crc_value [OF len(1) n, of rec] len(1) by simp
  define t where "t = ms_time2nstime (uint (HO2u (u16_at h rec 8) (ms_bigendianhost h))) (uint (HO2u (u16_at h rec 10) (ms_bigendianhost h)))
    (uint (rec ! 12)) (uint (rec ! 13)) (uint (rec ! 14)) (uint (HO4u (u32_at h rec 4) (ms_bigendianhost h)))"
  have "record_crc h addr rec (int (length rec)) = record_crc h addr' rec (int (length rec))"
    using record_crc_value [OF len(1) n, of rec] by simp
  with assms(1,5,6) len valid obtain start where ok: "unat (rec ! 33) < 64"
    "flags AND MSF_VALIDATECRC \<noteq> 0 \<Longrightarrow> record_crc h addr' rec (int (length rec)) = Inr (HO4u (u32_at h rec 28) (ms_bigendianhost h))"
    "t = Inr start" "start \<noteq> NSTERROR"
    "40 + uint (rec ! 33) + uint (HO2u (u16_at h rec 34) (ms_bigendianhost h)) \<le> int (length rec)"
    "40 + uint (rec ! 33) + uint (HO2u (u16_at h rec 34) (ms_bigendianhost h)) +
       uint (HO4u (u32_at h rec 36) (ms_bigendianhost h)) \<le> int (length rec)"
    and m: "m = (unpack3_header h rec (int (length rec)) start MS3Record_INITIALIZER)
       \<lparr>msr_datasamples := None, msr_datasize := 0, msr_numsamples := 0\<rparr>"
    by (auto simp: msr3_unpack_mseed3_def Let_def t_def msr3_init_def split: if_splits sum.splits option.splits)
  obtain x y where init: "msr3_init (record_ok al') prev = Some (MS3Record_INITIALIZER\<lparr>msr_datasamples := x, msr_datasize := y\<rparr>)"
  proof (cases prev)
    case None
    show ?thesis by (rule that [of 0 None]) (use None assms(3) in \<open>simp add: msr3_init_def MS3Record_INITIALIZER_def\<close>)
  next
    case (Some p)
    then show ?thesis by (intro that) (simp add: msr3_init_def)
  qed
  have head: "40 + unat (rec ! 33) + unat (HO2u (u16_at h rec 34) (ms_bigendianhost h)) \<le> length rec"
    using ok(5) unfolding uint_nat by linarith
  have bytes: "(rec @ rest) ! i = rec ! i" if "i < 40" for i using that len(1) by (simp add: nth_append)
  show ?thesis
    using assms(2,4) len valid crc ok init m unpack3_header_front [OF head, where rest = rest and n = "int (length rec)" and t = start and x = x and y = y]
    by (simp add: msr3_unpack_mseed3_def Let_def valid_front fields_front bytes t_def)
qed

subsection \<open>Records added one after the other\<close>

text \<open>
  What a read is meant to do: add records at their places, up to the first that cannot be
  added, and count them.
\<close>

fun add_records ::
  "read_env \<Rightarrow> u8 \<Rightarrow> u32 \<Rightarrow> MS3Tolerance option \<Rightarrow> (nat \<times> MS3Record) list \<Rightarrow> MS3TraceList \<Rightarrow> int \<Rightarrow> (nat \<times> nat) list \<Rightarrow>
   (int \<times> MS3TraceList \<times> (nat \<times> nat) list) option" where
  "add_records env splitversion flags tolerance [] st reccount filled = Some (reccount, st, filled)"
| "add_records env splitversion flags tolerance ((offset, m) # xs) st reccount filled =
     (case add_read env offset splitversion flags tolerance st m of
        None \<Rightarrow> None
      | Some (Fail code st) \<Rightarrow> Some (code, st, filled)
      | Some Break \<Rightarrow> Some (reccount, st, filled)
      | Some (Next st _ _ ptrs) \<Rightarrow> add_records env splitversion flags tolerance xs st (reccount + 1) (filled @ ptrs))"

text \<open>A record of a buffer, and the records with their places; each points into the buffer.\<close>

definition holds_record :: "byteorder \<Rightarrow> u32 \<Rightarrow> u8 list \<Rightarrow> MS3Record \<Rightarrow> bool" where
  "holds_record h flags rec m \<longleftrightarrow>
     MINRECLEN < length rec \<and> ms3_detect h (Some rec) = Inr (int (length rec), Some 3) \<and>
     (\<exists>addr al. msr3_unpack_mseed3 h addr al (Some rec) (int (length rec)) (Some None) flags = Inr m)"

primrec in_buffer :: "u8 list \<Rightarrow> nat \<Rightarrow> MS3Record list \<Rightarrow> (nat \<times> MS3Record) list" where
  "in_buffer buffer offset [] = []"
| "in_buffer buffer offset (m # ms) =
     (offset, m\<lparr>msr_record := Some (drop offset buffer)\<rparr>) # in_buffer buffer (offset + nat (msr_reclen m)) ms"

lemma parse_front:
  assumes "holds_record h flags rec m" "flags AND MSF_UNPACKDATA = 0" "record_ok al" "extra_ok al"
  shows "msr3_parse h addr al unpack2 (Some (rec @ rest)) (Some prev) flags = Inr (0, Some (m\<lparr>msr_record := Some (rec @ rest)\<rparr>))"
proof -
  obtain addr0 al0 where m: "msr3_unpack_mseed3 h addr0 al0 (Some rec) (int (length rec)) (Some None) flags = Inr m"
    and d: "ms3_detect h (Some rec) = Inr (int (length rec), Some 3)" using assms(1) by (auto simp: holds_record_def)
  have "length rec \<le> MAXRECLEN" using m by (auto simp: msr3_unpack_mseed3_def split: if_splits)
  then show ?thesis
    using detect_front [OF d] unpack_front [OF m assms(2-4,2)] by (auto simp: msr3_parse_def Let_def)
qed

lemma read_one_front:
  assumes "holds_record (re_host env) flags rec m" "flags AND MSF_UNPACKDATA = 0" "record_ok (re_alloc env offset)" "extra_ok (re_alloc env offset)"
    and "drop offset buffer = rec @ rest" "m' = m\<lparr>msr_record := Some (rec @ rest)\<rparr>"
  shows "read_one env buffer splitversion flags tolerance selections st msr offset =
    (case selected env selections m' of
       None \<Rightarrow> None
     | Some False \<Rightarrow> Some (Next st m' False [])
     | Some True \<Rightarrow> add_read env offset splitversion flags tolerance st m')"
  using assms(2) parse_front [OF assms(1-4)]
  by (simp add: read_one_def assms(5,6) deferred_unpack_def Let_def split: option.split bool.split)

lemma read_loop_records:
  assumes "list_all2 (holds_record (re_host env) flags) recs ms" "flags AND MSF_UNPACKDATA = 0"
    and "\<And>offset. record_ok (re_alloc env offset) \<and> extra_ok (re_alloc env offset)"
    and "drop offset buffer = concat recs @ rest" "length rest \<le> MINRECLEN"
    and "\<forall>(offset, m)\<in>set (in_buffer buffer offset ms). selected env selections m \<noteq> None"
  shows "read_loop env buffer splitversion flags tolerance selections st msr offset reccount filled =
    add_records env splitversion flags tolerance
      (filter (\<lambda>(offset, m). selected env selections m = Some True) (in_buffer buffer offset ms)) st reccount filled"
  using assms(1,4,6)
proof (induction recs ms arbitrary: st msr offset reccount filled rule: list_all2_induct)
  case Nil
  then have "length buffer - offset \<le> MINRECLEN" using assms(5) by (metis append_Nil concat.simps(1) length_drop)
  then show ?case by (simp add: read_loop.simps)
next
  case (Cons rec recs m ms)
  define m' where "m' = m\<lparr>msr_record := Some (drop offset buffer)\<rparr>"
  have len: "msr_reclen m = int (length rec)" "MINRECLEN < length rec"
    using Cons.hyps(1) by (auto simp: holds_record_def dest: unpack3_reclen)
  have drop: "drop offset buffer = rec @ concat recs @ rest" using Cons.prems(1) by simp
  then have "drop (length rec) (drop offset buffer) = concat recs @ rest" by simp
  then have next_drop: "drop (offset + length rec) buffer = concat recs @ rest" by (simp add: add.commute)
  have more: "length buffer - offset > MINRECLEN" using len(2) arg_cong [OF drop, of length] by simp
  have al: "record_ok (re_alloc env offset)" "extra_ok (re_alloc env offset)" using assms(3) by auto
  note one = read_one_front [OF Cons.hyps(1) assms(2) al drop, of m', unfolded m'_def drop, OF refl, folded drop, folded m'_def]
  note rest = Cons.IH [OF next_drop]
  have sel: "selected env selections m' \<noteq> None"
    "\<forall>(offset, m)\<in>set (in_buffer buffer (offset + length rec) ms). selected env selections m \<noteq> None"
    using Cons.prems(2) len(1) by (auto simp: m'_def)
  have kept: "msr_reclen m' = int (length rec)" using len(1) by (simp add: m'_def)
  have placed: "in_buffer buffer offset (m # ms) = (offset, m') # in_buffer buffer (offset + length rec) ms"
    using len(1) by (simp add: m'_def)
  show ?case
  proof (cases "selected env selections m' = Some True")
    case True
    then show ?thesis
      using more rest [OF sel(2)] kept unfolding placed
      by (subst read_loop.simps) (auto simp: one split: option.split read_step.split dest!: add_read_next)
  next
    case False
    then have "selected env selections m' = Some False" using sel(1) by (cases "selected env selections m'") auto
    then show ?thesis using more rest [OF sel(2)] kept unfolding placed by (subst read_loop.simps) (simp add: one)
  qed
qed

subsection \<open>Properties\<close>

text \<open>
  C5. Whatever bytes a buffer holds, a read that gives a count has added that many records
  that parse in the buffer and left the trace list well-formed: it covers exactly the
  samples it had and those of the records added, with any selections and with any unpacking
  of version 2 records. The loop ends for every buffer.
\<close>

theorem readbuffer_keeps_trace_list:
  assumes "built (splitversion \<noteq> 0) st n" "0 \<le> code"
    and "mstl3_readbuffer_selection env init_ok (Some (Some st)) buffer splitversion flags tolerance selections = Some (code, Some st', filled)"
  shows "\<exists>ms ns sl. code = int (length ms) \<and> list_all (parses_in env buffer) ms \<and> trace_ok (splitversion \<noteq> 0) st' ns sl \<and>
    list_samples st' ns sl = n + (\<Sum>m\<leftarrow>ms. msr_samplecnt m)"
proof -
  have "read_loop env buffer splitversion flags tolerance selections st None 0 0 [] = Some (code, st', filled)"
    using assms(3) by (auto simp: mstl3_readbuffer_selection_def)
  from read_loop_built [OF this assms(1,2)] obtain ms where ms: "code = int (length ms)" "list_all (parses_in env buffer) ms"
    "built (splitversion \<noteq> 0) st' (n + (\<Sum>m\<leftarrow>ms. msr_samplecnt m))" by auto
  then show ?thesis using built_ok [OF ms(3)] by blast
qed

text \<open>
  C4. Reading a buffer of version 3 records without unpacking their samples is adding the
  headers of the records that the selections match, one after the other at their places,
  and counting them. Up to 40 bytes behind the last record are not looked at.
\<close>

theorem readbuffer_adds_selected:
  assumes "list_all2 (holds_record (re_host env) flags) recs ms" "flags AND MSF_UNPACKDATA = 0"
    and "\<And>offset. record_ok (re_alloc env offset) \<and> extra_ok (re_alloc env offset)"
    and "buffer = concat recs @ rest" "length rest \<le> MINRECLEN"
    and "\<forall>(offset, m)\<in>set (in_buffer buffer 0 ms). selected env selections m \<noteq> None"
  shows "mstl3_readbuffer_selection env init_ok (Some (Some st)) buffer splitversion flags tolerance selections =
    map_option (\<lambda>(code, st, filled). (code, Some st, filled))
      (add_records env splitversion flags tolerance
        (filter (\<lambda>(offset, m). selected env selections m = Some True) (in_buffer buffer 0 ms)) st 0 [])"
  using read_loop_records [OF assms(1-3) _ assms(5,6), of splitversion tolerance st None 0 "[]"] assms(4)
  by (simp add: mstl3_readbuffer_selection_def)

subsection \<open>Two records of one channel\<close>

text \<open>Records of one sample, a second apart, and a selection whose window starts at the second one.\<close>

definition short_record :: "u8 \<Rightarrow> u8 list" where
  "short_record s =
     [77, 83, 3, 0, 0, 0, 0, 0, 178, 7, 1, 0, 0, 0, s, 3, 0, 0, 0, 0, 0, 0, 240, 63, 1, 0, 0, 0, 0, 0, 0, 0, 1, 1, 0, 0, 4, 0, 0, 0,
      65, 7, 0, 0, 0]"

definition short_header :: "u8 \<Rightarrow> MS3Record" where
  "short_header s = MS3Record_INITIALIZER
     \<lparr>msr_record := Some (short_record s), msr_reclen := 45, msr_formatversion := 3, msr_sid := [65], msr_starttime := uint s * 1000000000,
      msr_encoding := 3, msr_samprate := f_one, msr_samplecnt := 1, msr_pubversion := 1, msr_datalength := 4\<rparr>"

definition short_env :: read_env where
  "short_env = \<lparr>re_host = LittleEndian, re_addr = 0, re_unpack2 = (\<lambda>h addr al mem reclen msr flags. Inl (ReturnError MS_GENERROR)),
     re_alloc = (\<lambda>_. Unpack3.all_ok), re_trace_alloc = (\<lambda>_. TraceInvariant.all_ok), re_now = (\<lambda>_. 0), re_leap = []\<rparr>"

definition from_second :: "MS3Selections list" where
  "from_second = [\<lparr>sidpattern = ''?'', timewindows = [\<lparr>st_starttime = 1000000000, st_endtime = NSTUNSET\<rparr>], sl_pubversion = 0\<rparr>]"

definition two_short :: "u8 list" where
  "two_short = concat [short_record 0, short_record 1] @ replicate 40 0"

definition two_selected :: "(nat \<times> MS3Record) list" where
  "two_selected = filter (\<lambda>(offset, m). selected short_env (Some from_second) m = Some True)
     (in_buffer two_short 0 [short_header 0, short_header 1])"

lemma short_header_fields:
  "HO2u (u16_at LittleEndian (short_record s) 8) False = 1970" "HO2u (u16_at LittleEndian (short_record s) 10) False = 1"
  "HO2u (u16_at LittleEndian (short_record s) 34) False = 0" "HO4u (u32_at LittleEndian (short_record s) 4) False = 0"
  "HO4u (u32_at LittleEndian (short_record s) 24) False = 1" "HO4u (u32_at LittleEndian (short_record s) 28) False = 0"
  "HO4u (u32_at LittleEndian (short_record s) 36) False = 4" "HO8f (u64_at LittleEndian (short_record s) 16) False = f_one"
  by code_simp+

lemma short_bytes:
  "length (short_record s) = 45" "short_record s ! 12 = 0" "short_record s ! 13 = 0" "short_record s ! 14 = s" "short_record s ! 33 = 1"
  "short_record s ! 15 = 3" "short_record s ! 2 = 3" "short_record s ! 3 = 0" "short_record s ! 32 = 1"
  "peek 40 (Suc 0) (short_record s) = [65]"
  by (simp_all add: short_record_def peek_def)

lemma short_holds:
  assumes "s = 0 \<or> s = 1"
  shows "holds_record LittleEndian 0 (short_record s) (short_header s)"
proof -
  have "ms_time2nstime 1970 1 0 0 0 0 = Inr 0" "ms_time2nstime 1970 1 0 0 1 0 = Inr 1000000000" by code_simp+
  moreover have "MS3_ISVALIDHEADER (short_record s)" "ms3_detect LittleEndian (Some (short_record s)) = Inr (45, Some 3)"
    using assms by (elim disjE; simp; code_simp)+
  ultimately have "msr3_unpack_mseed3 LittleEndian 0 Unpack3.all_ok (Some (short_record s)) 45 (Some None) 0 = Inr (short_header s)"
    using assms by (auto simp: msr3_unpack_mseed3_def Let_def short_bytes short_header_fields msr3_init_def Unpack3.all_ok_def NSTERROR_def
      ms_bigendianhost_iff unpack3_header_def short_header_def MS3Record_INITIALIZER_def)
  then show ?thesis
    using \<open>ms3_detect LittleEndian (Some (short_record s)) = Inr (45, Some 3)\<close> unfolding holds_record_def short_bytes(1)
    by (intro conjI exI [of _ 0] exI [of _ Unpack3.all_ok]) simp_all
qed

lemma two_short_added:
  "do { (code, st, filled) \<leftarrow> add_records short_env 0 0 None two_selected mstl3_init 0 [];
        s \<leftarrow> tl_segs st 1;
        Some (code, filled, ts_starttime s, ts_samplecnt s) } = Some (1, [], 1000000000, 1)"
  by code_simp

lemma two_short_setting:
  "list_all2 (holds_record (re_host short_env) 0) [short_record 0, short_record 1] [short_header 0, short_header 1]"
  "record_ok (re_alloc short_env offset) \<and> extra_ok (re_alloc short_env offset)"
  "\<forall>(offset, m)\<in>set (in_buffer two_short 0 [short_header 0, short_header 1]). selected short_env (Some from_second) m \<noteq> None"
proof -
  show "list_all2 (holds_record (re_host short_env) 0) [short_record 0, short_record 1] [short_header 0, short_header 1]"
    using short_holds [of 0] short_holds [of 1] by (simp add: short_env_def)
  show "record_ok (re_alloc short_env offset) \<and> extra_ok (re_alloc short_env offset)" by (simp add: short_env_def Unpack3.all_ok_def)
  show "\<forall>(offset, m)\<in>set (in_buffer two_short 0 [short_header 0, short_header 1]). selected short_env (Some from_second) m \<noteq> None"
    by code_simp
qed

lemma added_parts:
  "do { (code, st, filled) \<leftarrow> x; s \<leftarrow> tl_segs st p; Some (code, filled, ts_starttime s, ts_samplecnt s) } = Some (c, f, t, n) \<Longrightarrow>
   \<exists>st s. x = Some (c, st, f) \<and> tl_segs st p = Some s \<and> ts_starttime s = t \<and> ts_samplecnt s = n"
  by (auto elim!: bind_someE)

lemma two_short_result:
  "\<exists>st s. add_records short_env 0 0 None two_selected mstl3_init 0 [] = Some (1, st, []) \<and>
     tl_segs st 1 = Some s \<and> ts_starttime s = 1000000000 \<and> ts_samplecnt s = 1"
  by (rule added_parts [OF two_short_added])

theorem readbuffer_keeps_trace_list_witness:
  "\<exists>st ms ns sl. mstl3_readbuffer_selection short_env True (Some (Some mstl3_init)) two_short 0 0 None (Some from_second) = Some (1, Some st, []) \<and>
    length ms = 1 \<and> list_all (parses_in short_env two_short) ms \<and> trace_ok False st ns sl \<and> list_samples st ns sl = (\<Sum>m\<leftarrow>ms. msr_samplecnt m)"
proof -
  obtain st where "add_records short_env 0 0 None two_selected mstl3_init 0 [] = Some (1, st, [])" using two_short_result by blast
  then have read: "mstl3_readbuffer_selection short_env True (Some (Some mstl3_init)) two_short 0 0 None (Some from_second) = Some (1, Some st, [])"
    using read_loop_records [OF two_short_setting(1) _ two_short_setting(2) _ _ two_short_setting(3), of "replicate 40 0" 0 None mstl3_init None 0 "[]", folded two_selected_def]
    by (simp add: mstl3_readbuffer_selection_def) (simp add: two_short_def)
  have "built ((0 :: u8) \<noteq> 0) mstl3_init 0" using built_init [of False] by simp
  then obtain ms ns sl where "(1 :: int) = int (length ms)" "list_all (parses_in short_env two_short) ms" "trace_ok ((0 :: u8) \<noteq> 0) st ns sl"
    "list_samples st ns sl = 0 + (\<Sum>m\<leftarrow>ms. msr_samplecnt m)"
    using readbuffer_keeps_trace_list [OF _ _ read] by (metis zero_le_one)
  with read show ?thesis by (intro exI [of _ st] exI [of _ ms] exI [of _ ns] exI [of _ sl]) simp
qed

theorem readbuffer_adds_selected_witness:
  "\<exists>st s. mstl3_readbuffer_selection short_env True (Some (Some mstl3_init)) two_short 0 0 None (Some from_second) = Some (1, Some st, []) \<and>
    tl_segs st 1 = Some s \<and> ts_starttime s = 1000000000 \<and> ts_samplecnt s = 1"
proof -
  obtain st s where "add_records short_env 0 0 None two_selected mstl3_init 0 [] = Some (1, st, [])" "tl_segs st 1 = Some s" "ts_starttime s = 1000000000" "ts_samplecnt s = 1"
    using two_short_result by blast
  with readbuffer_adds_selected [OF two_short_setting(1) _ two_short_setting(2) two_short_def _ two_short_setting(3),
      of True mstl3_init 0 None, folded two_selected_def]
  show ?thesis by (intro exI [of _ st] exI [of _ s]) simp
qed

end
