(* ===== verification/ReadPacked.thy ===== *)
theory ReadPacked
  imports ReadBuffer
begin

text \<open>
  Reading back what packing wrote: the records that the generator of version 3 records
  hands out, put one behind the other in a buffer and read into a trace list.
\<close>

subsection \<open>Counts and samples\<close>


lemma add_records_built:
  assumes "add_records env splitversion flags tolerance xs st reccount filled = Some (code, st', filled')" "0 \<le> code"
    and "built (splitversion \<noteq> 0) st n"
  shows "code = reccount + int (length xs) \<and> built (splitversion \<noteq> 0) st' (n + (\<Sum>(offset, m)\<leftarrow>xs. msr_samplecnt m))"
  using assms
proof (induction env splitversion flags tolerance xs st reccount filled arbitrary: n rule: add_records.induct)
  case (2 env splitversion flags tolerance offset m xs st reccount filled)
  have fails: "code' < 0" if "add_read env offset splitversion flags tolerance st m = Some (Fail code' st'')" for code' st''
    using that by (auto simp: add_read_def split: if_splits option.splits sum.splits prod.splits fault.splits)
  have nobreak: "add_read env offset splitversion flags tolerance st m \<noteq> Some Break"
    by (auto simp: add_read_def split: if_splits option.splits sum.splits prod.splits fault.splits)
  obtain s m' added ptrs where a: "add_read env offset splitversion flags tolerance st m = Some (Next s m' added ptrs)"
    and rest: "add_records env splitversion flags tolerance xs s (reccount + 1) (filled @ ptrs) = Some (code, st', filled')"
    using "2.prems"(1,2) nobreak by (auto split: option.splits read_step.splits dest: fails)
  have "built (splitversion \<noteq> 0) s (n + msr_samplecnt m)"
    using add_read_built [OF a "2.prems"(3)] add_read_next [OF a] by simp
  from "2.IH" [OF a refl rest "2.prems"(2) this] show ?case by (simp add: add.assoc)
qed simp

lemma in_buffer_length: "length (in_buffer buffer offset ms) = length ms"
  by (induction ms arbitrary: offset) simp_all

lemma in_buffer_samples: "(\<Sum>(offset, m)\<leftarrow>in_buffer buffer offset ms. msr_samplecnt m) = (\<Sum>m\<leftarrow>ms. msr_samplecnt m)"
  by (induction ms arbitrary: offset) simp_all

text \<open>The records that packing gives, as a buffer holds them.\<close>

lemma unpack3_sid_fits:
  assumes "msr3_unpack_mseed3 h addr al (Some mem) reclen ppmsr flags = Inr m" "flags AND MSF_UNPACKDATA = 0"
  shows "40 + int (length (msr_sid m)) \<le> reclen"
proof -
  have "length (takeWhile (\<lambda>b. b \<noteq> 0) (peek 40 (unat (mem ! 33)) mem)) \<le> unat (mem ! 33)"
    using length_takeWhile_le [of "\<lambda>b. b \<noteq> 0" "peek 40 (unat (mem ! 33)) mem"] by (simp add: peek_def)
  moreover obtain start m0 where m: "m = (unpack3_header h mem reclen start m0)\<lparr>msr_datasamples := None, msr_datasize := 0, msr_numsamples := 0\<rparr>"
    and "40 + uint (mem ! 33) + uint (HO2u (u16_at h mem 34) (ms_bigendianhost h)) \<le> reclen"
    using assms by (auto simp: msr3_unpack_mseed3_def Let_def split: if_splits sum.splits option.splits)
  then have "40 + uint (mem ! 33) \<le> reclen" using uint_ge_0 [of "HO2u (u16_at h mem 34) (ms_bigendianhost h)"] by linarith
  moreover have sid: "msr_sid m = takeWhile (\<lambda>b. b \<noteq> 0) (peek 40 (unat (mem ! 33)) mem)" by (simp add: m unpack3_header_def Let_def)
  ultimately show ?thesis unfolding uint_nat sid by linarith
qed

lemma record_gives_holds:
  assumes "record_gives h addr al m time rec ys" "flags AND MSF_UNPACKDATA = 0" "record_ok al" "extra_ok al" "msr_sid m \<noteq> []"
  shows "\<exists>m'. holds_record h flags rec m' \<and> same_header m m' \<and> msr_samplecnt m' = int (length ys)"
proof -
  obtain m' where d: "ms3_detect h (Some rec) = Inr (int (length rec), Some 3)"
    and run: "msr3_unpack_mseed3 h addr al (Some rec) (int (length rec)) (Some None) MSF_VALIDATECRC = Inr m'"
    and m': "same_header m m'" "msr_samplecnt m' = int (length ys)"
    using assms(1) by (auto simp: record_gives_def)
  have "msr_sid m' \<noteq> []" using m'(1) assms(5) by (simp add: same_header_def)
  moreover have "40 + int (length (msr_sid m')) \<le> int (length rec)" by (rule unpack3_sid_fits [OF run]) simp
  ultimately have "MINRECLEN < length rec" by (cases "msr_sid m'") auto
  moreover have "msr3_unpack_mseed3 h addr al (Some rec) (int (length rec)) (Some None) flags = Inr (m'\<lparr>msr_record := Some rec\<rparr>)"
    using unpack_front [OF run assms(2-4), of addr "[]" None] by simp
  ultimately have "holds_record h flags rec (m'\<lparr>msr_record := Some rec\<rparr>)" using d unfolding holds_record_def by blast
  moreover have "same_header m (m'\<lparr>msr_record := Some rec\<rparr>)" using m'(1) by (simp add: same_header_def)
  ultimately show ?thesis using m'(2) by (intro exI [of _ "m'\<lparr>msr_record := Some rec\<rparr>"]) simp
qed

lemma records_give_hold:
  assumes "records_give h addr al lslist m k recs xs" "flags AND MSF_UNPACKDATA = 0" "record_ok al" "extra_ok al" "msr_sid m \<noteq> []"
  shows "\<exists>ms. list_all2 (holds_record h flags) recs ms \<and> list_all (same_header m) ms \<and>
    (\<Sum>m'\<leftarrow>ms. msr_samplecnt m') = int (length xs)"
  using assms(1)
proof (induction recs arbitrary: k xs)
  case (Cons rec recs)
  then obtain n time where n: "n \<le> length xs" "record_gives h addr al m time rec (take n xs)"
    "records_give h addr al lslist m (k + n) recs (drop n xs)" by auto
  obtain m' where m': "holds_record h flags rec m'" "same_header m m'" "msr_samplecnt m' = int (length (take n xs))"
    using record_gives_holds [OF n(2) assms(2-5)] by blast
  obtain ms where "list_all2 (holds_record h flags) recs ms" "list_all (same_header m) ms"
    "(\<Sum>m'\<leftarrow>ms. msr_samplecnt m') = int (length (drop n xs))" using Cons.IH [OF n(3)] by blast
  then show ?case using m' n(1) by (intro exI [of _ "m' # ms"]) simp
qed simp

subsection \<open>Properties\<close>

text \<open>
  C3. What packing writes can be read back: the records of a packed piece of integers, one
  behind the other in a buffer, all parse, and reading the buffer is adding their headers
  in order. Each has the identifier, rate, encoding and version of the source, their counts
  sum to the number of samples, and if the additions succeed, the call returns the number of records and
  the list is well-formed and covers exactly as many samples more.
\<close>

theorem packed_records_read:
  assumes "writable m" "msr_datasamples m = Some (IntSamples xs)" "msr_numsamples m = int (length xs)" "msr_sampletype m = CHR ''i''"
    and "msr_formatversion m \<noteq> 2" "flags AND MSF_PACKVER2 = 0" "flags AND MSF_FLUSHDATA \<noteq> 0"
    and "encoding = (if msr_encoding m < 0 then 11 else word_of_int (msr_encoding m))" "integer_payload encoding xs"
    and "xs \<noteq> []" "length xs < 2 ^ 31" "record_times lslist m (length xs)" "msr_sid m \<noteq> []"
    and "- 1 \<le> msr_reclen m" "maxreclen = (if msr_reclen m < 0 then 4096 else nat (msr_reclen m))"
    and "MS3FSDH_LENGTH + length (msr_sid m) + unat (msr_extralength m) + payload_room encoding \<le> maxreclen"
    and "packer_ok pm" "rawrec_ok pm" "encoded_ok pm"
    and "rflags AND MSF_UNPACKDATA = 0" "\<And>offset. record_ok (re_alloc env offset) \<and> extra_ok (re_alloc env offset)"
  shows "\<exists>recs ms. msr3_pack h lslist header2 pm (Some m) True flags = Inr (int (length recs), Some (int (length xs)), recs) \<and>
    length ms = length recs \<and> list_all (same_header m) ms \<and> (\<Sum>m'\<leftarrow>ms. msr_samplecnt m') = int (length xs) \<and>
    mstl3_readbuffer env init_ok (Some (Some st)) (concat recs) splitversion rflags tolerance =
      map_option (\<lambda>(code, st, filled). (code, Some st, filled))
        (add_records env splitversion rflags tolerance (in_buffer (concat recs) 0 ms) st 0 []) \<and>
    (\<forall>code st' filled n. built (splitversion \<noteq> 0) st n \<and> 0 \<le> code \<and>
       mstl3_readbuffer env init_ok (Some (Some st)) (concat recs) splitversion rflags tolerance = Some (code, Some st', filled) \<longrightarrow>
       code = int (length recs) \<and> (\<exists>ns sl. trace_ok (splitversion \<noteq> 0) st' ns sl \<and> list_samples st' ns sl = n + int (length xs)))"
proof -
  define al where "al = re_alloc env 0"
  have al: "record_ok al" "extra_ok al" using assms(21) by (simp_all add: al_def)
  obtain recs where pack: "msr3_pack h lslist header2 pm (Some m) True flags = Inr (int (length recs), Some (int (length xs)), recs)"
    and give: "\<forall>h' addr'. records_give h' addr' al lslist m 0 recs xs"
    using pack_integers [OF assms(1-12,14-19) al] by blast
  obtain ms where ms: "list_all2 (holds_record (re_host env) rflags) recs ms" "list_all (same_header m) ms"
    "(\<Sum>m'\<leftarrow>ms. msr_samplecnt m') = int (length xs)"
    using records_give_hold [OF spec [OF spec [OF give]] assms(20) al assms(13)] by blast
  have len: "length ms = length recs" using list_all2_lengthD [OF ms(1)] by simp
  let ?add = "add_records env splitversion rflags tolerance (in_buffer (concat recs) 0 ms) st 0 []"
  have read: "mstl3_readbuffer env init_ok (Some (Some st)) (concat recs) splitversion rflags tolerance =
      map_option (\<lambda>(code, st, filled). (code, Some st, filled)) ?add"
    using read_loop_records [OF ms(1) assms(20,21), of 0 "concat recs" "[]" None splitversion tolerance st None 0 "[]"]
    by (simp add: mstl3_readbuffer_def mstl3_readbuffer_selection_def selected_def case_prod_beta')
  have "code = int (length recs) \<and> (\<exists>ns sl. trace_ok (splitversion \<noteq> 0) st' ns sl \<and> list_samples st' ns sl = n + int (length xs))"
    if "built (splitversion \<noteq> 0) st n" "0 \<le> code" "?add = Some (code, st', filled)" for code st' filled n
    using add_records_built [OF that(3,2,1)] built_ok len ms(3) by (auto simp: in_buffer_length in_buffer_samples)
  then show ?thesis using pack len ms(2,3) read by (intro exI [of _ recs] exI [of _ ms]) auto
qed

theorem packed_records_read_witness:
  "\<exists>recs ms. msr3_pack BigEndian embedded_leapsecondlist (\<lambda>h m mem n. Inl (ReturnError (-1))) memory_ok (Some three_samples) True 0x0040 =
       Inr (int (length recs), Some 3, recs) \<and>
     length ms = length recs \<and> (\<Sum>m'\<leftarrow>ms. msr_samplecnt m') = 3 \<and>
     mstl3_readbuffer short_env True (Some (Some mstl3_init)) (concat recs) 0 MSF_VALIDATECRC None =
       map_option (\<lambda>(code, st, filled). (code, Some st, filled))
         (add_records short_env 0 MSF_VALIDATECRC None (in_buffer (concat recs) 0 ms) mstl3_init 0 [])"
proof -
  have times: "record_times embedded_leapsecondlist three_samples (length [1, -2, 70000 :: i32])" using three_samples_ok(2) by (simp add: numeral_3_eq_3)
  have al: "record_ok (re_alloc short_env offset) \<and> extra_ok (re_alloc short_env offset)" for offset
    by (simp add: short_env_def Unpack3.all_ok_def)
  have "\<exists>recs ms. msr3_pack BigEndian embedded_leapsecondlist (\<lambda>h m mem n. Inl (ReturnError (-1))) memory_ok (Some three_samples) True 0x0040 =
       Inr (int (length recs), Some (int (length [1, -2, 70000 :: i32])), recs) \<and>
     length ms = length recs \<and> list_all (same_header three_samples) ms \<and> (\<Sum>m'\<leftarrow>ms. msr_samplecnt m') = int (length [1, -2, 70000 :: i32]) \<and>
     mstl3_readbuffer short_env True (Some (Some mstl3_init)) (concat recs) 0 MSF_VALIDATECRC None =
       map_option (\<lambda>(code, st, filled). (code, Some st, filled))
         (add_records short_env 0 MSF_VALIDATECRC None (in_buffer (concat recs) 0 ms) mstl3_init 0 []) \<and>
     (\<forall>code st' filled n. built ((0 :: u8) \<noteq> 0) mstl3_init n \<and> 0 \<le> code \<and>
       mstl3_readbuffer short_env True (Some (Some mstl3_init)) (concat recs) 0 MSF_VALIDATECRC None = Some (code, Some st', filled) \<longrightarrow>
       code = int (length recs) \<and> (\<exists>ns sl. trace_ok ((0 :: u8) \<noteq> 0) st' ns sl \<and> list_samples st' ns sl = n + int (length [1, -2, 70000 :: i32])))"
    by (rule packed_records_read [OF three_samples_ok(1) _ _ _ _ _ _ refl _ _ _ times _ _ refl _ _ _ _ _ al])
      (simp_all add: three_samples_def memory_ok_def integer_payload_def payload_room_def MS3Record_INITIALIZER_def)
  then show ?thesis by auto
qed

end
