(* ===== verification/Spec2Isabelle.thy ===== *)
theory Spec2Isabelle
  imports SteimCodec LegacyDecode Crc32c NsTime Selection TraceExtend PackRoundtrip Pack2 ReadPacked
begin

text \<open>
  A verification development for libmseed, the C library for miniSEED records. It models
  the computation of the library: coding of samples, times, identifiers, selections,
  records of format version 3 and the trace list. The theorems that state what a part
  promises stand at the end of its theory under a number C1, C2, ...

  \<^bold>\<open>The program and how its parts interact.\<close> A record holds a header and an
  encoded payload. \<open>msr3_pack\<close> (pack.c) takes an \<open>MS3Record\<close> with samples, writes headers
  (\<open>msr3_pack_header3\<close>), encodes piece after piece with the encoders of packdata.c and hands
  out records with their checksum (crc32c.c). \<open>ms3_detect\<close> (parseutils.c) finds the length and
  version of a record in a buffer, \<open>msr3_unpack_mseed3\<close> (unpack.c) reads its header back and
  \<open>msr3_unpack_data\<close> decodes the payload with the decoders of unpackdata.c. Times are 64-bit
  nanoseconds since 1970 (genutils.c over gmtime64.c). Source identifiers join network,
  station, location and channel codes (genutils.c); selections match them by glob patterns
  and time windows (selection.c). A trace list (tracelist.c) keeps a skip list of
  identifiers, each with a list of segments in time order, and grows by records.
  \<open>mstl3_readbuffer_selection\<close> (tracelist.c) puts these together: it parses the records of a
  buffer (\<open>msr3_parse\<close>, parseutils.c), selects, unpacks and adds them.

  \<^bold>\<open>Conventions.\<close> A C integer whose width matters is a word, the others are \<open>int\<close> or \<open>nat\<close> with the
  bounds written out; a buffer is the list of its bytes or words; the byte order of the
  host is a parameter. A routine that can fail gives a value of \<open>'a result\<close>: \<open>ReturnError\<close> is its
  documented error return, and \<open>NullDeref\<close>, \<open>OutOfBounds\<close> and \<open>Overflow\<close> mark executions without
  defined behaviour, so that safety is a statement about values. The trace list code
  chases pointers in an explicit store and uses \<open>option\<close>, with \<open>None\<close> for an undefined access,
  a signed overflow or a loop that does not end. Outcomes of allocations, addresses, fresh memory, the list
  of leap seconds and the system time are parameters. Log messages are left out.

  \<^bold>\<open>Theories.\<close>
  \<^item> \<open>Prelude\<close>, \<open>Bytes\<close>, \<open>Memory\<close>: faults, lists and words; the byte swaps of libmseed.h; typed
    access to buffers in the byte order of a host, with the lemmas that make the host
    disappear.
  \<^item> \<open>SteimEncode\<close>, \<open>SteimDecode\<close>: \<open>msr_encode_steim1/2\<close> and \<open>msr_decode_steim1/2\<close>, one body with the
    packing of one word as a parameter. \<open>SteimPack\<close> shows the law of the packers,
    \<open>SteimRoundtrip\<close> proves the codec in the locale \<open>steim_codec\<close> over that law, \<open>SteimByteOrder\<close> relates
    the hosts in the locale \<open>host_pair\<close>, and \<open>SteimCodec\<close> (locale \<open>steim_total\<close>) states round trip,
    capacity, bounds and faults.
  \<^item> \<open>PlainCodec\<close>: text, 16 and 32-bit integers and floats, with the locale \<open>plain_codec\<close>;
    \<open>LegacyDecode\<close>: GEOSCOPE, CDSN, SRO and DWWSSN against their format definitions; \<open>Lookup\<close>: the
    tables of lookup.c.
  \<^item> \<open>Crc32c\<close>: the sliced CRC-32C against the bit-serial one, over the tables of the source.
  \<^item> \<open>Gmtime\<close>, \<open>NsTime\<close>: the 64-bit gmtime against the Gregorian calendar, conversion of times and
    days; \<open>SampleTime\<close>: sample times with leap seconds, end times and rates of records, over the
    double arithmetic of \<open>Ieee\<close> (round to nearest even on 64-bit patterns, executable).
  \<^item> \<open>SourceId\<close>, \<open>Glob\<close>, \<open>Selection\<close>: identifiers, the backtracking matcher against the meaning of
    a pattern, and selections.
  \<^item> \<open>Detect\<close>, \<open>MsRecord\<close>, \<open>UnpackData\<close>, \<open>Unpack3\<close>: detection, the record and its version 3 header,
    repacking, payload bounds and decoding, unpacking.
  \<^item> \<open>PackData\<close>: \<open>msr_pack_data\<close>, and the locale \<open>payload_codec\<close> for an encoding whose payloads
    decode on any host, interpreted for 16 and 32-bit integers; \<open>SteimPayload\<close> interprets it for the two
    Steim encodings. \<open>Packer\<close>: the generator \<open>msr3_pack_init\<close>, \<open>msr3_pack_next\<close>, \<open>msr3_pack_free\<close> and the
    loop of \<open>msr3_pack\<close>. \<open>PackRoundtrip\<close> proves the generator inside \<open>payload_codec\<close>; \<open>Pack2\<close> is about its
    version 2 headers.
  \<^item> \<open>TraceTypes\<close>, \<open>SkipList\<close>, \<open>TraceSegs\<close>, \<open>TraceList\<close>: the store of a trace list, its skip list
    (\<open>mstl3_findID\<close>, \<open>mstl3_addID\<close>), its segments (\<open>lm_msr2seg\<close>, \<open>lm_addmsrtoseg\<close>, \<open>lm_addsegtoseg\<close>,
    linking and sorting) and \<open>mstl3_addmsr\<close> with its tolerances, search and healing.
    \<open>TraceInvariant\<close> and \<open>TraceExtend\<close> hold its properties.
  \<^item> \<open>ReadBuffer\<close>: \<open>msr3_parse\<close> and the reading of a buffer of records into a trace list, against the
    addition of the records one after the other; \<open>ReadPacked\<close>: reading what packing wrote.

  \<^bold>\<open>What the lemmas show.\<close> End to end: what \<open>msr3_pack\<close> writes is detected, unpacked and decoded to
  the samples on every pair of hosts (C1), and a trace list built by any sequence of
  additions stays well-formed and covers the samples added (C2). The records that packing
  writes into a buffer are read back into a trace list (C3); reading a buffer is adding its
  records in order (C4) and keeps the trace list well-formed, whatever the bytes (C5).
  Below that: round trips
  of every encoding, of records, times and identifiers; equivalence of the CRC, the
  matcher and gmtime with reference definitions; refinement of sorted insertion by the
  skip list and termination of its search; the bounds the decoders keep. Where the code
  leaves its bounds or its documentation, a theorem says exactly when: overruns, wrapped
  lengths, a tolerance that refuses what it should accept, a start time one second early.

  \<^bold>\<open>Loops and bounds.\<close> Loops of the codecs, of gmtime, of the matcher and of the packer are
  recursive functions with proved termination; no fuel is used. The loop over a buffer of
  records is total too, since a round that goes on takes at least 40 bytes. The pointer
  loops of the trace list are partial functions: C18 shows that the search returns on a
  well-formed list, and the invariants speak of the calls that return. Properties of whole
  records take lengths up to \<open>MAXRECLEN\<close>, the limit of the library; the packing round trip
  takes fewer than \<open>2 ^ 31\<close> samples, the limit of unpacking.

  \<^bold>\<open>Not modelled.\<close> The vendored JSON library (yyjson) and what rests on it: extra headers
  (extraheaders.c), version 2 headers and unpacking, whose blockettes become JSON; the writer
  of version 2 headers is a parameter of the packer, and the unpacker of version 2 records
  one of the parser. Reading and writing of files, streams and URLs (fileutils.c, msio.c),
  logging, printing, time strings, the reading of selection files, the unpacking of record
  lists and the packing of trace lists, and the example and test programs.
\<close>

end
